(* ===== verification/Hyxd_Base.thy ===== *)
theory Hyxd_Base
  imports Main "HOL-Library.Word" "HOL-Library.Char_ord"
begin

text \<open>
  Shared vocabulary of the development: the byte and machine-integer types, the C memory
  operations on arrays (\<open>memmove\<close>, \<open>memcpy\<close> into a buffer), the little-endian
  fields of the wire formats, C strings, and the error values that stand for the undefined
  behaviour a branch of the source can reach. The lemmas on these are collected in
  \<open>mem_simps\<close> (array operations) and \<open>le_simps\<close> (byte order).
\<close>

unbundle bit_operations_syntax

section \<open>Types\<close>

type_synonym byte = "8 word"
type_synonym u32 = "32 word"

text \<open>
  What the C abstract machine does not define is a value of its own, so that no theorem can
  read a result out of it.
\<close>

datatype c_error =
    OutOfBounds      \<comment> \<open>an access outside the object\<close>
  | UseUninit        \<comment> \<open>a local variable read before it was written\<close>
  | UseAfterFree     \<comment> \<open>an access to an object that was freed\<close>
  | NullDeref        \<comment> \<open>an access through a null pointer\<close>
  | BadFree          \<comment> \<open>\<open>free\<close> of an address that \<open>malloc\<close> did not return\<close>
  | StackOverflow    \<comment> \<open>recursion deeper than the C stack\<close>
  | AssertFailed     \<comment> \<open>a false \<open>assert\<close>\<close>
  | DataRace         \<comment> \<open>two threads at once in code that is not locked\<close>
  | IntOverflow      \<comment> \<open>a signed result outside the range of \<open>int\<close>\<close>

type_synonym 'a result = "c_error + 'a"

text \<open>Sequencing: the first error ends the computation.\<close>

definition rbind :: "'a result \<Rightarrow> ('a \<Rightarrow> 'b result) \<Rightarrow> 'b result" where
  "rbind r f = (case r of Inl e \<Rightarrow> Inl e | Inr x \<Rightarrow> f x)"

lemma rbind_simps [simp]: "rbind (Inl e) f = Inl e" "rbind (Inr x) f = f x"
  by (simp_all add: rbind_def)

lemma rbind_Inr_iff: "rbind r f = Inr y \<longleftrightarrow> (\<exists>x. r = Inr x \<and> f x = Inr y)"
  by (cases r) simp_all

lemma rbind_InrE:
  assumes "rbind r f = Inr y"
  obtains x where "r = Inr x" "f x = Inr y"
  using assms by (auto simp: rbind_Inr_iff)

lemma rbind_assoc: "rbind (rbind r f) g = rbind r (\<lambda>x. rbind (f x) g)"
  by (cases r) simp_all

text \<open>A result of \<open>int\<close> arithmetic.\<close>

definition INT_MAX :: int where
  "INT_MAX = 2147483647"

definition c_int :: "int \<Rightarrow> int result" where
  "c_int x = (if - INT_MAX - 1 \<le> x \<and> x \<le> INT_MAX then Inr x else Inl IntOverflow)"

lemma rbind_Inr [simp]: "rbind r Inr = r"
  by (cases r) simp_all

named_theorems mem_simps
named_theorems le_simps

section \<open>Arrays\<close>

text \<open>\<open>memmove(a + dst, a + src, n)\<close> within one array.\<close>

definition memmove :: "'a list \<Rightarrow> nat \<Rightarrow> nat \<Rightarrow> nat \<Rightarrow> 'a list" where
  "memmove a dst src n = take dst a @ take n (drop src a) @ drop (dst + n) a"

text \<open>\<open>memcpy(a + dst, xs, length xs)\<close> into an array.\<close>

definition blit :: "'a list \<Rightarrow> nat \<Rightarrow> 'a list \<Rightarrow> 'a list" where
  "blit a dst xs = take dst a @ xs @ drop (dst + length xs) a"

text \<open>The \<open>n\<close> elements from index \<open>i\<close>.\<close>

definition slice :: "nat \<Rightarrow> nat \<Rightarrow> 'a list \<Rightarrow> 'a list" where
  "slice i n a = take n (drop i a)"

lemma length_memmove [mem_simps]:
  "dst + n \<le> length a \<Longrightarrow> src + n \<le> length a \<Longrightarrow> length (memmove a dst src n) = length a"
  by (simp add: memmove_def)

lemma length_blit [mem_simps]:
  "dst + length xs \<le> length a \<Longrightarrow> length (blit a dst xs) = length a"
  by (simp add: blit_def)

lemma length_slice [mem_simps]: "i + n \<le> length a \<Longrightarrow> length (slice i n a) = n"
  by (simp add: slice_def)

lemma take_blit [mem_simps]:
  "dst + length xs \<le> length a \<Longrightarrow> take (dst + length xs) (blit a dst xs) = take dst a @ xs"
  by (simp add: blit_def)

lemma drop_blit [mem_simps]:
  "dst + length xs \<le> length a \<Longrightarrow> drop (dst + length xs) (blit a dst xs) = drop (dst + length xs) a"
  by (simp add: blit_def)

lemma take_memmove_front [mem_simps]:
  "src + n \<le> length a \<Longrightarrow> take n (memmove a 0 src n) = slice src n a"
  by (simp add: memmove_def slice_def)

lemma slice_take [mem_simps]: "i + n \<le> m \<Longrightarrow> slice i n (take m a) = slice i n a"
  by (simp add: slice_def drop_take min_def)

lemma slice_append [mem_simps]:
  "length xs = i \<Longrightarrow> length ys = n \<Longrightarrow> slice i n (xs @ ys @ zs) = ys"
  by (simp add: slice_def)

lemma take_split_slice: "take (i + n) a = take i a @ slice i n a"
  by (simp add: slice_def take_add)

section \<open>Byte order\<close>

text \<open>
  \<open>data[0] | (data[1] << 8)\<close>: the bytes are promoted to 32 bits, shifted and combined.
\<close>

definition le16 :: "byte \<Rightarrow> byte \<Rightarrow> u32" where
  "le16 b0 b1 = ucast b0 OR push_bit 8 (ucast b1)"

definition le32 :: "byte \<Rightarrow> byte \<Rightarrow> byte \<Rightarrow> byte \<Rightarrow> u32" where
  "le32 b0 b1 b2 b3 =
     ucast b0 OR push_bit 8 (ucast b1) OR push_bit 16 (ucast b2) OR push_bit 24 (ucast b3)"

text \<open>The bytes a 32-bit value is written as, lowest first.\<close>

definition u16_bytes :: "u32 \<Rightarrow> byte list" where
  "u16_bytes w = [ucast w, ucast (drop_bit 8 w)]"

definition u32_bytes :: "u32 \<Rightarrow> byte list" where
  "u32_bytes w = [ucast w, ucast (drop_bit 8 w), ucast (drop_bit 16 w), ucast (drop_bit 24 w)]"

lemma unat_byte_lt [le_simps]: "unat (b :: byte) < 256"
  using unsigned_less [of b] by simp

lemma unat_u32_of_byte [le_simps]: "unat (ucast (b :: byte) :: u32) = unat b"
  using unat_byte_lt [of b] by (simp add: unsigned_ucast_eq take_bit_eq_mod)

lemma unat_push_bit_small:
  "unat (w :: u32) * 2 ^ n < 2 ^ 32 \<Longrightarrow> unat (push_bit n w) = unat w * 2 ^ n"
  by (simp only: unsigned_push_bit_eq) (simp add: take_bit_eq_mod push_bit_eq_mult)

lemma nat_or_push_bit:
  fixes a b :: nat
  assumes "a < 2 ^ n"
  shows "a OR push_bit n b = a + push_bit n b"
proof (rule disjunctive_add [symmetric])
  fix k
  from assms have "take_bit n a = a" by (simp add: take_bit_nat_eq_self)
  then show "\<not> bit a k \<or> \<not> bit (push_bit n b) k"
    by (metis bit_push_bit_iff bit_take_bit_iff linorder_not_less)
qed

lemma nat_or_shift: "a < 2 ^ n \<Longrightarrow> a OR (b * 2 ^ n) = a + b * 2 ^ n" for a b :: nat
  using nat_or_push_bit [of a n b] by (simp add: push_bit_eq_mult)

lemma unat_le16 [le_simps]: "unat (le16 b0 b1) = unat b0 + 256 * unat b1"
  using unat_byte_lt [of b0] unat_byte_lt [of b1] nat_or_shift [of "unat b0" 8 "unat b1"]
  unfolding le16_def by (simp add: unsigned_or_eq unat_push_bit_small unat_u32_of_byte)

lemma unat_le32 [le_simps]:
  "unat (le32 b0 b1 b2 b3) =
     unat b0 + 256 * unat b1 + 65536 * unat b2 + 16777216 * unat b3"
  using unat_byte_lt [of b0] unat_byte_lt [of b1] unat_byte_lt [of b2] unat_byte_lt [of b3]
    nat_or_shift [of "unat b0" 8 "unat b1"]
    nat_or_shift [of "unat b0 + unat b1 * 256" 16 "unat b2"]
    nat_or_shift [of "unat b0 + unat b1 * 256 + unat b2 * 65536" 24 "unat b3"]
  unfolding le32_def
  by (simp add: unsigned_or_eq unat_push_bit_small unat_u32_of_byte or.assoc [symmetric])

lemma unat_le16_lt [le_simps]: "unat (le16 b0 b1) < 65536"
  using unat_byte_lt [of b0] unat_byte_lt [of b1] by (simp add: unat_le16)

lemma unat_byte_of_u32 [le_simps]: "unat (ucast (w :: u32) :: byte) = unat w mod 256"
  by (simp add: unsigned_ucast_eq take_bit_eq_mod)

lemma unat_byte_of_shifted [le_simps]:
  "unat (ucast (drop_bit n (w :: u32)) :: byte) = unat w div 2 ^ n mod 256"
  by (simp only: unsigned_ucast_eq unat_drop_bit_eq) (simp add: take_bit_eq_mod drop_bit_eq_div)

lemma le16_split [le_simps]: "le16 (ucast w) (ucast (drop_bit 8 w)) = take_bit 16 w"
  unfolding le16_def by (rule bit_word_eqI) (auto simp: bit_simps)

lemma le32_split [le_simps]:
  "le32 (ucast w) (ucast (drop_bit 8 w)) (ucast (drop_bit 16 w)) (ucast (drop_bit 24 w)) = w"
proof (rule bit_word_eqI)
  fix n
  assume "n < LENGTH(32)"
  then show "bit (le32 (ucast w) (ucast (drop_bit 8 w)) (ucast (drop_bit 16 w))
      (ucast (drop_bit 24 w))) n = bit w n"
    unfolding le32_def
    by (cases "n < 8"; cases "n < 16"; cases "n < 24") (auto simp: bit_simps)
qed

lemma length_u16_bytes [le_simps]: "length (u16_bytes w) = 2"
  by (simp add: u16_bytes_def)

lemma length_u32_bytes [le_simps]: "length (u32_bytes w) = 4"
  by (simp add: u32_bytes_def)

text \<open>Reading a 32-bit value as a C \<open>int\<close>.\<close>

lemma sint_u32_small:
  assumes "unat (w :: u32) < 2 ^ 31"
  shows "sint w = int (unat w)"
proof -
  from assms have "uint w < 2 ^ 31"
    by (metis of_nat_less_iff of_nat_power of_nat_numeral uint_nat)
  then have "signed_take_bit 31 (uint w) = uint w"
    by (intro signed_take_bit_int_eq_self) (simp_all add: order_trans [of _ 0])
  then show ?thesis by (simp add: sint_uint)
qed

lemma sint_u32_wrap:
  assumes "2 ^ 31 \<le> unat (w :: u32)"
  shows "sint w = int (unat w) - 2 ^ 32"
proof -
  from assms have "2 ^ 31 \<le> uint w"
    by (metis of_nat_le_iff of_nat_power of_nat_numeral uint_nat)
  moreover have "uint w < 2 ^ 32" using uint_lt2p [of w] by simp
  ultimately have m: "(uint w - 2 ^ 31 + 2 ^ 32) mod 2 ^ 32 = uint w - 2 ^ 31"
    by (simp only: mod_add_self2) simp
  have "signed_take_bit 31 (uint w) = (uint w + 2 ^ 31) mod 2 ^ 32 - 2 ^ 31"
    by (simp add: signed_take_bit_eq_take_bit_shift take_bit_eq_mod)
  also have "uint w + 2 ^ 31 = uint w - 2 ^ 31 + 2 ^ 32" by simp
  finally have "signed_take_bit 31 (uint w) = uint w - 2 ^ 31 - 2 ^ 31" using m by simp
  then show ?thesis by (simp add: sint_uint)
qed

lemma sint_take_bit_16 [le_simps]: "sint (take_bit 16 (w :: u32)) = int (unat w mod 65536)"
proof -
  have "unat (take_bit 16 w) = unat w mod 65536"
    by (simp only: unsigned_take_bit_eq) (simp add: take_bit_eq_mod)
  moreover have "unat w mod 65536 < 2 ^ 31"
    by (rule less_trans [OF mod_less_divisor]) simp_all
  ultimately show ?thesis by (metis sint_u32_small)
qed

text \<open>Masking a byte out before it is stored changes nothing.\<close>

lemma mask_low_byte [le_simps]: "ucast ((w :: u32) AND 0xff) = (ucast w :: byte)"
proof (rule bit_word_eqI)
  have m: "(0xff :: u32) = mask 8" by (simp add: mask_numeral)
  fix n
  assume "n < LENGTH(8)"
  then show "bit (ucast (w AND 0xff) :: byte) n = bit (ucast w :: byte) n"
    unfolding m by (auto simp: bit_simps)
qed

lemma mask_high_byte [le_simps]:
  "ucast (drop_bit 8 ((w :: u32) AND 0xff00)) = (ucast (drop_bit 8 w) :: byte)"
proof (rule bit_word_eqI)
  have m: "(0xff00 :: u32) = push_bit 8 (mask 8)" by (simp add: mask_numeral)
  fix n
  assume "n < LENGTH(8)"
  then show "bit (ucast (drop_bit 8 (w AND 0xff00)) :: byte) n = bit (ucast (drop_bit 8 w) :: byte) n"
    unfolding m by (auto simp: bit_simps)
qed

section \<open>Text\<close>

text \<open>
  Text is kept as \<open>string\<close>: an HOL character is exactly one byte. A C string ends at its
  first zero byte.
\<close>

definition byte_of_char :: "char \<Rightarrow> byte" where
  "byte_of_char c = word_of_nat (of_char c)"

definition char_of_byte :: "byte \<Rightarrow> char" where
  "char_of_byte b = char_of (unat b)"

definition c_string :: "string \<Rightarrow> string" where
  "c_string s = takeWhile (\<lambda>c. c \<noteq> CHR 0x00) s"

lemma unat_byte_of_char: "unat (byte_of_char c) = of_char c"
  using nat_of_char_less_256 [of c]
  by (simp add: byte_of_char_def unsigned_of_nat take_bit_nat_eq_self)

lemma char_of_byte_of_char [simp]: "char_of_byte (byte_of_char c) = c"
  by (simp add: char_of_byte_def unat_byte_of_char)

lemma byte_of_char_of_byte [simp]: "byte_of_char (char_of_byte b) = b"
  by (simp add: char_of_byte_def word_unat_eq_iff unat_byte_of_char unat_byte_lt)

lemma map_char_of_byte_of_char [simp]: "map char_of_byte (map byte_of_char s) = s"
  by (induction s) simp_all

lemma map_byte_of_char_of_byte [simp]: "map byte_of_char (map char_of_byte bs) = bs"
  by (induction bs) simp_all

lemma c_string_no_nul: "CHR 0x00 \<notin> set s \<Longrightarrow> c_string s = s"
  by (induction s) (auto simp: c_string_def)

end
