(* ===== verification/Cache_Alloc.thy ===== *)
theory Cache_Alloc
  imports Hyxd_Base
begin

text \<open>
  The fixed-size block pool of \<open>utils/catch_alloc.c\<close> and its lazily created global
  instance of \<open>utils/small_alloc.c\<close>. A free slot holds the address of the next free slot in
  its first word, so the free list lives inside the pool: the heap keeps that word per address
  (\<open>next_word\<close>) and the blocks \<open>malloc\<close> handed out (\<open>blocks\<close>). The address a call of
  \<open>malloc\<close> returns is the first argument of an operation; what libc promises about it is the
  predicate \<open>malloc_fresh\<close>. The interface of a block allocator is the locale
  \<open>block_allocator\<close>, interpreted on the pool.
\<close>

section \<open>The pool\<close>

text \<open>
  \<open>blocks\<close> holds the blocks requests were answered with, \<open>arenas\<close> the blocks
  \<open>malloc\<close> returned for the pools themselves (their slots and their headers).
\<close>

record heap =
  next_word :: "nat \<Rightarrow> nat"
  blocks :: "nat \<Rightarrow> nat option"
  arenas :: "nat \<Rightarrow> nat option"

record cache_allocer =
  cache_mem :: nat
  capacity :: nat
  free_list :: nat
  elem_size :: nat

text \<open>\<open>sizeof(struct node)\<close>: one pointer, 4 bytes on the 32-bit build of \<open>build/proj.win32\<close>.\<close>

definition sizeof_node :: nat where
  "sizeof_node = 4"

text \<open>One turn of the loop that threads the slots onto the free list.\<close>

definition thread_slot :: "nat \<Rightarrow> nat \<Rightarrow> nat \<Rightarrow> nat \<times> (nat \<Rightarrow> nat) \<Rightarrow> nat \<times> (nat \<Rightarrow> nat)" where
  "thread_slot mem es i st =
     (let walk = mem + i * es in (walk, (snd st)(walk := fst st)))"

text \<open>\<open>hdr\<close> and \<open>mem\<close> are what the two calls of \<open>malloc\<close> return.\<close>

definition sizeof_allocer :: nat where
  "sizeof_allocer = 16"

definition create_cache_allocer ::
  "nat \<Rightarrow> nat \<Rightarrow> nat \<Rightarrow> nat \<Rightarrow> heap \<Rightarrow> cache_allocer \<times> heap" where
  "create_cache_allocer hdr mem cap esz h =
     (let es = (if esz < sizeof_node then sizeof_node else esz);
          zeroed = (\<lambda>p. if mem \<le> p \<and> p < mem + cap * es then 0 else next_word h p);
          (fl, nw) = fold (thread_slot mem es) [0..<cap] (0, zeroed)
      in (\<lparr>cache_mem = mem, capacity = cap, free_list = fl, elem_size = es\<rparr>,
          h\<lparr>next_word := nw,
            arenas := (arenas h)(hdr \<mapsto> sizeof_allocer, mem \<mapsto> cap * es)\<rparr>))"

definition c_malloc :: "nat \<Rightarrow> nat \<Rightarrow> heap \<Rightarrow> nat \<times> heap" where
  "c_malloc m n h = (m, if m = 0 then h else h\<lparr>blocks := (blocks h)(m \<mapsto> n)\<rparr>)"

definition c_free :: "nat \<Rightarrow> heap \<Rightarrow> heap result" where
  "c_free p h =
     (if p = 0 then Inr h
      else if blocks h p \<noteq> None then Inr (h\<lparr>blocks := (blocks h)(p := None)\<rparr>)
      else if arenas h p \<noteq> None then Inr (h\<lparr>arenas := (arenas h)(p := None)\<rparr>)
      else Inl BadFree)"

definition cache_alloc ::
  "nat \<Rightarrow> nat \<Rightarrow> cache_allocer \<times> heap \<Rightarrow> nat \<times> (cache_allocer \<times> heap)" where
  "cache_alloc m esz s =
     (let (a, h) = s in
      if elem_size a < esz then (let (p, h') = c_malloc m esz h in (p, (a, h')))
      else if free_list a \<noteq> 0 then
        (free_list a, (a\<lparr>free_list := next_word h (free_list a)\<rparr>, h))
      else (let (p, h') = c_malloc m esz h in (p, (a, h'))))"

text \<open>The address test of \<open>cache_free\<close>: the block lies inside the pool's memory.\<close>

definition in_pool :: "cache_allocer \<Rightarrow> nat \<Rightarrow> bool" where
  "in_pool a p \<longleftrightarrow> cache_mem a \<le> p \<and> p < cache_mem a + capacity a * elem_size a"

definition cache_free :: "nat \<Rightarrow> cache_allocer \<times> heap \<Rightarrow> (cache_allocer \<times> heap) result" where
  "cache_free p s =
     (let (a, h) = s in
      if in_pool a p then
        Inr (a\<lparr>free_list := p\<rparr>, h\<lparr>next_word := (next_word h)(p := free_list a)\<rparr>)
      else (case c_free p h of Inl e \<Rightarrow> Inl e | Inr h' \<Rightarrow> Inr (a, h')))"

definition destroy_cache_allocer :: "nat \<Rightarrow> cache_allocer \<times> heap \<Rightarrow> heap result" where
  "destroy_cache_allocer hdr s =
     (case (if cache_mem (fst s) \<noteq> 0 then c_free (cache_mem (fst s)) (snd s) else Inr (snd s)) of
        Inl e \<Rightarrow> Inl e
      | Inr h \<Rightarrow> c_free hdr h)"

section \<open>The small-block pool\<close>

definition SMALL_ELEM_NUM :: nat where "SMALL_ELEM_NUM = 10 * 1024"
definition SMALL_ELEM_SIZE :: nat where "SMALL_ELEM_SIZE = 128"

text \<open>
  The global pointer \<open>small_allocer\<close> starts null; both operations create the pool when they
  find it so. \<open>m0\<close> holds the addresses \<open>malloc\<close> returns for the pool's header and its
  slots.
\<close>

definition small_pool :: "nat \<times> nat \<Rightarrow> cache_allocer option \<times> heap \<Rightarrow> cache_allocer \<times> heap" where
  "small_pool m0 s =
     (case fst s of
        None \<Rightarrow> create_cache_allocer (fst m0) (snd m0) SMALL_ELEM_NUM SMALL_ELEM_SIZE (snd s)
      | Some a \<Rightarrow> (a, snd s))"

definition small_alloc ::
  "nat \<times> nat \<Rightarrow> nat \<Rightarrow> nat \<Rightarrow> cache_allocer option \<times> heap \<Rightarrow> nat \<times> (cache_allocer option \<times> heap)" where
  "small_alloc m0 m n s =
     (let (p, (a, h)) = cache_alloc m n (small_pool m0 s) in (p, (Some a, h)))"

definition small_free ::
  "nat \<times> nat \<Rightarrow> nat \<Rightarrow> cache_allocer option \<times> heap \<Rightarrow> (cache_allocer option \<times> heap) result" where
  "small_free m0 p s =
     (case cache_free p (small_pool m0 s) of
        Inl e \<Rightarrow> Inl e | Inr (a, h) \<Rightarrow> Inr (Some a, h))"

section \<open>The interface of a block allocator\<close>

datatype alloc_op = Alloc nat nat | Store nat nat | Release nat

text \<open>
  A client with its own books: \<open>held\<close> lists the blocks it was given, with the sizes it asked for.
  \<open>Alloc m n\<close> asks for \<open>n\<close> bytes when \<open>malloc\<close> would answer \<open>m\<close>; \<open>Store x v\<close> writes the word \<open>v\<close>
  at the address \<open>x\<close>.
\<close>

fun run_ops ::
  "(nat \<Rightarrow> nat \<Rightarrow> 's \<Rightarrow> nat \<times> 's) \<Rightarrow> (nat \<Rightarrow> 's \<Rightarrow> 's result) \<Rightarrow> (nat \<Rightarrow> nat \<Rightarrow> 's \<Rightarrow> 's) \<Rightarrow> alloc_op list
     \<Rightarrow> (nat \<times> nat) list \<Rightarrow> 's \<Rightarrow> ((nat \<times> nat) list \<times> 's) result" where
  "run_ops al rel sto [] held s = Inr (held, s)"
| "run_ops al rel sto (Alloc m n # ops) held s =
     (let (p, s') = al m n s in run_ops al rel sto ops ((p, n) # held) s')"
| "run_ops al rel sto (Store x v # ops) held s = run_ops al rel sto ops held (sto x v s)"
| "run_ops al rel sto (Release p # ops) held s =
     (case rel p s of Inl e \<Rightarrow> Inl e | Inr s' \<Rightarrow> run_ops al rel sto ops (filter (\<lambda>b. fst b \<noteq> p) held) s')"

text \<open>
  A client that by its own books writes only into blocks it holds and releases only those, on a
  \<open>malloc\<close> that keeps its promise. Whether the allocator manages to take a block back is not the
  client's doing: a release that fails leaves the client legal, and it is \<open>run_ops\<close> that ends with
  the failure.
\<close>

fun legal_ops ::
  "(nat \<Rightarrow> nat \<Rightarrow> 's \<Rightarrow> nat \<times> 's) \<Rightarrow> (nat \<Rightarrow> 's \<Rightarrow> 's result) \<Rightarrow> (nat \<Rightarrow> nat \<Rightarrow> 's \<Rightarrow> 's)
     \<Rightarrow> (nat \<Rightarrow> nat \<Rightarrow> 's \<Rightarrow> bool) \<Rightarrow> alloc_op list \<Rightarrow> (nat \<times> nat) list \<Rightarrow> 's \<Rightarrow> bool" where
  "legal_ops al rel sto fr [] held s = True"
| "legal_ops al rel sto fr (Alloc m n # ops) held s =
     (fr m n s \<and> (let (p, s') = al m n s in legal_ops al rel sto fr ops ((p, n) # held) s'))"
| "legal_ops al rel sto fr (Store x v # ops) held s =
     (list_ex (\<lambda>(p, n). p \<le> x \<and> x < p + n) held \<and> legal_ops al rel sto fr ops held (sto x v s))"
| "legal_ops al rel sto fr (Release p # ops) held s =
     (p \<in> fst ` set held \<and>
      (case rel p s of
         Inl e \<Rightarrow> True
       | Inr s' \<Rightarrow> legal_ops al rel sto fr ops (filter (\<lambda>b. fst b \<noteq> p) held) s'))"

definition apart :: "(nat \<times> nat) list \<Rightarrow> bool" where
  "apart held \<longleftrightarrow> distinct (map fst held) \<and>
     (\<forall>(p, k) \<in> set held. \<forall>(q, l) \<in> set held. p \<noteq> q \<longrightarrow> p + k \<le> q \<or> q + l \<le> p)"

locale block_allocator =
  fixes alloc :: "nat \<Rightarrow> nat \<Rightarrow> 's \<Rightarrow> nat \<times> 's"
    and release :: "nat \<Rightarrow> 's \<Rightarrow> 's result"
    and store :: "nat \<Rightarrow> nat \<Rightarrow> 's \<Rightarrow> 's"
    and owned :: "'s \<Rightarrow> nat \<Rightarrow> nat option"
    and fresh :: "nat \<Rightarrow> nat \<Rightarrow> 's \<Rightarrow> bool"
    and good :: "'s \<Rightarrow> bool"
  assumes alloc_good: "good s \<Longrightarrow> fresh m n s \<Longrightarrow> good (snd (alloc m n s))"
    and alloc_unowned: "good s \<Longrightarrow> fresh m n s \<Longrightarrow> owned s (fst (alloc m n s)) = None"
    and alloc_owned: "good s \<Longrightarrow> fresh m n s \<Longrightarrow>
      \<exists>k \<ge> n. owned (snd (alloc m n s)) = (owned s)(fst (alloc m n s) \<mapsto> k)"
    and store_ok: "good s \<Longrightarrow> owned s p = Some k \<Longrightarrow> p \<le> x \<Longrightarrow> x < p + k \<Longrightarrow>
      good (store x v s) \<and> owned (store x v s) = owned s"
    and release_ok: "good s \<Longrightarrow> owned s p = Some k \<Longrightarrow>
      \<exists>s'. release p s = Inr s' \<and> good s' \<and> owned s' = (owned s)(p := None)"
    and owned_disjoint: "good s \<Longrightarrow> owned s p = Some k \<Longrightarrow> owned s q = Some l \<Longrightarrow>
      p \<noteq> q \<Longrightarrow> p + k \<le> q \<or> q + l \<le> p"
begin

lemma alloc_keeps_others:
  assumes "good s" "fresh m n s" "owned s q = Some l"
  shows "owned (snd (alloc m n s)) q = Some l"
proof -
  from alloc_unowned [OF assms(1,2)] assms(3) have "q \<noteq> fst (alloc m n s)" by auto
  with alloc_owned [OF assms(1,2)] assms(3) show ?thesis by auto
qed

lemma alloc_release_inverse:
  assumes "good s" "fresh m n s"
  shows "\<exists>s'. release (fst (alloc m n s)) (snd (alloc m n s)) = Inr s' \<and> owned s' = owned s"
proof -
  obtain k where k: "owned (snd (alloc m n s)) = (owned s)(fst (alloc m n s) \<mapsto> k)"
    using alloc_owned [OF assms] by blast
  then have "owned (snd (alloc m n s)) (fst (alloc m n s)) = Some k" by simp
  from release_ok [OF alloc_good [OF assms] this] obtain s' where
    s': "release (fst (alloc m n s)) (snd (alloc m n s)) = Inr s'"
    "owned s' = (owned (snd (alloc m n s)))(fst (alloc m n s) := None)" by blast
  with k alloc_unowned [OF assms] have "owned s' = owned s"
    by (auto simp: fun_eq_iff)
  with s' show ?thesis by blast
qed

text \<open>The books of the client are those of the allocator.\<close>

definition booked :: "(nat \<times> nat) list \<Rightarrow> 's \<Rightarrow> bool" where
  "booked held s \<longleftrightarrow> distinct (map fst held) \<and> (\<forall>(p, n) \<in> set held. \<exists>k \<ge> n. owned s p = Some k)"

lemma booked_alloc:
  assumes "good s" "fresh m n s" "booked held s" "alloc m n s = (p, s')"
  shows "good s' \<and> booked ((p, n) # held) s'"
proof -
  obtain k where k: "n \<le> k" "owned s' = (owned s)(p \<mapsto> k)" using alloc_owned [OF assms(1,2)] assms(4) by auto
  have "owned s p = None" using alloc_unowned [OF assms(1,2)] assms(4) by simp
  then have "p \<notin> fst ` set held" using assms(3) by (force simp: booked_def)
  have "\<exists>j \<ge> l. owned s' q = Some j" if "(q, l) \<in> set held" for q l
  proof -
    from that \<open>p \<notin> fst ` set held\<close> have "q \<noteq> p" by force
    with that assms(3) k(2) show ?thesis by (auto simp: booked_def)
  qed
  with k assms(3) \<open>p \<notin> fst ` set held\<close> have "booked ((p, n) # held) s'" by (auto simp: booked_def)
  with alloc_good [OF assms(1,2)] assms(4) show ?thesis by simp
qed

lemma booked_release:
  assumes "good s" "booked held s" "p \<in> fst ` set held"
  obtains s' where "release p s = Inr s'" "good s'" "booked (filter (\<lambda>b. fst b \<noteq> p) held) s'"
proof -
  from assms(2,3) obtain k where "owned s p = Some k" by (force simp: booked_def)
  from release_ok [OF assms(1) this] obtain s' where
    s': "release p s = Inr s'" "good s'" "owned s' = (owned s)(p := None)" by blast
  moreover from assms(2) s'(3) have "booked (filter (\<lambda>b. fst b \<noteq> p) held) s'"
    by (auto simp: booked_def distinct_map_filter)
  ultimately show thesis using that by blast
qed

lemma booked_store:
  assumes "good s" "booked held s" "list_ex (\<lambda>(p, n). p \<le> x \<and> x < p + n) held"
  shows "good (store x v s) \<and> booked held (store x v s)"
proof -
  from assms(3) obtain p n where p: "(p, n) \<in> set held" "p \<le> x" "x < p + n"
    by (auto simp: list_ex_iff)
  with assms(2) obtain k where "n \<le> k" "owned s p = Some k" by (force simp: booked_def)
  with store_ok [OF assms(1) this(2) p(2)] p(3) assms(2) show ?thesis by (simp add: booked_def)
qed

lemma run_booked:
  "good s \<Longrightarrow> booked held s \<Longrightarrow> legal_ops alloc release store fresh ops held s \<Longrightarrow>
   \<exists>held' s'. run_ops alloc release store ops held s = Inr (held', s') \<and> good s' \<and> booked held' s'"
proof (induction ops arbitrary: held s)
  case Nil
  then show ?case by simp
next
  case (Cons a ops)
  show ?case
  proof (cases a)
    case (Alloc m n)
    obtain p s' where "alloc m n s = (p, s')" by fastforce
    with Cons.prems Alloc Cons.IH booked_alloc [OF Cons.prems(1) _ Cons.prems(2) this] show ?thesis by simp
  next
    case (Store x v)
    with Cons.prems Cons.IH booked_store [OF Cons.prems(1,2)] show ?thesis by simp
  next
    case (Release p)
    with Cons.prems(3) have "p \<in> fst ` set held" by simp
    from booked_release [OF Cons.prems(1,2) this] obtain s' where
      s': "release p s = Inr s'" "good s'" "booked (filter (\<lambda>b. fst b \<noteq> p) held) s'" .
    with Cons.prems(3) Release have "legal_ops alloc release store fresh ops (filter (\<lambda>b. fst b \<noteq> p) held) s'"
      by simp
    from Cons.IH [OF s'(2,3) this] s'(1) Release show ?thesis by simp
  qed
qed

lemma booked_apart:
  assumes "good s" "booked held s"
  shows "apart held"
proof -
  have "p + k \<le> q \<or> q + l \<le> p" if h: "(p, k) \<in> set held" "(q, l) \<in> set held" "p \<noteq> q" for p k q l
  proof -
    have "\<exists>j \<ge> n. owned s x = Some j" if "(x, n) \<in> set held" for x n
      using assms(2) that by (auto simp: booked_def)
    from this [OF h(1)] this [OF h(2)] obtain k' l' where
      o: "k \<le> k'" "owned s p = Some k'" "l \<le> l'" "owned s q = Some l'" by blast
    from owned_disjoint [OF assms(1) o(2,4) h(3)] o(1,3) show ?thesis by linarith
  qed
  with assms(2) show ?thesis by (auto simp: apart_def booked_def)
qed

lemma clients_never_overlap:
  assumes "good s" "legal_ops alloc release store fresh ops [] s"
  shows "\<exists>held s'. run_ops alloc release store ops [] s = Inr (held, s') \<and> good s' \<and> apart held \<and>
    (\<forall>(p, n) \<in> set held. \<exists>k \<ge> n. owned s' p = Some k)"
proof -
  have "booked [] s" by (simp add: booked_def)
  from run_booked [OF assms(1) this assms(2)] obtain held s' where
    r: "run_ops alloc release store ops [] s = Inr (held, s')" "good s'" "booked held s'" by blast
  with booked_apart [OF r(2,3)] show ?thesis unfolding booked_def by blast
qed

end

section \<open>The free list\<close>

text \<open>\<open>chain nw p xs\<close>: following the next words from \<open>p\<close> visits \<open>xs\<close> and ends at null.\<close>

fun chain :: "(nat \<Rightarrow> nat) \<Rightarrow> nat \<Rightarrow> nat list \<Rightarrow> bool" where
  "chain nw p [] \<longleftrightarrow> p = 0"
| "chain nw p (x # xs) \<longleftrightarrow> p = x \<and> x \<noteq> 0 \<and> chain nw (nw x) xs"

fun walk :: "nat \<Rightarrow> (nat \<Rightarrow> nat) \<Rightarrow> nat \<Rightarrow> nat list" where
  "walk 0 nw p = []"
| "walk (Suc n) nw p = (if p = 0 then [] else p # walk n nw (nw p))"

definition free_slots :: "cache_allocer \<times> heap \<Rightarrow> nat list" where
  "free_slots s = walk (capacity (fst s)) (next_word (snd s)) (free_list (fst s))"

definition slot_addrs :: "cache_allocer \<Rightarrow> nat list" where
  "slot_addrs a = map (\<lambda>i. cache_mem a + i * elem_size a) [0..<capacity a]"

text \<open>
  What the clients hold: the slots not on the free list, and the blocks that came from
  \<open>malloc\<close>; with each its size.
\<close>

definition pool_owned :: "cache_allocer \<times> heap \<Rightarrow> nat \<Rightarrow> nat option" where
  "pool_owned s p =
     (if p \<in> set (slot_addrs (fst s))
      then (if p \<in> set (free_slots s) then None else Some (elem_size (fst s)))
      else blocks (snd s) p)"

definition malloc_fresh :: "nat \<Rightarrow> nat \<Rightarrow> cache_allocer \<times> heap \<Rightarrow> bool" where
  "malloc_fresh m n s \<longleftrightarrow>
     m \<noteq> 0 \<and> \<not> in_pool (fst s) m \<and> blocks (snd s) m = None \<and>
     (m + n \<le> cache_mem (fst s) \<or> cache_mem (fst s) + capacity (fst s) * elem_size (fst s) \<le> m) \<and>
     (\<forall>q l. blocks (snd s) q = Some l \<longrightarrow> m + n \<le> q \<or> q + l \<le> m)"

definition pool_good :: "cache_allocer \<times> heap \<Rightarrow> bool" where
  "pool_good s \<longleftrightarrow>
     0 < cache_mem (fst s) \<and> 0 < elem_size (fst s) \<and>
     chain (next_word (snd s)) (free_list (fst s)) (free_slots s) \<and>
     distinct (free_slots s) \<and> set (free_slots s) \<subseteq> set (slot_addrs (fst s)) \<and>
     (\<forall>p k. blocks (snd s) p = Some k \<longrightarrow> \<not> in_pool (fst s) p \<and>
        (p + k \<le> cache_mem (fst s) \<or>
         cache_mem (fst s) + capacity (fst s) * elem_size (fst s) \<le> p)) \<and>
     (\<forall>p q k l. blocks (snd s) p = Some k \<longrightarrow> blocks (snd s) q = Some l \<longrightarrow> p \<noteq> q \<longrightarrow>
        p + k \<le> q \<or> q + l \<le> p) \<and>
     blocks (snd s) 0 = None"

lemma chain_walk: "chain nw p xs \<Longrightarrow> length xs \<le> n \<Longrightarrow> walk n nw p = xs"
proof (induction xs arbitrary: n p)
  case Nil
  then show ?case by (cases n) simp_all
next
  case (Cons x xs)
  then show ?case by (cases n) auto
qed

lemma chain_cong: "(\<And>x. x \<in> set xs \<Longrightarrow> nw' x = nw x) \<Longrightarrow> chain nw p xs \<Longrightarrow> chain nw' p xs"
  by (induction xs arbitrary: p) auto

lemma chain_upd: "u \<notin> set xs \<Longrightarrow> chain (nw(u := v)) p xs = chain nw p xs"
  by (induction xs arbitrary: p) auto

lemma slot_addrs_iff:
  "p \<in> set (slot_addrs a) \<longleftrightarrow> (\<exists>i < capacity a. p = cache_mem a + i * elem_size a)"
  by (auto simp: slot_addrs_def)

lemma slot_in_pool: "0 < elem_size a \<Longrightarrow> p \<in> set (slot_addrs a) \<Longrightarrow> in_pool a p"
  by (auto simp: slot_addrs_iff in_pool_def)

lemma slot_end:
  assumes "p \<in> set (slot_addrs a)"
  shows "p + elem_size a \<le> cache_mem a + capacity a * elem_size a"
proof -
  from assms obtain i where i: "i < capacity a" "p = cache_mem a + i * elem_size a"
    by (auto simp: slot_addrs_iff)
  then have "Suc i * elem_size a \<le> capacity a * elem_size a"
    by (intro mult_le_mono1) simp
  with i show ?thesis by simp
qed

lemma slots_disjoint:
  assumes "p \<in> set (slot_addrs a)" "q \<in> set (slot_addrs a)" "p \<noteq> q"
  shows "p + elem_size a \<le> q \<or> q + elem_size a \<le> p"
proof -
  from assms obtain i j where ij: "p = cache_mem a + i * elem_size a"
    "q = cache_mem a + j * elem_size a" "i \<noteq> j" by (auto simp: slot_addrs_iff)
  have "Suc i * elem_size a \<le> j * elem_size a \<or> Suc j * elem_size a \<le> i * elem_size a"
    using ij(3) by (metis Suc_leI linorder_neqE_nat mult_le_mono1)
  with ij show ?thesis by auto
qed

lemma distinct_slots: "0 < elem_size a \<Longrightarrow> distinct (slot_addrs a)"
  by (auto simp: slot_addrs_def distinct_map inj_on_def)

lemma subset_slots_length:
  assumes "distinct xs" "set xs \<subseteq> set (slot_addrs a)"
  shows "length xs \<le> capacity a"
proof -
  have "length xs = card (set xs)" using assms(1) by (simp add: distinct_card)
  also have "\<dots> \<le> card (set (slot_addrs a))" by (rule card_mono) (use assms(2) in auto)
  also have "\<dots> \<le> length (slot_addrs a)" by (rule card_length)
  finally show ?thesis by (simp add: slot_addrs_def)
qed

lemma pool_goodI:
  assumes "0 < cache_mem a" "0 < elem_size a" "chain (next_word h) (free_list a) xs"
    "distinct xs" "set xs \<subseteq> set (slot_addrs a)"
    and "\<And>p k. blocks h p = Some k \<Longrightarrow> \<not> in_pool a p \<and>
        (p + k \<le> cache_mem a \<or> cache_mem a + capacity a * elem_size a \<le> p)"
    and "\<And>p q k l. blocks h p = Some k \<Longrightarrow> blocks h q = Some l \<Longrightarrow> p \<noteq> q \<Longrightarrow>
        p + k \<le> q \<or> q + l \<le> p"
    and "blocks h 0 = None"
  shows "pool_good (a, h) \<and> free_slots (a, h) = xs"
proof -
  have "free_slots (a, h) = xs"
    unfolding free_slots_def using assms(3-5) by (simp add: chain_walk subset_slots_length)
  with assms show ?thesis unfolding pool_good_def by auto
qed

lemma pool_goodD:
  assumes "pool_good (a, h)"
  shows "0 < cache_mem a" "0 < elem_size a"
    "chain (next_word h) (free_list a) (free_slots (a, h))" "distinct (free_slots (a, h))"
    "set (free_slots (a, h)) \<subseteq> set (slot_addrs a)" "blocks h 0 = None"
    and "\<And>p k. blocks h p = Some k \<Longrightarrow> \<not> in_pool a p"
    and "\<And>p k. blocks h p = Some k \<Longrightarrow>
      p + k \<le> cache_mem a \<or> cache_mem a + capacity a * elem_size a \<le> p"
    and "\<And>p q k l. blocks h p = Some k \<Longrightarrow> blocks h q = Some l \<Longrightarrow> p \<noteq> q \<Longrightarrow>
      p + k \<le> q \<or> q + l \<le> p"
  using assms unfolding pool_good_def by auto

section \<open>The pool keeps the interface\<close>

text \<open>The loop of \<open>create_cache_allocer\<close> leaves every slot on the list, last slot first.\<close>

lemma thread_slots_chain:
  assumes "0 < mem" "0 < es" "fold (thread_slot mem es) [0..<n] (0, nw) = (fl, nw')"
  shows "chain nw' fl (rev (map (\<lambda>i. mem + i * es) [0..<n]))"
  using assms(3)
proof (induction n arbitrary: fl nw')
  case 0
  then show ?case by simp
next
  case (Suc n)
  obtain fl1 nw1 where f: "fold (thread_slot mem es) [0..<n] (0, nw) = (fl1, nw1)"
    by (metis surj_pair)
  with Suc.prems have "thread_slot mem es n (fl1, nw1) = (fl, nw')" by simp
  then have fl: "fl = mem + n * es" "nw' = nw1(mem + n * es := fl1)"
    by (auto simp: thread_slot_def Let_def)
  have "mem + n * es \<notin> set (rev (map (\<lambda>i. mem + i * es) [0..<n]))"
    using assms(2) by auto
  with Suc.IH [OF f] have "chain nw' fl1 (rev (map (\<lambda>i. mem + i * es) [0..<n]))"
    unfolding fl(2) by (rule chain_upd [THEN iffD2, rotated])
  moreover have "rev (map (\<lambda>i. mem + i * es) [0..<Suc n]) =
      fl # rev (map (\<lambda>i. mem + i * es) [0..<n])" "nw' fl = fl1" "fl \<noteq> 0"
    using fl assms(1) by simp_all
  ultimately show ?case by (simp only: chain.simps) simp
qed

lemma create_good:
  assumes "0 < mem" "blocks h 0 = None"
    and "\<And>p k. blocks h p = Some k \<Longrightarrow> (p < mem \<and> p + k \<le> mem) \<or> mem + cap * (max esz sizeof_node) \<le> p"
    and "\<And>p q k l. blocks h p = Some k \<Longrightarrow> blocks h q = Some l \<Longrightarrow> p \<noteq> q \<Longrightarrow>
        p + k \<le> q \<or> q + l \<le> p"
  shows "pool_good (create_cache_allocer hdr mem cap esz h)"
    and "free_slots (create_cache_allocer hdr mem cap esz h) =
      rev (slot_addrs (fst (create_cache_allocer hdr mem cap esz h)))"
proof -
  define es where "es = (if esz < sizeof_node then sizeof_node else esz)"
  have es: "0 < es" "es = max esz sizeof_node" by (auto simp: es_def sizeof_node_def)
  define z where "z = (\<lambda>p. if mem \<le> p \<and> p < mem + cap * es then 0 else next_word h p)"
  obtain fl nw where f: "fold (thread_slot mem es) [0..<cap] (0, z) = (fl, nw)"
    by (metis surj_pair)
  define a where "a = \<lparr>cache_mem = mem, capacity = cap, free_list = fl, elem_size = es\<rparr>"
  have c: "create_cache_allocer hdr mem cap esz h = (a, h\<lparr>next_word := nw,
      arenas := (arenas h)(hdr \<mapsto> sizeof_allocer, mem \<mapsto> cap * es)\<rparr>)" (is "_ = (a, ?h)")
    using f by (simp add: create_cache_allocer_def Let_def es_def [symmetric] z_def [symmetric] a_def)
  have ch: "chain nw fl (rev (slot_addrs a))"
    using thread_slots_chain [OF assms(1) es(1) f] by (simp add: slot_addrs_def a_def)
  have "pool_good (a, ?h) \<and> free_slots (a, ?h) = rev (slot_addrs a)"
  proof (rule pool_goodI)
    show "distinct (rev (slot_addrs a))" using es by (simp add: distinct_slots a_def)
    show "\<And>p k. blocks ?h p = Some k \<Longrightarrow> \<not> in_pool a p \<and>
        (p + k \<le> cache_mem a \<or> cache_mem a + capacity a * elem_size a \<le> p)"
      using assms(3) es(2) by (fastforce simp: a_def in_pool_def)
    show "\<And>p q k l. blocks ?h p = Some k \<Longrightarrow>
        blocks ?h q = Some l \<Longrightarrow> p \<noteq> q \<Longrightarrow> p + k \<le> q \<or> q + l \<le> p"
      using assms(4) by simp
  qed (use assms es ch in \<open>simp_all add: a_def\<close>)
  then show "pool_good (create_cache_allocer hdr mem cap esz h)"
    "free_slots (create_cache_allocer hdr mem cap esz h) =
      rev (slot_addrs (fst (create_cache_allocer hdr mem cap esz h)))"
    using c by simp_all
qed

lemma create_fields:
  "cache_mem (fst (create_cache_allocer hdr mem cap esz h)) = mem"
  "capacity (fst (create_cache_allocer hdr mem cap esz h)) = cap"
  "elem_size (fst (create_cache_allocer hdr mem cap esz h)) = max esz sizeof_node"
  "blocks (snd (create_cache_allocer hdr mem cap esz h)) = blocks h"
  by (auto simp: create_cache_allocer_def Let_def split: prod.split)

text \<open>The two ways an allocation goes: the first free slot, or \<open>malloc\<close>.\<close>

lemma cache_alloc_slot:
  assumes "pool_good (a, h)" "n \<le> elem_size a" "free_slots (a, h) = x # xs"
  shows "cache_alloc m n (a, h) = (x, (a\<lparr>free_list := next_word h x\<rparr>, h))"
    and "pool_good (a\<lparr>free_list := next_word h x\<rparr>, h)"
    and "free_slots (a\<lparr>free_list := next_word h x\<rparr>, h) = xs"
proof -
  note g = pool_goodD [OF assms(1)]
  from g(3) assms(3) have x: "free_list a = x" "x \<noteq> 0" "chain (next_word h) (next_word h x) xs"
    by auto
  then show "cache_alloc m n (a, h) = (x, (a\<lparr>free_list := next_word h x\<rparr>, h))"
    using assms(2) by (simp add: cache_alloc_def)
  have "pool_good (a\<lparr>free_list := next_word h x\<rparr>, h) \<and>
    free_slots (a\<lparr>free_list := next_word h x\<rparr>, h) = xs"
    using g assms(3) x
    by (intro pool_goodI) (auto simp: slot_addrs_def in_pool_def)
  then show "pool_good (a\<lparr>free_list := next_word h x\<rparr>, h)"
    "free_slots (a\<lparr>free_list := next_word h x\<rparr>, h) = xs" by simp_all
qed

lemma cache_alloc_malloc:
  assumes "pool_good (a, h)" "malloc_fresh m n (a, h)"
    and "elem_size a < n \<or> free_slots (a, h) = []"
  shows "cache_alloc m n (a, h) = (m, (a, h\<lparr>blocks := (blocks h)(m \<mapsto> n)\<rparr>))"
    and "pool_good (a, h\<lparr>blocks := (blocks h)(m \<mapsto> n)\<rparr>)"
proof -
  note g = pool_goodD [OF assms(1)]
  have m: "m \<noteq> 0" using assms(2) by (simp add: malloc_fresh_def)
  show "cache_alloc m n (a, h) = (m, (a, h\<lparr>blocks := (blocks h)(m \<mapsto> n)\<rparr>))"
    using assms(3) g(3) m by (auto simp: cache_alloc_def c_malloc_def)
  have "pool_good (a, h\<lparr>blocks := (blocks h)(m \<mapsto> n)\<rparr>) \<and>
    free_slots (a, h\<lparr>blocks := (blocks h)(m \<mapsto> n)\<rparr>) = free_slots (a, h)"
  proof (rule pool_goodI)
    show "\<And>p k. blocks (h\<lparr>blocks := (blocks h)(m \<mapsto> n)\<rparr>) p = Some k \<Longrightarrow> \<not> in_pool a p \<and>
        (p + k \<le> cache_mem a \<or> cache_mem a + capacity a * elem_size a \<le> p)"
      using assms(2) g(7,8) by (auto simp: malloc_fresh_def split: if_splits)
    show "\<And>p q k l. blocks (h\<lparr>blocks := (blocks h)(m \<mapsto> n)\<rparr>) p = Some k \<Longrightarrow>
        blocks (h\<lparr>blocks := (blocks h)(m \<mapsto> n)\<rparr>) q = Some l \<Longrightarrow> p \<noteq> q \<Longrightarrow>
        p + k \<le> q \<or> q + l \<le> p"
      using assms(2) g(9) by (auto simp: malloc_fresh_def split: if_splits)
  qed (use g m in simp_all)
  then show "pool_good (a, h\<lparr>blocks := (blocks h)(m \<mapsto> n)\<rparr>)" by simp
qed

text \<open>The two ways a release goes.\<close>

lemma cache_free_slot:
  assumes "pool_good (a, h)" "p \<in> set (slot_addrs a)" "p \<notin> set (free_slots (a, h))"
  shows "cache_free p (a, h) =
      Inr (a\<lparr>free_list := p\<rparr>, h\<lparr>next_word := (next_word h)(p := free_list a)\<rparr>)"
    and "pool_good (a\<lparr>free_list := p\<rparr>, h\<lparr>next_word := (next_word h)(p := free_list a)\<rparr>)"
    and "free_slots (a\<lparr>free_list := p\<rparr>, h\<lparr>next_word := (next_word h)(p := free_list a)\<rparr>) =
      p # free_slots (a, h)"
proof -
  note g = pool_goodD [OF assms(1)]
  have ip: "in_pool a p" using g(2) assms(2) by (rule slot_in_pool)
  then show "cache_free p (a, h) =
      Inr (a\<lparr>free_list := p\<rparr>, h\<lparr>next_word := (next_word h)(p := free_list a)\<rparr>)"
    by (simp add: cache_free_def)
  have "p \<noteq> 0" using ip g(1) by (simp add: in_pool_def)
  then have "pool_good (a\<lparr>free_list := p\<rparr>, h\<lparr>next_word := (next_word h)(p := free_list a)\<rparr>) \<and>
    free_slots (a\<lparr>free_list := p\<rparr>, h\<lparr>next_word := (next_word h)(p := free_list a)\<rparr>) =
      p # free_slots (a, h)"
    using g assms(2,3)
    by (intro pool_goodI) (auto simp: slot_addrs_def in_pool_def chain_upd)
  then show "pool_good (a\<lparr>free_list := p\<rparr>, h\<lparr>next_word := (next_word h)(p := free_list a)\<rparr>)"
    "free_slots (a\<lparr>free_list := p\<rparr>, h\<lparr>next_word := (next_word h)(p := free_list a)\<rparr>) =
      p # free_slots (a, h)" by simp_all
qed

lemma cache_free_block:
  assumes "pool_good (a, h)" "blocks h p = Some k"
  shows "cache_free p (a, h) = Inr (a, h\<lparr>blocks := (blocks h)(p := None)\<rparr>)"
    and "pool_good (a, h\<lparr>blocks := (blocks h)(p := None)\<rparr>)"
proof -
  note g = pool_goodD [OF assms(1)]
  have "p \<noteq> 0" using g(6) assms(2) by (cases p) auto
  with g(7) [OF assms(2)] assms(2)
  show "cache_free p (a, h) = Inr (a, h\<lparr>blocks := (blocks h)(p := None)\<rparr>)"
    by (simp add: cache_free_def c_free_def)
  have "pool_good (a, h\<lparr>blocks := (blocks h)(p := None)\<rparr>) \<and>
    free_slots (a, h\<lparr>blocks := (blocks h)(p := None)\<rparr>) = free_slots (a, h)"
  proof (rule pool_goodI)
    show "\<And>pa q k l. blocks (h\<lparr>blocks := (blocks h)(p := None)\<rparr>) pa = Some k \<Longrightarrow>
        blocks (h\<lparr>blocks := (blocks h)(p := None)\<rparr>) q = Some l \<Longrightarrow> pa \<noteq> q \<Longrightarrow>
        pa + k \<le> q \<or> q + l \<le> pa"
      using g(9) by (auto split: if_splits)
  qed (use g in \<open>auto split: if_splits\<close>)
  then show "pool_good (a, h\<lparr>blocks := (blocks h)(p := None)\<rparr>)" by simp
qed

lemma pool_owned_cases:
  assumes "pool_good (a, h)" "pool_owned (a, h) p = Some k"
  obtains (slot) "p \<in> set (slot_addrs a)" "p \<notin> set (free_slots (a, h))" "k = elem_size a"
    | (block) "p \<notin> set (slot_addrs a)" "blocks h p = Some k"
  using assms(2) by (auto simp: pool_owned_def split: if_splits)

lemma block_not_slot: "pool_good (a, h) \<Longrightarrow> blocks h p = Some k \<Longrightarrow> p \<notin> set (slot_addrs a)"
  using pool_goodD(2,7) slot_in_pool by blast

lemma slot_addrs_free_list [simp]: "slot_addrs (a\<lparr>free_list := x\<rparr>) = slot_addrs a"
  by (simp add: slot_addrs_def)

lemma free_slots_blocks [simp]: "free_slots (a, h\<lparr>blocks := b\<rparr>) = free_slots (a, h)"
  by (simp add: free_slots_def)

lemma cache_alloc_cases:
  assumes "pool_good (a, h)"
  obtains (slot) x xs where "n \<le> elem_size a" "free_slots (a, h) = x # xs"
    | (malloc) "elem_size a < n \<or> free_slots (a, h) = []"
  by (meson linorder_not_le list.exhaust)

lemma pool_owned_alloc_slot:
  assumes "pool_good (a, h)" "free_slots (a, h) = x # xs"
  shows "pool_owned (a\<lparr>free_list := next_word h x\<rparr>, h) = (pool_owned (a, h))(x \<mapsto> elem_size a)"
proof -
  note g = pool_goodD [OF assms(1)]
  have fs: "free_slots (a\<lparr>free_list := next_word h x\<rparr>, h) = xs"
    by (rule cache_alloc_slot(3) [OF assms(1) order_refl assms(2)])
  have "x \<in> set (slot_addrs a)" "x \<notin> set xs" using g(4,5) assms(2) by auto
  with fs assms(2) show ?thesis by (auto simp: pool_owned_def fun_eq_iff)
qed

lemma pool_owned_alloc_malloc:
  assumes "pool_good (a, h)" "malloc_fresh m n (a, h)"
  shows "pool_owned (a, h\<lparr>blocks := (blocks h)(m \<mapsto> n)\<rparr>) = (pool_owned (a, h))(m \<mapsto> n)"
proof -
  have "m \<notin> set (slot_addrs a)"
    using assms slot_in_pool [OF pool_goodD(2) [OF assms(1)]] by (auto simp: malloc_fresh_def)
  then show ?thesis by (auto simp: pool_owned_def fun_eq_iff)
qed

lemma pool_release:
  assumes "pool_good s" "pool_owned s p = Some k"
  shows "\<exists>s'. cache_free p s = Inr s' \<and> pool_good s' \<and> pool_owned s' = (pool_owned s)(p := None)"
proof (cases s)
  case (Pair a h)
  with assms have g: "pool_good (a, h)" and o: "pool_owned (a, h) p = Some k" by simp_all
  from g o show ?thesis
  proof (cases rule: pool_owned_cases)
    case slot
    note c = cache_free_slot [OF g slot(1,2)]
    have "pool_owned (a\<lparr>free_list := p\<rparr>, h\<lparr>next_word := (next_word h)(p := free_list a)\<rparr>) =
        (pool_owned (a, h))(p := None)"
      using slot c(3) by (auto simp: pool_owned_def fun_eq_iff)
    with c Pair show ?thesis by blast
  next
    case block
    note c = cache_free_block [OF g block(2)]
    have "pool_owned (a, h\<lparr>blocks := (blocks h)(p := None)\<rparr>) = (pool_owned (a, h))(p := None)"
      using block(1) by (auto simp: pool_owned_def fun_eq_iff)
    with c Pair show ?thesis by blast
  qed
qed

lemma pool_alloc:
  assumes "pool_good s" "malloc_fresh m n s"
  shows "pool_good (snd (cache_alloc m n s)) \<and> pool_owned s (fst (cache_alloc m n s)) = None \<and>
    (\<exists>k \<ge> n. pool_owned (snd (cache_alloc m n s)) = (pool_owned s)(fst (cache_alloc m n s) \<mapsto> k))"
proof (cases s)
  case (Pair a h)
  with assms have g: "pool_good (a, h)" and f: "malloc_fresh m n (a, h)" by simp_all
  from g show ?thesis
  proof (cases rule: cache_alloc_cases [where n = n])
    case (slot x xs)
    have "pool_owned (a, h) x = None"
      using pool_goodD(5) [OF g] slot(2) by (simp add: pool_owned_def)
    with cache_alloc_slot [OF g slot] pool_owned_alloc_slot [OF g slot(2)] slot Pair
    show ?thesis by auto
  next
    case malloc
    have "pool_owned (a, h) m = None"
      using f slot_in_pool [OF pool_goodD(2) [OF g]]
      by (auto simp: pool_owned_def malloc_fresh_def)
    with cache_alloc_malloc [OF g f malloc] pool_owned_alloc_malloc [OF g f] Pair
    show ?thesis by auto
  qed
qed

lemma pool_disjoint:
  assumes "pool_good s" "pool_owned s p = Some k" "pool_owned s q = Some l" "p \<noteq> q"
  shows "p + k \<le> q \<or> q + l \<le> p"
proof (cases s)
  case (Pair a h)
  with assms have g: "pool_good (a, h)" by simp
  note gd = pool_goodD [OF g]
  have side: "x + elem_size a \<le> y \<or> y + j \<le> x"
    if "x \<in> set (slot_addrs a)" "blocks h y = Some j" for x y j
    using gd(8) [OF that(2)] slot_end [OF that(1)] slot_in_pool [OF gd(2) that(1)]
    by (auto simp: in_pool_def)
  show ?thesis
    using assms(2-4) Pair slots_disjoint [of p a q] side [of p q l] side [of q p k] gd(9) [of p k q l]
    by (auto simp: pool_owned_def split: if_splits)
qed

text \<open>What the client writes into its blocks does not reach the free list.\<close>

definition client_store :: "nat \<Rightarrow> nat \<Rightarrow> cache_allocer \<times> heap \<Rightarrow> cache_allocer \<times> heap" where
  "client_store x v s = (fst s, (snd s)\<lparr>next_word := (next_word (snd s))(x := v)\<rparr>)"

lemma owned_not_free:
  assumes "pool_good (a, h)" "pool_owned (a, h) p = Some k" "p \<le> x" "x < p + k"
  shows "x \<notin> set (free_slots (a, h))"
proof
  assume x: "x \<in> set (free_slots (a, h))"
  note g = pool_goodD [OF assms(1)]
  from g(5) x have s: "x \<in> set (slot_addrs a)" by blast
  from assms(1,2) show False
  proof (cases rule: pool_owned_cases)
    case slot
    from slot x have "p \<noteq> x" by blast
    with slots_disjoint [OF slot(1) s] slot(3) assms(3,4) g(2) show False by auto
  next
    case block
    from g(8) [OF block(2)] slot_end [OF s] slot_in_pool [OF g(2) s] assms(3,4) g(2) show False
      by (auto simp: in_pool_def)
  qed
qed

lemma pool_store:
  assumes "pool_good s" "pool_owned s p = Some k" "p \<le> x" "x < p + k"
  shows "pool_good (client_store x v s) \<and> pool_owned (client_store x v s) = pool_owned s"
proof (cases s)
  case (Pair a h)
  with assms have g: "pool_good (a, h)" and x: "x \<notin> set (free_slots (a, h))"
    using owned_not_free by auto
  note gd = pool_goodD [OF g]
  let ?h = "h\<lparr>next_word := (next_word h)(x := v)\<rparr>"
  have "pool_good (a, ?h) \<and> free_slots (a, ?h) = free_slots (a, h)"
    by (rule pool_goodI) (use gd x in \<open>auto simp: chain_upd\<close>)
  then show ?thesis by (simp add: Pair client_store_def pool_owned_def fun_eq_iff)
qed

interpretation pool: block_allocator cache_alloc cache_free client_store pool_owned malloc_fresh pool_good
proof unfold_locales
  fix s m n p
  assume "pool_good s" "malloc_fresh m n s"
  note c = pool_alloc [OF this]
  show "pool_good (snd (cache_alloc m n s))" "pool_owned s (fst (cache_alloc m n s)) = None"
    "\<exists>k \<ge> n. pool_owned (snd (cache_alloc m n s)) = (pool_owned s)(fst (cache_alloc m n s) \<mapsto> k)"
    using c by simp_all
qed (use pool_release pool_disjoint pool_store in auto)

section \<open>Properties\<close>

text \<open>
  A small pool: three slots of 16 bytes at address 4096, created on an empty heap; and an
  address far above it for \<open>malloc\<close> to return.
\<close>

definition empty_heap :: heap where
  "empty_heap = \<lparr>next_word = (\<lambda>_. 0), blocks = Map.empty, arenas = Map.empty\<rparr>"

definition demo_pool :: "cache_allocer \<times> heap" where
  "demo_pool = create_cache_allocer 1024 4096 3 16 empty_heap"

lemma demo_pool_good: "pool_good demo_pool"
  unfolding demo_pool_def by (rule create_good(1)) (auto simp: empty_heap_def)

lemma demo_pool_eq:
  "demo_pool = (\<lparr>cache_mem = 4096, capacity = 3, free_list = 4128, elem_size = 16\<rparr>,
     \<lparr>next_word = (\<lambda>_. 0)(4112 := 4096, 4128 := 4112), blocks = Map.empty,
       arenas = Map.empty(1024 \<mapsto> 16, 4096 \<mapsto> 48)\<rparr>)"
  by (auto simp: demo_pool_def create_cache_allocer_def empty_heap_def sizeof_node_def
      sizeof_allocer_def thread_slot_def Let_def upt_rec fun_eq_iff)

lemma demo_pool_lists:
  "slot_addrs (fst demo_pool) = [4096, 4112, 4128]" "elem_size (fst demo_pool) = 16"
  "free_slots demo_pool = [4128, 4112, 4096]"
  by (simp_all add: demo_pool_eq slot_addrs_def free_slots_def upt_rec numeral_3_eq_3)

text \<open>
  C4: a client interleaves requests of any size, writes and releases as it likes; it writes what
  it likes, but only into blocks that it was given and has not released, and releases only those.
  Then the pool answers every request without undefined behaviour, no release fails, no two of
  the blocks that the client holds overlap (none is given out twice), and each has at least the
  size that was asked for.
\<close>

theorem pool_clients_never_overlap:
  assumes "pool_good s"
    and "legal_ops cache_alloc cache_free client_store malloc_fresh ops [] s"
  shows "\<exists>held s'. run_ops cache_alloc cache_free client_store ops [] s = Inr (held, s') \<and>
    pool_good s' \<and> apart held \<and> (\<forall>(p, n) \<in> set held. \<exists>k \<ge> n. pool_owned s' p = Some k)"
  by (rule pool.clients_never_overlap [OF assms])

theorem pool_clients_never_overlap_witness:
  "\<exists>held s'. run_ops cache_alloc cache_free client_store
      [Alloc 9000 10, Alloc 9000 100, Store 4130 77, Release 4128, Alloc 9200 16] [] demo_pool
      = Inr (held, s') \<and> apart held"
proof -
  have "legal_ops cache_alloc cache_free client_store malloc_fresh
      [Alloc 9000 10, Alloc 9000 100, Store 4130 77, Release 4128, Alloc 9200 16] [] demo_pool"
    by (simp add: demo_pool_eq cache_alloc_def c_malloc_def malloc_fresh_def in_pool_def
        client_store_def cache_free_def Let_def)
  from pool_clients_never_overlap [OF demo_pool_good this] show ?thesis by blast
qed

text \<open>
  Which memory a request gets: a request that fits takes the head of the free list as long
  as there is one and shortens the list by it; a request that does not fit, or finds the list
  empty, goes to \<open>malloc\<close> and leaves the list alone.
\<close>

lemma pool_alloc_source:
  assumes "pool_good (a, h)" and "malloc_fresh m n (a, h)"
  shows "(if n \<le> elem_size a \<and> free_slots (a, h) \<noteq> []
    then fst (cache_alloc m n (a, h)) = hd (free_slots (a, h)) \<and>
         free_slots (snd (cache_alloc m n (a, h))) = tl (free_slots (a, h))
    else fst (cache_alloc m n (a, h)) = m \<and>
         free_slots (snd (cache_alloc m n (a, h))) = free_slots (a, h))"
  using assms(1)
proof (cases rule: cache_alloc_cases [where n = n])
  case (slot x xs)
  with cache_alloc_slot [OF assms(1) slot] show ?thesis by simp
next
  case malloc
  with cache_alloc_malloc [OF assms malloc] show ?thesis by auto
qed

text \<open>
  \<open>cache_free\<close> has no protection against freeing a slot twice. After the second free
  the slot's next word points to itself, and every later allocation that fits returns that same
  slot, without end.
\<close>

theorem pool_double_free_aliases:
  assumes "pool_good (a, h)" and "p \<in> set (slot_addrs a)" and "p \<notin> set (free_slots (a, h))"
    and "n \<le> elem_size a"
  shows "\<exists>s1 s2. cache_free p (a, h) = Inr s1 \<and> cache_free p s1 = Inr s2 \<and>
    (\<forall>m. cache_alloc m n s2 = (p, s2))"
proof -
  have ip: "in_pool a p" using slot_in_pool pool_goodD(2) assms(1,2) by blast
  then have "p \<noteq> 0" using pool_goodD(1) [OF assms(1)] by (simp add: in_pool_def)
  with ip assms(4) show ?thesis
    by (auto simp: cache_free_def cache_alloc_def in_pool_def)
qed

theorem pool_double_free_aliases_witness:
  "\<exists>s s1 s2. snd (cache_alloc 0 16 demo_pool) = s \<and> cache_free 4128 s = Inr s1 \<and>
     cache_free 4128 s1 = Inr s2 \<and> cache_alloc 7 16 s2 = (4128, s2)"
proof -
  obtain a h where d: "demo_pool = (a, h)" by (cases demo_pool)
  have e: "elem_size a = 16" "free_slots (a, h) = 4128 # [4112, 4096]"
    "4128 \<in> set (slot_addrs a)"
    using demo_pool_lists by (simp_all add: d)
  note g = demo_pool_good [unfolded d]
  have n: "16 \<le> elem_size a" using e(1) by simp
  note c = cache_alloc_slot [OF g n e(2)]
  from pool_double_free_aliases [OF c(2), of 4128 16] c(1,3) e d show ?thesis by auto
qed

text \<open>
  the small-block pool. Whether or not the global pool exists yet, a block got from
  \<open>small_alloc\<close> can be given back with \<open>small_free\<close>, and then the clients hold exactly
  what they held before.
\<close>

theorem small_alloc_free_roundtrip:
  assumes "pool_good (small_pool m0 s)" and "malloc_fresh m n (small_pool m0 s)"
  shows "\<exists>a h. small_free m0 (fst (small_alloc m0 m n s)) (snd (small_alloc m0 m n s)) =
      Inr (Some a, h) \<and> pool_owned (a, h) = pool_owned (small_pool m0 s)"
proof -
  obtain p a h where c: "cache_alloc m n (small_pool m0 s) = (p, (a, h))"
    by (metis surj_pair)
  from pool.alloc_release_inverse [OF assms] c obtain a' h' where
    "cache_free p (a, h) = Inr (a', h')" "pool_owned (a', h') = pool_owned (small_pool m0 s)"
    by auto
  with c show ?thesis by (simp add: small_alloc_def small_free_def small_pool_def)
qed

theorem small_alloc_free_roundtrip_witness:
  "\<exists>a h. small_free (1024, 4096) (fst (small_alloc (1024, 4096) 9000000 200 (None, empty_heap)))
      (snd (small_alloc (1024, 4096) 9000000 200 (None, empty_heap))) = Inr (Some a, h)"
proof -
  have g: "pool_good (small_pool (1024, 4096) (None, empty_heap))"
    unfolding small_pool_def fst_conv snd_conv option.case
    by (rule create_good(1)) (auto simp: empty_heap_def)
  have "malloc_fresh 9000000 200 (small_pool (1024, 4096) (None, empty_heap))"
    unfolding malloc_fresh_def in_pool_def small_pool_def fst_conv snd_conv option.case create_fields
    by (simp add: SMALL_ELEM_NUM_def SMALL_ELEM_SIZE_def sizeof_node_def empty_heap_def)
  from small_alloc_free_roundtrip [OF g this] show ?thesis by blast
qed

end
