(* ===== verification/Cache_Race.thy ===== *)
theory Cache_Race
  imports Cache_Alloc
begin

text \<open>
  The pool under two threads. The clients of the databases call \<open>small_alloc\<close> in functions that
  run on the workers of libuv's thread pool (\<open>connect_work\<close> and \<open>query_work\<close> of
  \<open>database/redis_wrapper.cc\<close> and \<open>mysql_wrapper.cc\<close>), while the thread of the loop uses the
  same pool. \<open>cache_alloc\<close> of \<open>utils/catch_alloc.c\<close> takes no lock; here it runs one access of
  the shared memory at a time.
\<close>

section \<open>One access at a time\<close>

text \<open>A position holds the locals that are still needed; \<open>A_Done p\<close> is the return of \<open>p\<close>.\<close>

datatype alloc_pos =
    A_Begin
  | A_Test                \<comment> \<open>the size fits: \<open>free_list != NULL\<close>\<close>
  | A_Take                \<comment> \<open>\<open>now = free_list\<close>\<close>
  | A_Next nat            \<comment> \<open>read \<open>free_list->next\<close>\<close>
  | A_Store nat nat       \<comment> \<open>write \<open>free_list\<close>\<close>
  | A_Done nat

text \<open>\<open>m\<close> is what \<open>malloc\<close> answers; \<open>malloc\<close> itself is safe for threads.\<close>

fun cache_alloc_step ::
  "nat \<Rightarrow> nat \<Rightarrow> alloc_pos \<Rightarrow> cache_allocer \<times> heap \<Rightarrow> alloc_pos \<times> (cache_allocer \<times> heap)" where
  "cache_alloc_step m esz A_Begin (a, h) =
     (if elem_size a < esz then (let (p, h') = c_malloc m esz h in (A_Done p, (a, h')))
      else (A_Test, (a, h)))"
| "cache_alloc_step m esz A_Test (a, h) =
     (if free_list a \<noteq> 0 then (A_Take, (a, h))
      else (let (p, h') = c_malloc m esz h in (A_Done p, (a, h'))))"
| "cache_alloc_step m esz A_Take (a, h) = (A_Next (free_list a), (a, h))"
| "cache_alloc_step m esz (A_Next now) (a, h) = (A_Store now (next_word h (free_list a)), (a, h))"
| "cache_alloc_step m esz (A_Store now nxt) (a, h) = (A_Done now, (a\<lparr>free_list := nxt\<rparr>, h))"
| "cache_alloc_step m esz (A_Done p) s = (A_Done p, s)"

text \<open>
  Two threads that each call \<open>cache_alloc\<close> once; the schedule says whose turn it is (\<open>True\<close>
  is the first thread's).
\<close>

fun turn ::
  "nat \<times> nat \<Rightarrow> nat \<times> nat \<Rightarrow> bool \<Rightarrow> alloc_pos \<times> alloc_pos \<times> (cache_allocer \<times> heap)
     \<Rightarrow> alloc_pos \<times> alloc_pos \<times> (cache_allocer \<times> heap)" where
  "turn r1 r2 True (p1, p2, s) =
     (let (p1', s') = cache_alloc_step (fst r1) (snd r1) p1 s in (p1', p2, s'))"
| "turn r1 r2 False (p1, p2, s) =
     (let (p2', s') = cache_alloc_step (fst r2) (snd r2) p2 s in (p1, p2', s'))"

definition two_threads ::
  "nat \<times> nat \<Rightarrow> nat \<times> nat \<Rightarrow> bool list \<Rightarrow> alloc_pos \<times> alloc_pos \<times> (cache_allocer \<times> heap)
     \<Rightarrow> alloc_pos \<times> alloc_pos \<times> (cache_allocer \<times> heap)" where
  "two_threads r1 r2 ts c = fold (turn r1 r2) ts c"

lemma two_threads_simps [simp]:
  "two_threads r1 r2 [] c = c"
  "two_threads r1 r2 (t # ts) c = two_threads r1 r2 ts (turn r1 r2 t c)"
  "two_threads r1 r2 (ts @ us) c = two_threads r1 r2 us (two_threads r1 r2 ts c)"
  by (simp_all add: two_threads_def)

text \<open>A call that is not interrupted takes at most five accesses and is \<open>cache_alloc\<close>.\<close>

lemma alone_first:
  "two_threads r1 r2 (replicate 5 True) (A_Begin, p2, s) =
     (A_Done (fst (cache_alloc (fst r1) (snd r1) s)), p2, snd (cache_alloc (fst r1) (snd r1) s))"
  by (cases s; cases r1) (auto simp: eval_nat_numeral cache_alloc_def Let_def case_prod_unfold)

lemma alone_second:
  "two_threads r1 r2 (replicate 5 False) (p1, A_Begin, s) =
     (p1, A_Done (fst (cache_alloc (fst r2) (snd r2) s)), snd (cache_alloc (fst r2) (snd r2) s))"
  by (cases s; cases r2) (auto simp: eval_nat_numeral cache_alloc_def Let_def case_prod_unfold)

text \<open>
  C31: the pool is not safe for two threads. When the calls of two threads run one after the
  other, each is \<open>cache_alloc\<close>; but whatever the pool, as long as it has a free slot and both
  requests fit, the calls can also interleave so that both threads are given the same slot.
\<close>

theorem racing_allocations_share_a_block:
  assumes "esz1 \<le> elem_size a" "esz2 \<le> elem_size a" "free_list a \<noteq> 0"
  shows "(let (p1, s1) = cache_alloc m1 esz1 (a, h); (p2, s2) = cache_alloc m2 esz2 s1 in
            two_threads (m1, esz1) (m2, esz2) (replicate 5 True @ replicate 5 False) (A_Begin, A_Begin, (a, h))
              = (A_Done p1, A_Done p2, s2)) \<and>
         (\<exists>ts s. two_threads (m1, esz1) (m2, esz2) ts (A_Begin, A_Begin, (a, h))
              = (A_Done (free_list a), A_Done (free_list a), s))"
proof
  show "let (p1, s1) = cache_alloc m1 esz1 (a, h); (p2, s2) = cache_alloc m2 esz2 s1 in
      two_threads (m1, esz1) (m2, esz2) (replicate 5 True @ replicate 5 False) (A_Begin, A_Begin, (a, h))
        = (A_Done p1, A_Done p2, s2)"
    by (simp add: alone_first alone_second case_prod_unfold Let_def del: replicate.simps)
  have "two_threads (m1, esz1) (m2, esz2) [True, False, True, False, True, False, True, False, True, False]
      (A_Begin, A_Begin, (a, h)) = (A_Done (free_list a), A_Done (free_list a), (a\<lparr>free_list := next_word h (free_list a)\<rparr>, h))"
    using assms by (simp add: not_less Let_def)
  then show "\<exists>ts s. two_threads (m1, esz1) (m2, esz2) ts (A_Begin, A_Begin, (a, h))
      = (A_Done (free_list a), A_Done (free_list a), s)" by blast
qed

lemma racing_allocations_share_a_block_witness:
  "\<exists>a h ts s. create_cache_allocer 8 100 2 16 \<lparr>next_word = (\<lambda>_. 0), blocks = Map.empty, arenas = Map.empty\<rparr> = (a, h) \<and>
     two_threads (500, 16) (600, 10) ts (A_Begin, A_Begin, (a, h)) = (A_Done 116, A_Done 116, s)"
proof -
  obtain a h where ah:
    "create_cache_allocer 8 100 2 16 \<lparr>next_word = (\<lambda>_. 0), blocks = Map.empty, arenas = Map.empty\<rparr> = (a, h)"
    by (metis surj_pair)
  moreover from this have "elem_size a = 16" "free_list a = 116"
    by (auto simp: create_cache_allocer_def sizeof_node_def thread_slot_def Let_def eval_nat_numeral)
  ultimately show ?thesis
    using racing_allocations_share_a_block [of 16 a 10 500 h 600] by auto
qed

end
