(* ===== verification/Tp_Protocol.thy ===== *)
theory Tp_Protocol
  imports Hyxd_Base
begin

text \<open>
  The TCP packet format of \<open>netbus/tp_protocol.cc\<close>: a two-byte little-endian size, which
  counts itself, and the body. \<open>tp_read_header\<close> is the reader used by the receive loop,
  \<open>tp_package\<close> the writer used by \<open>send_data\<close>.
\<close>

section \<open>Encoders and decoders\<close>

text \<open>The interface the wire formats share: decoding an encoded value gives it back.\<close>

locale codec =
  fixes encode :: "'a \<Rightarrow> byte list"
    and decode :: "byte list \<Rightarrow> 'a option"
    and encodable :: "'a \<Rightarrow> bool"
  assumes decode_encode: "encodable x \<Longrightarrow> decode (encode x) = Some x"
begin

lemma encode_inj: "encodable x \<Longrightarrow> encodable y \<Longrightarrow> encode x = encode y \<Longrightarrow> x = y"
  by (metis decode_encode option.inject)

lemma encode_inj_on: "inj_on encode {x. encodable x}"
  by (auto simp: inj_on_def intro: encode_inj)

end

section \<open>Packets\<close>

definition tp_read_header :: "byte list \<Rightarrow> int \<Rightarrow> (int \<times> int) option" where
  "tp_read_header data data_len =
     (if data_len < 2 then None
      else Some (sint (le16 (data ! 0) (data ! 1)), 2))"

text \<open>The packet and its length; the length is cut to 16 bits when it is written.\<close>

definition tp_package :: "byte list \<Rightarrow> byte list \<times> int" where
  "tp_package raw =
     (let head_size = 2;
          pkg_len = head_size + int (length raw);
          w = word_of_int pkg_len :: u32
      in ([ucast (w AND 0x000000ff), ucast (drop_bit 8 (w AND 0x0000ff00))] @ raw, pkg_len))"

text \<open>What the receive loop takes out of one packet: the bytes after the header.\<close>

definition tp_unpackage :: "byte list \<Rightarrow> byte list option" where
  "tp_unpackage data =
     (case tp_read_header data (int (length data)) of
        None \<Rightarrow> None
      | Some (pkg_size, head_size) \<Rightarrow>
          if int (length data) < pkg_size then None
          else Some (slice (nat head_size) (nat (pkg_size - head_size)) data))"

text \<open>The size field a packet of \<open>n\<close> bytes carries: its low 16 bits.\<close>

lemma tp_package_eq:
  "tp_package raw = (u16_bytes (word_of_nat (length raw + 2)) @ raw, int (length raw + 2))"
  by (simp add: tp_package_def u16_bytes_def Let_def le_simps)

lemma tp_package_header:
  "tp_read_header (fst (tp_package raw)) (int (length (fst (tp_package raw)))) =
     Some (int ((length raw + 2) mod 65536), 2)"
proof -
  have "unat (word_of_nat (length raw + 2) :: u32) = (length raw + 2) mod 2 ^ 32"
    by (simp only: unsigned_of_nat take_bit_eq_mod) simp
  then have "unat (word_of_nat (length raw + 2) :: u32) mod 65536 = (length raw + 2) mod 65536"
    by (simp add: mod_mod_cancel)
  then show ?thesis
    by (simp add: tp_read_header_def tp_package_eq u16_bytes_def le16_split sint_take_bit_16
        del: of_nat_add)
qed

lemma tp_package_length: "length (fst (tp_package raw)) = length raw + 2"
  by (simp add: tp_package_def Let_def)

lemma tp_package_body: "drop 2 (fst (tp_package raw)) = raw"
  by (simp add: tp_package_def Let_def)

interpretation tp: codec "\<lambda>raw. fst (tp_package raw)" tp_unpackage "\<lambda>raw. length raw + 2 < 65536"
proof unfold_locales
  fix raw :: "byte list"
  assume "length raw + 2 < 65536"
  with tp_package_header [of raw] show "tp_unpackage (fst (tp_package raw)) = Some raw"
    by (simp add: tp_unpackage_def tp_package_length slice_def tp_package_body)
qed

section \<open>Properties\<close>

text \<open>
  C23: a body that fits the 16-bit size field is packaged in two bytes more than it has, and the
  packet decodes to exactly that body; no two such bodies have the same packet.
\<close>

theorem tp_package_roundtrip:
  assumes "length raw + 2 < 65536"
  shows "tp_unpackage (fst (tp_package raw)) = Some raw \<and>
    snd (tp_package raw) = int (length (fst (tp_package raw))) \<and>
    (\<forall>raw'. length raw' + 2 < 65536 \<and> fst (tp_package raw') = fst (tp_package raw) \<longrightarrow> raw' = raw)"
  using tp.decode_encode [OF assms] tp.encode_inj [OF _ assms]
  by (auto simp: tp_package_def Let_def)

theorem tp_package_roundtrip_witness:
  "tp_unpackage (fst (tp_package [1, 0, 2, 0])) = Some [1, 0, 2, 0] \<and>
   fst (tp_package [1, 0, 2, 0]) = [6, 0, 1, 0, 2, 0]"
  using tp_package_roundtrip [of "[1, 0, 2, 0]"]
  by (simp add: tp_package_eq u16_bytes_def drop_bit_eq_div)

text \<open>
  \<open>tp_protocol::package\<close> accepts a longer body without complaint, but the size it
  writes has lost its high bits: the receiver sees a packet shorter than the one sent by a
  multiple of 65536 bytes, and takes the rest of the body for the next header.
\<close>

theorem tp_package_truncates_size:
  assumes "65536 \<le> length raw + 2"
  shows "\<exists>n. tp_read_header (fst (tp_package raw)) (snd (tp_package raw)) = Some (n, 2) \<and>
    n + 65536 \<le> int (length (fst (tp_package raw))) \<and>
    (int (length (fst (tp_package raw))) - n) mod 65536 = 0"
proof -
  have "(length raw + 2) mod 65536 + 65536 \<le> length raw + 2"
    using assms mod_less_divisor [of 65536 "length raw + 2"]
    by (metis add.commute le_add_diff_inverse le_mod_geq mod_less_eq_dividend nat_add_left_cancel_le)
  moreover have "(int (length raw + 2) - int ((length raw + 2) mod 65536)) mod 65536 = 0"
    by (simp add: mod_diff_right_eq zmod_int)
  ultimately show ?thesis
    using tp_package_header [of raw]
    by (auto simp: tp_package_length tp_package_def Let_def)
qed

theorem tp_package_truncates_size_witness:
  "\<exists>n. tp_read_header (fst (tp_package (replicate 65534 7)))
      (snd (tp_package (replicate 65534 7))) = Some (n, 2) \<and> n + 65536 \<le> 65536"
proof -
  have "65536 \<le> length (replicate 65534 (7 :: byte)) + 2" by (simp only: length_replicate)
  from tp_package_truncates_size [OF this] show ?thesis
    by (simp only: tp_package_length length_replicate) auto
qed

end
