(* ===== verification/Proto_Man.thy ===== *)
theory Proto_Man
  imports Tp_Protocol
begin

text \<open>
  Commands, \<open>netbus/proto_man.cc\<close>: an 8-byte header (service type, command type, user tag,
  all little-endian) and a body that is either a JSON text or a protobuf message. The protobuf
  library is a parameter (\<open>protobuf\<close>): what the code calls of it, as functions.

  The block an encoder writes into comes from the buffer pool; it is an argument, with the bytes
  it happened to hold, so that what the encoder leaves unwritten is visible. Allocation and
  release of the message structures themselves are not part of this model.
\<close>

section \<open>Commands\<close>

definition CMD_HEADER :: int where
  "CMD_HEADER = 8"

definition PROTO_JSON :: int where "PROTO_JSON = 0"
definition PROTO_BUF :: int where "PROTO_BUF = 1"

record raw_cmd =
  raw_stype :: int
  raw_ctype :: int
  raw_utag :: u32
  raw_data :: "byte list"
  raw_len :: int

text \<open>
  The \<open>void*\<close> body: the memory of a zero-terminated text, or a message object.
\<close>

datatype 'm cmd_body = JsonBody "byte list" | PbBody 'm

record 'm cmd_msg =
  stype :: int
  ctype :: int
  utag :: u32
  body :: "'m cmd_body option"

text \<open>
  The calls of the protobuf library: a fresh message of a named type, parsing bytes into a
  message, its encoded size, and its encoding into a buffer of a given size (\<open>None\<close> where the
  call returns false or null).
\<close>

record 'm protobuf =
  create_message :: "string \<Rightarrow> 'm option"
  parse_from_array :: "'m \<Rightarrow> byte list \<Rightarrow> 'm option"
  byte_size :: "'m \<Rightarrow> nat"
  serialize_partial :: "'m \<Rightarrow> nat \<Rightarrow> byte list option"

text \<open>The file's static variables.\<close>

record proto_state =
  g_proto_type :: int
  g_pb_cmd_map :: "int \<Rightarrow> string option"

definition proto_state_init :: proto_state where
  "proto_state_init = \<lparr>g_proto_type = PROTO_BUF, g_pb_cmd_map = Map.empty\<rparr>"

definition proto_man_init :: "int \<Rightarrow> proto_state \<Rightarrow> proto_state" where
  "proto_man_init t ps = ps\<lparr>g_proto_type := t\<rparr>"

definition register_protobuf_cmd_map :: "(int \<times> string) list \<Rightarrow> proto_state \<Rightarrow> proto_state" where
  "register_protobuf_cmd_map m ps =
     ps\<lparr>g_pb_cmd_map := fold (\<lambda>(k, v) g. g(k \<mapsto> v)) m (g_pb_cmd_map ps)\<rparr>"

text \<open>\<open>g_pb_cmd_map[ctype]\<close> of \<open>std::map\<close> inserts an empty string for a missing key.\<close>

definition protobuf_cmd_name :: "int \<Rightarrow> proto_state \<Rightarrow> string \<times> proto_state" where
  "protobuf_cmd_name k ps =
     (case g_pb_cmd_map ps k of
        Some s \<Rightarrow> (s, ps)
      | None \<Rightarrow> ([], ps\<lparr>g_pb_cmd_map := (g_pb_cmd_map ps)(k \<mapsto> [])\<rparr>))"

section \<open>Decoding\<close>

definition decode_raw_cmd :: "byte list \<Rightarrow> int \<Rightarrow> raw_cmd option" where
  "decode_raw_cmd cmd cmd_len =
     (if cmd_len < CMD_HEADER then None
      else Some \<lparr>raw_stype = sint (le16 (cmd ! 0) (cmd ! 1)),
                 raw_ctype = sint (le16 (cmd ! 2) (cmd ! 3)),
                 raw_utag = le32 (cmd ! 4) (cmd ! 5) (cmd ! 6) (cmd ! 7),
                 raw_data = cmd, raw_len = cmd_len\<rparr>)"

definition decode_cmd_msg ::
  "'m protobuf \<Rightarrow> byte list \<Rightarrow> int \<Rightarrow> proto_state \<Rightarrow> 'm cmd_msg option \<times> proto_state" where
  "decode_cmd_msg pb cmd cmd_len ps =
     (if cmd_len < CMD_HEADER then (None, ps)
      else let msg = \<lparr>stype = sint (le16 (cmd ! 0) (cmd ! 1)),
                      ctype = sint (le16 (cmd ! 2) (cmd ! 3)),
                      utag = le32 (cmd ! 4) (cmd ! 5) (cmd ! 6) (cmd ! 7), body = None\<rparr> in
        if cmd_len = CMD_HEADER then (Some msg, ps)
        else if g_proto_type ps = PROTO_JSON then
          (let json_len = nat (cmd_len - CMD_HEADER);
               json_str = slice (nat CMD_HEADER) json_len cmd @ [0]
           in (Some (msg\<lparr>body := Some (JsonBody json_str)\<rparr>), ps))
        else
          (let (name, ps1) = protobuf_cmd_name (ctype msg) ps in
           case create_message pb name of
             None \<Rightarrow> (None, ps1)
           | Some p_m \<Rightarrow>
               (case parse_from_array pb p_m
                       (slice (nat CMD_HEADER) (nat (cmd_len - CMD_HEADER)) cmd) of
                  None \<Rightarrow> (None, ps1)
                | Some p_m' \<Rightarrow> (Some (msg\<lparr>body := Some (PbBody p_m')\<rparr>), ps1))))"

section \<open>Encoding\<close>

definition c_strlen :: "byte list \<Rightarrow> nat" where
  "c_strlen s = length (takeWhile (\<lambda>b. b \<noteq> 0) s)"

text \<open>The last four statements of the encoder: the header fields.\<close>

definition put_cmd_header :: "'m cmd_msg \<Rightarrow> byte list \<Rightarrow> byte list" where
  "put_cmd_header msg raw =
     (let st = word_of_int (stype msg) :: u32; ct = word_of_int (ctype msg) :: u32
      in blit raw 0 ([ucast (st AND 0x000000ff), ucast (drop_bit 8 (st AND 0x0000ff00)),
                      ucast (ct AND 0x000000ff), ucast (drop_bit 8 (ct AND 0x0000ff00))]
                     @ u32_bytes (utag msg)))"

text \<open>
  \<open>wbuf n\<close> is the block the pool returns for a request of \<open>n\<close> bytes. \<open>None\<close> is the null
  pointer; the second component is \<open>*out_len\<close>. A body of the other kind than the global
  protocol type says is cast to it; reading it then is not defined.
\<close>

definition encode_msg_to_raw ::
  "'m protobuf \<Rightarrow> (nat \<Rightarrow> byte list) \<Rightarrow> proto_state \<Rightarrow> 'm cmd_msg \<Rightarrow> (byte list \<times> nat) option result" where
  "encode_msg_to_raw pb wbuf ps msg =
     (if g_proto_type ps = PROTO_JSON then
        (case body msg of
           None \<Rightarrow> Inr (Some (put_cmd_header msg (wbuf (nat CMD_HEADER)), nat CMD_HEADER))
         | Some (JsonBody json_str) \<Rightarrow>
             (let len = c_strlen json_str + 1;
                  raw = blit (wbuf (nat CMD_HEADER + len)) (nat CMD_HEADER) (take (len - 1) json_str)
              in if 8 + len < length raw
                 then Inr (Some (put_cmd_header msg (raw[8 + len := 0]), len + nat CMD_HEADER))
                 else Inl OutOfBounds)
         | Some (PbBody _) \<Rightarrow> Inl UseUninit)
      else if g_proto_type ps = PROTO_BUF then
        (case body msg of
           None \<Rightarrow> Inr (Some (put_cmd_header msg (wbuf (nat CMD_HEADER)), nat CMD_HEADER))
         | Some (PbBody p_m) \<Rightarrow>
             (let pf_len = byte_size pb p_m;
                  raw = wbuf (nat CMD_HEADER + pf_len)
              in case serialize_partial pb p_m pf_len of
                   None \<Rightarrow> Inr None
                 | Some bs \<Rightarrow>
                     Inr (Some (put_cmd_header msg (blit raw (nat CMD_HEADER) bs), pf_len + nat CMD_HEADER)))
         | Some (JsonBody _) \<Rightarrow> Inl UseUninit)
      else Inr None)"

section \<open>The header\<close>

lemma header_mod: "sint (le16 (ucast (word_of_int i :: u32)) (ucast (drop_bit 8 (word_of_int i :: u32))))
    = i mod 65536"
proof -
  have "int (unat (word_of_int i :: u32)) mod 65536 = i mod 2 ^ 32 mod 65536"
    by (simp add: unsigned_of_int take_bit_eq_mod)
  also have "\<dots> = i mod 65536" by (rule mod_mod_cancel) simp
  finally show ?thesis by (simp add: le_simps zmod_int)
qed

definition header_bytes :: "'m cmd_msg \<Rightarrow> byte list" where
  "header_bytes msg = u16_bytes (word_of_int (stype msg)) @ u16_bytes (word_of_int (ctype msg))
                      @ u32_bytes (utag msg)"

lemma length_header_bytes [mem_simps]: "length (header_bytes msg) = 8"
  by (simp add: header_bytes_def le_simps)

lemma put_cmd_header_eq: "put_cmd_header msg raw = header_bytes msg @ drop 8 raw"
proof -
  have "blit raw 0 (header_bytes msg) = header_bytes msg @ drop 8 raw"
    by (simp add: blit_def length_header_bytes)
  then show ?thesis
    by (simp add: put_cmd_header_def header_bytes_def Let_def u16_bytes_def
        mask_low_byte mask_high_byte)
qed

lemma header_nth:
  "(header_bytes msg @ bs) ! 0 = ucast (word_of_int (stype msg) :: u32)"
  "(header_bytes msg @ bs) ! 1 = ucast (drop_bit 8 (word_of_int (stype msg) :: u32))"
  "(header_bytes msg @ bs) ! 2 = ucast (word_of_int (ctype msg) :: u32)"
  "(header_bytes msg @ bs) ! 3 = ucast (drop_bit 8 (word_of_int (ctype msg) :: u32))"
  "(header_bytes msg @ bs) ! 4 = ucast (utag msg)"
  "(header_bytes msg @ bs) ! 5 = ucast (drop_bit 8 (utag msg))"
  "(header_bytes msg @ bs) ! 6 = ucast (drop_bit 16 (utag msg))"
  "(header_bytes msg @ bs) ! 7 = ucast (drop_bit 24 (utag msg))"
  by (simp_all add: header_bytes_def u16_bytes_def u32_bytes_def)

lemmas read_header = header_nth header_mod le32_split

lemma decode_raw_header:
  "decode_raw_cmd (header_bytes msg @ rest) (8 + int n) =
     Some \<lparr>raw_stype = stype msg mod 65536, raw_ctype = ctype msg mod 65536, raw_utag = utag msg,
           raw_data = header_bytes msg @ rest, raw_len = 8 + int n\<rparr>"
  unfolding decode_raw_cmd_def CMD_HEADER_def by (simp only: read_header) simp

lemma decode_empty_msg:
  "decode_cmd_msg pb (header_bytes msg) 8 ps =
     (Some \<lparr>stype = stype msg mod 65536, ctype = ctype msg mod 65536, utag = utag msg, body = None\<rparr>, ps)"
  by (simp add: decode_cmd_msg_def CMD_HEADER_def header_bytes_def u16_bytes_def u32_bytes_def
      header_mod le32_split)

lemma slice_header_body [mem_simps]: "slice 8 (length bs) (header_bytes msg @ bs) = bs"
  using slice_append [of "header_bytes msg" 8 bs "length bs" "[]"] by (simp add: mem_simps)

lemma decode_json_msg:
  assumes "g_proto_type ps = PROTO_JSON" "bs \<noteq> []"
  shows "decode_cmd_msg pb (header_bytes msg @ bs) (8 + int (length bs)) ps =
     (Some \<lparr>stype = stype msg mod 65536, ctype = ctype msg mod 65536, utag = utag msg,
            body = Some (JsonBody (bs @ [0]))\<rparr>, ps)"
proof -
  have n: "(8 + int (length bs) = 8) = False" using assms(2) by simp
  show ?thesis
    unfolding decode_cmd_msg_def CMD_HEADER_def n
    by (simp only: read_header)
      (simp add: assms(1) mem_simps)
qed

lemma decode_pb_msg:
  assumes "g_proto_type ps \<noteq> PROTO_JSON" "bs \<noteq> []"
    and "g_pb_cmd_map ps (ctype msg mod 65536) = Some name"
    and "create_message pb name = Some m0" "parse_from_array pb m0 bs = Some m"
  shows "decode_cmd_msg pb (header_bytes msg @ bs) (8 + int (length bs)) ps =
     (Some \<lparr>stype = stype msg mod 65536, ctype = ctype msg mod 65536, utag = utag msg,
            body = Some (PbBody m)\<rparr>, ps)"
proof -
  have n: "(8 + int (length bs) = 8) = False" using assms(2) by simp
  show ?thesis
    unfolding decode_cmd_msg_def CMD_HEADER_def n
    by (simp only: read_header)
      (simp add: assms mem_simps protobuf_cmd_name_def)
qed

section \<open>What the encoder produces\<close>

text \<open>A pool that returns blocks at least as large as the request.\<close>

definition wbuf_ok :: "(nat \<Rightarrow> byte list) \<Rightarrow> bool" where
  "wbuf_ok wbuf \<longleftrightarrow> (\<forall>n. n \<le> length (wbuf n))"

lemma wbuf_okD: "wbuf_ok wbuf \<Longrightarrow> n \<le> length (wbuf n)"
  by (simp add: wbuf_ok_def)

text \<open>The serializer fills exactly the announced size.\<close>

definition serializer_ok :: "'m protobuf \<Rightarrow> bool" where
  "serializer_ok pb \<longleftrightarrow>
     (\<forall>m n bs. serialize_partial pb m n = Some bs \<longrightarrow> length bs = n)"

lemma put_header_body:
  assumes "8 + length bs \<le> length raw"
  shows "take (8 + length bs) (put_cmd_header msg (blit raw 8 bs)) = header_bytes msg @ bs"
  using assms by (simp add: put_cmd_header_eq blit_def mem_simps)

lemma encode_empty:
  assumes "wbuf_ok wbuf" "body msg = None" "g_proto_type ps \<in> {PROTO_JSON, PROTO_BUF}"
  obtains raw where "encode_msg_to_raw pb wbuf ps msg = Inr (Some (raw, 8))"
    "take 8 raw = header_bytes msg"
proof
  show "encode_msg_to_raw pb wbuf ps msg = Inr (Some (put_cmd_header msg (wbuf 8), 8))"
    using assms by (auto simp: encode_msg_to_raw_def CMD_HEADER_def PROTO_JSON_def PROTO_BUF_def)
  show "take 8 (put_cmd_header msg (wbuf 8)) = header_bytes msg"
    by (simp add: put_cmd_header_eq mem_simps)
qed

lemma encode_pb:
  assumes "wbuf_ok wbuf" "serializer_ok pb" "g_proto_type ps = PROTO_BUF"
    and "body msg = Some (PbBody m)" "serialize_partial pb m (byte_size pb m) = Some bs"
  obtains raw where
    "encode_msg_to_raw pb wbuf ps msg = Inr (Some (raw, 8 + length bs))"
    "take (8 + length bs) raw = header_bytes msg @ bs"
proof
  have l: "length bs = byte_size pb m" using assms(2,5) by (simp add: serializer_ok_def)
  then show "encode_msg_to_raw pb wbuf ps msg =
      Inr (Some (put_cmd_header msg (blit (wbuf (8 + length bs)) 8 bs), 8 + length bs))"
    using assms(3-5) by (simp add: encode_msg_to_raw_def CMD_HEADER_def PROTO_JSON_def PROTO_BUF_def add.commute Let_def)
  show "take (8 + length bs) (put_cmd_header msg (blit (wbuf (8 + length bs)) 8 bs)) =
      header_bytes msg @ bs"
    by (rule put_header_body) (rule wbuf_okD [OF assms(1)])
qed

lemma c_strlen_text: "0 \<notin> set s \<Longrightarrow> c_strlen (s @ 0 # t) = length s"
  by (induction s) (auto simp: c_strlen_def)

lemma encode_json:
  assumes "g_proto_type ps = PROTO_JSON" "body msg = Some (JsonBody (s @ [0]))" "0 \<notin> set s"
  shows "encode_msg_to_raw pb wbuf ps msg =
    (if 9 + length s < length (wbuf (9 + length s))
     then Inr (Some (header_bytes msg @ drop 8 ((blit (wbuf (9 + length s)) 8 s)[9 + length s := 0]),
                     9 + length s))
     else if 8 + length s \<le> length (wbuf (9 + length s)) then Inl OutOfBounds
     else encode_msg_to_raw pb wbuf ps msg)"
proof (cases "8 + length s \<le> length (wbuf (9 + length s))")
  case True
  then have "length (blit (wbuf (9 + length s)) 8 s) = length (wbuf (9 + length s))"
    by (rule length_blit)
  with True show ?thesis
    using assms(1,2) c_strlen_text [OF assms(3), of "[]"]
    by (simp add: encode_msg_to_raw_def CMD_HEADER_def put_cmd_header_eq)
qed simp

section \<open>Properties\<close>

text \<open>
  C10: A protobuf command survives the wire. Encoding a command with a body, and decoding the
  bytes the encoder reports, gives the command back: body, user tag, and the service and command
  types, which have to fit the 16 bits the header has. Required of the protobuf library: its
  serializer fills the announced size, and parsing what was serialized gives the message. The
  body has to be non-empty on the wire: an empty one is decoded as no body at all.
\<close>

theorem protobuf_cmd_roundtrip:
  assumes "wbuf_ok wbuf" "serializer_ok pb" "g_proto_type ps = PROTO_BUF"
    and "0 \<le> stype msg \<and> stype msg < 65536" "0 \<le> ctype msg \<and> ctype msg < 65536"
    and "body msg = Some (PbBody m)" "serialize_partial pb m (byte_size pb m) = Some bs" "bs \<noteq> []"
    and "g_pb_cmd_map ps (ctype msg) = Some name"
    and "create_message pb name = Some m0" "parse_from_array pb m0 bs = Some m"
  shows "\<exists>raw n. encode_msg_to_raw pb wbuf ps msg = Inr (Some (raw, n)) \<and>
           decode_cmd_msg pb (take n raw) (int n) ps = (Some msg, ps)"
proof -
  obtain raw where e: "encode_msg_to_raw pb wbuf ps msg = Inr (Some (raw, 8 + length bs))"
    and t: "take (8 + length bs) raw = header_bytes msg @ bs"
    using encode_pb [OF assms(1-3,6,7)] .
  have "decode_cmd_msg pb (header_bytes msg @ bs) (8 + int (length bs)) ps = (Some msg, ps)"
    using decode_pb_msg [of ps bs msg name pb m0 m] assms
    by (simp add: PROTO_BUF_def PROTO_JSON_def)
  with e t show ?thesis by (intro exI [of _ raw] exI [of _ "8 + length bs"]) simp
qed

text \<open>A library with one message type whose messages are their own encoding.\<close>

definition echo_pb :: "byte list protobuf" where
  "echo_pb = \<lparr>create_message = (\<lambda>n. if n = ''Echo'' then Some [] else None),
              parse_from_array = (\<lambda>_ bs. Some bs), byte_size = length,
              serialize_partial = (\<lambda>m n. if length m = n then Some m else None)\<rparr>"

theorem protobuf_cmd_roundtrip_witness:
  "\<exists>raw n. encode_msg_to_raw echo_pb (\<lambda>n. replicate n 7)
       (register_protobuf_cmd_map [(3, ''Echo'')] proto_state_init)
       \<lparr>stype = 2, ctype = 3, utag = 9, body = Some (PbBody [4, 5])\<rparr> = Inr (Some (raw, n)) \<and>
     decode_cmd_msg echo_pb (take n raw) (int n)
       (register_protobuf_cmd_map [(3, ''Echo'')] proto_state_init) =
       (Some \<lparr>stype = 2, ctype = 3, utag = 9, body = Some (PbBody [4, 5])\<rparr>,
        register_protobuf_cmd_map [(3, ''Echo'')] proto_state_init)"
  by (rule protobuf_cmd_roundtrip [where m = "[4, 5]" and bs = "[4, 5]" and name = "''Echo''"
        and ?m0.0 = "[]"])
    (simp_all add: wbuf_ok_def serializer_ok_def echo_pb_def register_protobuf_cmd_map_def
      proto_state_init_def)

text \<open>
  The header the gateway reads (\<open>decode_raw_cmd\<close>) from an encoded command carries the
  user tag and the types modulo 65536, whatever the body is: forwarding by service type looks at
  the same numbers the sender put in, as long as they fit 16 bits.
\<close>

theorem encoded_header_readable:
  assumes "encode_msg_to_raw pb wbuf ps msg = Inr (Some (raw, n))"
  shows "\<exists>r. decode_raw_cmd raw (int n) = Some r \<and> raw_stype r = stype msg mod 65536 \<and>
           raw_ctype r = ctype msg mod 65536 \<and> raw_utag r = utag msg \<and> raw_len r = int n"
proof -
  have "\<exists>rest k. raw = header_bytes msg @ rest \<and> n = 8 + k"
    using assms
    by (auto simp: encode_msg_to_raw_def put_cmd_header_eq CMD_HEADER_def Let_def
        split: if_splits option.splits cmd_body.splits)
  then obtain rest k where "raw = header_bytes msg @ rest" "n = 8 + k" by blast
  then show ?thesis by (simp add: decode_raw_header)
qed

theorem encoded_header_readable_witness:
  "\<exists>r. decode_raw_cmd (header_bytes \<lparr>stype = 65537, ctype = 3, utag = 9, body = None :: byte list cmd_body option\<rparr>) 8
         = Some r \<and> raw_stype r = 1 \<and> raw_ctype r = 3 \<and> raw_utag r = 9 \<and> raw_len r = 8"
proof -
  let ?m = "\<lparr>stype = 65537, ctype = 3, utag = 9, body = None :: byte list cmd_body option\<rparr>"
  have "encode_msg_to_raw echo_pb (\<lambda>n. replicate n 0) proto_state_init ?m =
      Inr (Some (header_bytes ?m, 8))"
    by (simp add: encode_msg_to_raw_def put_cmd_header_eq proto_state_init_def PROTO_BUF_def
        PROTO_JSON_def CMD_HEADER_def)
  from encoded_header_readable [OF this] show ?thesis by simp
qed

text \<open>
  C39: The JSON encoder misplaces its terminator. It announces the text and one more byte, but
  the zero goes one byte further: the byte after the text keeps what the pooled block held
  before, and the peer decodes the text with that stale byte appended. When the block is exactly
  as large as requested, as for every block that does not come from the pool, the terminator
  is written outside it.
\<close>

theorem json_terminator_misplaced:
  assumes "g_proto_type ps = PROTO_JSON" "body msg = Some (JsonBody (s @ [0]))" "0 \<notin> set s"
    and "wbuf_ok wbuf"
  shows "if length (wbuf (9 + length s)) = 9 + length s
         then encode_msg_to_raw pb wbuf ps msg = Inl OutOfBounds
         else \<exists>raw. encode_msg_to_raw pb wbuf ps msg = Inr (Some (raw, 9 + length s)) \<and>
           decode_cmd_msg pb (take (9 + length s) raw) (9 + int (length s)) ps =
             (Some \<lparr>stype = stype msg mod 65536, ctype = ctype msg mod 65536, utag = utag msg,
                    body = Some (JsonBody (s @ [wbuf (9 + length s) ! (8 + length s), 0]))\<rparr>, ps)"
proof (cases "length (wbuf (9 + length s)) = 9 + length s")
  case True
  then show ?thesis by (simp add: encode_json [OF assms(1-3)])
next
  case False
  let ?w = "wbuf (9 + length s)"
  let ?raw = "header_bytes msg @ drop 8 ((blit ?w 8 s)[9 + length s := 0])"
  have long: "9 + length s < length ?w"
    using False wbuf_okD [OF assms(4), of "9 + length s"] by linarith
  have e: "encode_msg_to_raw pb wbuf ps msg = Inr (Some (?raw, 9 + length s))"
    using encode_json [OF assms(1-3), of pb wbuf] long by simp
  have d: "drop (8 + length s) ?w = ?w ! (8 + length s) # drop (9 + length s) ?w"
    using Cons_nth_drop_Suc [of "8 + length s" ?w] long by simp
  have t: "take (9 + length s) ?raw = header_bytes msg @ (s @ [?w ! (8 + length s)])"
    using long by (simp add: blit_def mem_simps d take_update_swap list_update_append)
  have "decode_cmd_msg pb (take (9 + length s) ?raw) (9 + int (length s)) ps =
      (Some \<lparr>stype = stype msg mod 65536, ctype = ctype msg mod 65536, utag = utag msg,
        body = Some (JsonBody (s @ [?w ! (8 + length s), 0]))\<rparr>, ps)"
    unfolding t using decode_json_msg [OF assms(1), of "s @ [?w ! (8 + length s)]" pb msg]
    by (simp add: add.commute)
  with e False show ?thesis by auto
qed

theorem json_terminator_misplaced_witness:
  "\<exists>raw. encode_msg_to_raw echo_pb (\<lambda>n. replicate (n + 1) 33) (proto_man_init PROTO_JSON proto_state_init)
       \<lparr>stype = 2, ctype = 3, utag = 9, body = Some (JsonBody [123, 125, 0])\<rparr> = Inr (Some (raw, 11)) \<and>
     decode_cmd_msg echo_pb (take 11 raw) 11 (proto_man_init PROTO_JSON proto_state_init) =
       (Some \<lparr>stype = 2, ctype = 3, utag = 9, body = Some (JsonBody [123, 125, 33, 0])\<rparr>,
        proto_man_init PROTO_JSON proto_state_init)"
  using json_terminator_misplaced [of "proto_man_init PROTO_JSON proto_state_init"
      "\<lparr>stype = 2, ctype = 3, utag = 9, body = Some (JsonBody [123, 125, 0])\<rparr>" "[123, 125]"
      "\<lambda>n. replicate (n + 1) 33" echo_pb]
  by (simp add: wbuf_ok_def proto_man_init_def)

end
