(* ===== verification/Ws_Frame.thy ===== *)
theory Ws_Frame
  imports Tp_Protocol
begin

text \<open>
  The WebSocket frames of \<open>netbus/ws_protocol.cc\<close>: the reader of a client frame's header,
  the unmasking of its payload and the writer of a server frame. The reference is the frame
  layout of RFC 6455, section 5.2 (\<open>rfc_client_frame\<close>), which the reader is compared with.
  The handshake of the same file is in \<open>Ws_Handshake\<close>.
\<close>

section \<open>The code\<close>

text \<open>
  \<open>data_len\<close> is unsigned; \<open>data_len + head_size\<close> is computed modulo \<open>2 ^ 32\<close> and stored
  in a signed \<open>int\<close>.
\<close>

definition ws_pkg_size :: "u32 \<Rightarrow> int \<Rightarrow> int \<times> int" where
  "ws_pkg_size data_len head_size =
     (let head_size = head_size + 4 in (sint (data_len + word_of_int head_size), head_size))"

definition ws_read_header :: "byte list \<Rightarrow> int \<Rightarrow> (int \<times> int) option" where
  "ws_read_header d recv_len =
     (if d ! 0 \<noteq> 0x81 \<and> d ! 0 \<noteq> 0x82 then None
      else if recv_len < 2 then None
      else let data_len = (ucast (d ! 1) :: u32) AND 0x7f; head_size = 2 in
        if data_len = 126 then
          (let head_size = head_size + 2 in
           if recv_len < head_size then None
           else Some (ws_pkg_size (le16 (d ! 3) (d ! 2)) head_size))
        else if data_len = 127 then
          (let head_size = head_size + 8 in
           if recv_len < head_size then None
           else (let low = le32 (d ! 5) (d ! 4) (d ! 3) (d ! 2)
                 in Some (ws_pkg_size low head_size)))
        else Some (ws_pkg_size data_len head_size))"

text \<open>The loop writes byte \<open>i\<close> from byte \<open>i\<close> alone, so it is a map over the indices.\<close>

definition ws_parser_recv_data :: "byte list \<Rightarrow> byte list \<Rightarrow> byte list" where
  "ws_parser_recv_data raw mask_key = map (\<lambda>i. raw ! i XOR mask_key ! (i mod 4)) [0..<length raw]"

text \<open>\<open>None\<close> is the null pointer the code returns for 65536 bytes or more.\<close>

definition ws_package_send_data :: "byte list \<Rightarrow> (byte list \<times> int) option" where
  "ws_package_send_data raw =
     (let len = int (length raw);
          head_size = (if len > 125 \<and> len < 65536 then 4 else 2);
          w = word_of_int len :: u32
      in if len \<ge> 65536 then None
         else if len \<le> 125 then Some ([0x82, ucast w] @ raw, head_size + len)
         else Some ([0x82, 126, ucast (drop_bit 8 (w AND 0x0000ff00)), ucast (w AND 0x000000ff)]
                    @ raw, head_size + len))"

section \<open>Frames by RFC 6455\<close>

definition be16 :: "nat \<Rightarrow> byte list" where
  "be16 n = [word_of_nat (n div 256), word_of_nat (n mod 256)]"

definition be64 :: "nat \<Rightarrow> byte list" where
  "be64 n = map (\<lambda>i. word_of_nat (n div 256 ^ (7 - i))) [0..<8]"

text \<open>
  A final frame with opcode \<open>op\<close>, the mask bit set, the payload masked with the four key
  bytes; the length in 7 bits, in 7+16 or in 7+64 bits, the extended lengths in network order.
\<close>

definition rfc_length :: "nat \<Rightarrow> byte list" where
  "rfc_length n =
     (if n \<le> 125 then [0x80 OR word_of_nat n]
      else if n < 65536 then (0x80 OR 126) # be16 n
      else (0x80 OR 127) # be64 n)"

definition rfc_mask :: "byte list \<Rightarrow> byte list \<Rightarrow> byte list" where
  "rfc_mask key payload = map (\<lambda>i. payload ! i XOR key ! (i mod 4)) [0..<length payload]"

definition rfc_client_frame :: "byte \<Rightarrow> byte list \<Rightarrow> byte list \<Rightarrow> byte list" where
  "rfc_client_frame op key payload =
     (0x80 OR op) # rfc_length (length payload) @ key @ rfc_mask key payload"

text \<open>The unmasked frame a server sends.\<close>

definition rfc_server_frame :: "byte \<Rightarrow> byte list \<Rightarrow> byte list" where
  "rfc_server_frame op payload =
     (0x80 OR op) #
     (if length payload \<le> 125 then [word_of_nat (length payload)] else 126 # be16 (length payload))
     @ payload"

section \<open>Lemmas\<close>

lemma unmask_mask:
  "ws_parser_recv_data (rfc_mask key payload) key = payload"
  by (rule nth_equalityI) (simp_all add: ws_parser_recv_data_def rfc_mask_def xor.assoc)

lemma length_ws_parser_recv_data [simp]: "length (ws_parser_recv_data raw mask_key) = length raw"
  by (simp add: ws_parser_recv_data_def)

lemma length_rfc_mask [simp]: "length (rfc_mask key payload) = length payload"
  by (simp add: rfc_mask_def)

lemma ws_pkg_size_small:
  assumes "unat data_len + nat head_size + 4 < 2 ^ 31" "0 \<le> head_size"
  shows "ws_pkg_size data_len head_size = (int (unat data_len) + head_size + 4, head_size + 4)"
proof -
  have "unat (word_of_int (head_size + 4) :: u32) = nat head_size + 4"
    using assms
    by (simp only: unsigned_of_int take_bit_eq_mod) (simp add: nat_add_distrib)
  then have "unat (data_len + word_of_int (head_size + 4)) = unat data_len + nat head_size + 4"
    using assms by (simp add: unat_word_ariths)
  with assms show ?thesis by (simp add: ws_pkg_size_def sint_u32_small Let_def)
qed

lemma bit_128:
  "bit (0x80 :: 'a :: len word) k \<longleftrightarrow> k = 7 \<and> 7 < LENGTH('a)"
  "bit (0x80 :: nat) k \<longleftrightarrow> k = 7" "bit (0x80 :: int) k \<longleftrightarrow> k = 7"
proof -
  have "(0x80 :: 'a word) = 2 ^ 7" "(0x80 :: nat) = 2 ^ 7" "(0x80 :: int) = 2 ^ 7" by simp_all
  then show "bit (0x80 :: 'a word) k \<longleftrightarrow> k = 7 \<and> 7 < LENGTH('a)"
    "bit (0x80 :: nat) k \<longleftrightarrow> k = 7" "bit (0x80 :: int) k \<longleftrightarrow> k = 7"
    by (simp_all only: bit_exp_iff) auto
qed

lemma low7_or_mask_bit:
  assumes "n < 128"
  shows "((ucast (0x80 OR word_of_nat n :: byte) :: u32) AND 0x7f) = word_of_nat n"
proof (rule bit_word_eqI)
  have m: "(0x7f :: u32) = mask 7" by (simp add: mask_numeral)
  have "take_bit 7 n = n" using assms by (simp add: take_bit_nat_eq_self)
  then have b: "bit n k \<Longrightarrow> k < 7" for k by (metis bit_take_bit_iff)
  fix k
  assume "k < LENGTH(32)"
  then show "bit ((ucast (0x80 OR word_of_nat n :: byte) :: u32) AND 0x7f) k =
      bit (word_of_nat n :: u32) k"
    unfolding m by (auto simp: bit_simps bit_128 dest: b)
qed

lemma unat_u32_of_nat: "n < 2 ^ 32 \<Longrightarrow> unat (word_of_nat n :: u32) = n"
  by (simp only: unsigned_of_nat) (simp add: take_bit_nat_eq_self)

lemma unat_byte_of_nat: "n < 256 \<Longrightarrow> unat (word_of_nat n :: byte) = n"
  by (simp only: unsigned_of_nat) (simp add: take_bit_nat_eq_self)

lemma le16_be16:
  assumes "n < 65536"
  shows "unat (le16 (be16 n ! 1) (be16 n ! 0)) = n"
proof -
  have "n div 256 < 256" using assms by (simp add: div_less_iff_less_mult)
  then show ?thesis by (simp add: unat_le16 be16_def unat_byte_of_nat)
qed

lemma length_be [simp]: "length (be16 n) = 2" "length (be64 n) = 8"
  by (simp_all add: be16_def be64_def)

text \<open>The header of a client frame, for each of the three length forms.\<close>

lemma header_short:
  assumes "n \<le> 125" "op = 1 \<or> op = 2" "length rest + 2 \<ge> 2"
  shows "ws_read_header ((0x80 OR op) # rfc_length n @ rest) m =
    (if m < 2 then None else Some (int n + 6, 6))"
proof -
  have "ws_pkg_size (word_of_nat n) 2 = (int n + 6, 6)"
    using ws_pkg_size_small [of "word_of_nat n" 2] assms(1) by (simp add: unat_u32_of_nat)
  moreover have "(word_of_nat n :: u32) \<noteq> 126" "(word_of_nat n :: u32) \<noteq> 127"
    using assms(1) by (auto simp: word_unat_eq_iff unat_u32_of_nat)
  ultimately show ?thesis
    using assms(1,2) low7_or_mask_bit [of n]
    by (auto simp: ws_read_header_def rfc_length_def)
qed

lemma header_medium:
  assumes "125 < n" "n < 65536" "op = 1 \<or> op = 2"
  shows "ws_read_header ((0x80 OR op) # rfc_length n @ rest) m =
    (if m < 4 then None else Some (int n + 8, 8))"
proof -
  have l: "unat (le16 (be16 n ! Suc 0) (be16 n ! 0)) = n" using le16_be16 [OF assms(2)] by simp
  have "ws_pkg_size (le16 (be16 n ! Suc 0) (be16 n ! 0)) 4 = (int n + 8, 8)"
    using ws_pkg_size_small [of "le16 (be16 n ! Suc 0) (be16 n ! 0)" 4] assms(2) by (simp add: l)
  then show ?thesis
    using assms by (auto simp: ws_read_header_def rfc_length_def be16_def)
qed

lemma be64_high_half:
  assumes "n < 2 ^ 32"
  shows "take 4 (be64 n) = [0, 0, 0, 0]"
proof -
  have "n div 256 ^ k = 0" if "4 \<le> k" for k
  proof -
    have "(256 :: nat) ^ 4 \<le> 256 ^ k" using that by (intro power_increasing) simp_all
    with assms show ?thesis by (intro div_less) simp
  qed
  then show ?thesis by (simp add: be64_def upt_rec del: power_numeral)
qed

lemma header_long:
  assumes "65536 \<le> n" "n < 2 ^ 32" "op = 1 \<or> op = 2"
  shows "ws_read_header ((0x80 OR op) # rfc_length n @ rest) m =
    (if m < 10 then None else Some (14, 14))"
proof -
  have b: "be64 n = [0, 0, 0, 0] @ drop 4 (be64 n)"
    using be64_high_half [OF assms(2)] by (metis append_take_drop_id)
  have "ws_pkg_size (le32 0 0 0 0) 10 = (14, 14)"
    by (simp add: le32_def ws_pkg_size_def Let_def sint_u32_small)
  then show ?thesis
    using assms(1,3) by (subst (1) rfc_length_def, subst b) (auto simp: ws_read_header_def)
qed

lemma ws_package_eq:
  "ws_package_send_data raw =
    (if 65536 \<le> length raw then None
     else Some (rfc_server_frame 2 raw, int (length (rfc_server_frame 2 raw))))"
proof -
  have h: "ucast (drop_bit 8 (word_of_nat n :: u32)) = (word_of_nat (n div 256) :: byte)"
    if "n < 65536" for n
    using that
    by (simp add: word_unat_eq_iff unat_byte_of_shifted unat_u32_of_nat unat_byte_of_nat
        div_less_iff_less_mult)
  have l: "(ucast (word_of_nat n :: u32) :: byte) = word_of_nat (n mod 256)" if "n < 65536" for n
    using that by (simp add: word_unat_eq_iff unat_byte_of_u32 unat_u32_of_nat unat_byte_of_nat)
  show ?thesis
    by (auto simp: ws_package_send_data_def rfc_server_frame_def Let_def be16_def le_simps h l)
qed

section \<open>Properties\<close>

text \<open>
  C21: a text or binary frame laid out as RFC 6455 says, with up to 65535 payload bytes and
  whatever follows it in the buffer, is measured correctly (its total size and its header size),
  and unmasking the bytes after the header with the four bytes before them gives the payload.
\<close>

theorem ws_client_frame_decoded:
  assumes "op = 1 \<or> op = 2" and "length key = 4" and "length payload < 65536"
  shows "\<exists>hs. ws_read_header (rfc_client_frame op key payload @ rest)
        (int (length (rfc_client_frame op key payload @ rest)))
      = Some (int (length (rfc_client_frame op key payload)), hs) \<and>
    ws_parser_recv_data
      (slice (nat hs) (length payload) (rfc_client_frame op key payload @ rest))
      (slice (nat hs - 4) 4 (rfc_client_frame op key payload @ rest)) = payload"
proof -
  define hd where "hd = (0x80 OR op) # rfc_length (length payload)"
  have f: "rfc_client_frame op key payload @ rest = hd @ key @ rfc_mask key payload @ rest"
    by (simp add: rfc_client_frame_def hd_def)
  have l: "length (rfc_client_frame op key payload) = length hd + 4 + length payload"
    using assms(2) by (simp add: rfc_client_frame_def hd_def)
  have r: "ws_read_header (rfc_client_frame op key payload @ rest)
      (int (length (rfc_client_frame op key payload @ rest))) =
      Some (int (length hd + 4 + length payload), int (length hd + 4))"
    using header_short [of "length payload" op "key @ rfc_mask key payload @ rest"]
      header_medium [of "length payload" op "key @ rfc_mask key payload @ rest"] assms
    by (cases "length payload \<le> 125") (simp_all add: f hd_def rfc_length_def)
  have k: "slice (length hd) 4 (hd @ key @ rfc_mask key payload @ rest) = key"
    using assms(2) by (simp add: slice_append)
  have p: "slice (length hd + 4) (length payload) (hd @ key @ rfc_mask key payload @ rest) =
      rfc_mask key payload"
    using slice_append [of "hd @ key" "length hd + 4" "rfc_mask key payload" "length payload" rest]
      assms(2) by simp
  show ?thesis
    unfolding r l using k p by (simp add: f unmask_mask nat_add_distrib)
qed

theorem ws_client_frame_decoded_witness:
  "\<exists>hs. ws_read_header (rfc_client_frame 2 [1, 2, 3, 4] [10, 20, 30] @ [0x81])
      (int (length (rfc_client_frame 2 [1, 2, 3, 4] [10, 20, 30] @ [0x81]))) = Some (9, hs) \<and>
    ws_parser_recv_data (slice (nat hs) (length [10, 20, 30 :: byte])
        (rfc_client_frame 2 [1, 2, 3, 4] [10, 20, 30] @ [0x81]))
      (slice (nat hs - 4) 4 (rfc_client_frame 2 [1, 2, 3, 4] [10, 20, 30] @ [0x81])) = [10, 20, 30]"
proof -
  have l: "length (rfc_client_frame 2 [1, 2, 3, 4] [10, 20, 30]) = 9"
    by (simp add: rfc_client_frame_def rfc_length_def)
  have h: "(2 :: byte) = 1 \<or> (2 :: byte) = 2" "length [1, 2, 3, 4 :: byte] = 4"
    "length [10, 20, 30 :: byte] < 65536" by simp_all
  from ws_client_frame_decoded [OF h, of "[0x81]"] show ?thesis
    unfolding l of_nat_numeral .
qed

text \<open>
  frames of 65536 payload bytes and more, up to 4 GiB, are misread: the code takes the high
  half of the 64-bit length, which is zero, for the length. The header is reported as a whole
  frame of 14 bytes with no payload, and the payload will be parsed as frames.
\<close>

theorem ws_long_frame_misread:
  assumes "op = 1 \<or> op = 2" and "65536 \<le> length payload" and "length payload < 2 ^ 32"
  shows "ws_read_header (rfc_client_frame op key payload)
      (int (length (rfc_client_frame op key payload))) = Some (14, 14)"
  using header_long [OF assms(2,3,1), of "key @ rfc_mask key payload"] assms(2)
  by (simp add: rfc_client_frame_def)

theorem ws_long_frame_misread_witness:
  "ws_read_header (rfc_client_frame 2 [1, 2, 3, 4] (replicate 70000 5))
     (int (length (rfc_client_frame 2 [1, 2, 3, 4] (replicate 70000 5)))) = Some (14, 14)"
proof -
  have "65536 \<le> length (replicate 70000 (5 :: byte))" "length (replicate 70000 (5 :: byte)) < 2 ^ 32"
    by (simp_all only: length_replicate) simp_all
  then show ?thesis by (intro ws_long_frame_misread) simp_all
qed

text \<open>
  C22: what the server sends is the unmasked final binary frame of RFC 6455 with the shortest
  length form, and its length, up to 65535 bytes of payload; from there on there is no frame.
\<close>

theorem ws_package_is_rfc_frame:
  "ws_package_send_data raw =
    (if 65536 \<le> length raw then None
     else Some (rfc_server_frame 2 raw, int (length (rfc_server_frame 2 raw))))"
  by (rule ws_package_eq)

end
