(* ===== verification/Session.thy ===== *)
theory Session
  imports Proto_Man Ws_Frame
begin

text \<open>
  Sessions and the node they live in: \<open>netbus/session.h\<close>, \<open>session_uv.h\<close>,
  \<open>udp_session.h\<close>, and the sending side of \<open>session_uv.cc\<close> and \<open>udp_session.cc\<close>.
  A session is addressed by a number, as the code addresses it by a pointer; an access to a
  number that is not (or no longer) a session is \<open>UseAfterFree\<close>. Calls of libuv are recorded
  as events in the order they are made.

  The services are C++ objects whose virtual methods the server calls. Their code is a
  parameter: a method is a \<open>svc_prog\<close>, a program over the operations a service has on
  sessions (theory \<open>Service_Man\<close> runs it).
\<close>

section \<open>Sessions\<close>

type_synonym sid = nat

definition RECV_LEN :: int where
  "RECV_LEN = 4096"

datatype socket_type = TCP_SOCKET | WS_SOCKET

text \<open>The receiving side's fields of \<open>uv_session\<close>.\<close>

record recv_state =
  recv_buf :: "byte list"
  recved :: int
  long_pkg :: "byte list option"
  long_pkg_size :: int

text \<open>The fields of the base class, and those of the two sessions.\<close>

record base_session =
  as_client :: u32
  session_utag :: u32
  uid :: u32
  c_address :: string
  c_port :: int

record uv_session = base_session +
  is_shutdown :: bool
  socket_type :: socket_type
  is_ws_shake :: int
  rx :: recv_state

datatype session = UvSession uv_session | UdpSession base_session

primrec base_of :: "session \<Rightarrow> base_session" where
  "base_of (UvSession s) = base_session.truncate s"
| "base_of (UdpSession s) = s"

primrec as_uv :: "session \<Rightarrow> uv_session option" where
  "as_uv (UvSession s) = Some s"
| "as_uv (UdpSession _) = None"

text \<open>
  \<open>uv_session::create\<close>: the constructor of \<open>session\<close> and \<open>init\<close>. \<open>recv_buf\<close> and the
  socket type are left as the pool block held them.
\<close>

definition uv_session_create :: "byte list \<Rightarrow> socket_type \<Rightarrow> uv_session" where
  "uv_session_create block_buf block_type =
     \<lparr>as_client = 0, session_utag = 0, uid = 0, c_address = [], c_port = 0,
      is_shutdown = False, socket_type = block_type, is_ws_shake = 0,
      rx = \<lparr>recv_buf = block_buf, recved = 0, long_pkg = None, long_pkg_size = 0\<rparr>\<rparr>"

section \<open>Service methods\<close>

text \<open>
  What a service can do with a session: the virtual methods of \<open>session\<close> and its public
  fields. \<open>Ret\<close> returns from the method (for the methods that return \<open>void\<close> the value is
  ignored); \<open>GetApp\<close> and \<open>PutApp\<close> access the service's own memory, \<open>AskProtos\<close> reads the
  protocol type and the command names; \<open>Fault\<close> is undefined behaviour of the method's own.
\<close>

datatype 'm action =
    SendData sid "byte list"
  | SendMsg sid "'m cmd_msg"
  | SendRawCmd sid raw_cmd
  | CloseSession sid
  | SetUtag sid u32
  | SetUid sid u32

datatype ('a, 'm) svc_prog =
    Ret bool
  | GetApp "'a \<Rightarrow> ('a, 'm) svc_prog"
  | PutApp 'a "('a, 'm) svc_prog"
  | AskSession sid "base_session \<Rightarrow> ('a, 'm) svc_prog"
  | AskProtos "proto_state \<Rightarrow> ('a, 'm) svc_prog"
  | Fault c_error
  | Do "'m action" "('a, 'm) svc_prog"

record ('a, 'm) service =
  using_raw_cmd :: bool
  on_session_recv_cmd :: "sid \<Rightarrow> 'm cmd_msg \<Rightarrow> ('a, 'm) svc_prog"
  on_session_recv_raw_cmd :: "sid \<Rightarrow> raw_cmd \<Rightarrow> ('a, 'm) svc_prog"
  on_session_disconnect :: "sid \<Rightarrow> int \<Rightarrow> ('a, 'm) svc_prog"
  on_session_connect :: "sid \<Rightarrow> int \<Rightarrow> ('a, 'm) svc_prog"

text \<open>The base class: \<open>service.cc\<close>.\<close>

definition service_default :: "('a, 'm) service" where
  "service_default =
     \<lparr>using_raw_cmd = False,
      on_session_recv_cmd = (\<lambda>_ _. Ret False),
      on_session_recv_raw_cmd = (\<lambda>_ _. Ret False),
      on_session_disconnect = (\<lambda>_ _. Ret False),
      on_session_connect = (\<lambda>_ _. Ret False)\<rparr>"

section \<open>The node\<close>

text \<open>
  A write request points at its bytes: a block of its own, or the static array \<open>respones\<close>
  (whose first bytes it will send, whatever they are by then).
\<close>

datatype write_base = OwnBlock "byte list" | StaticRespones nat

datatype write_cb = AfterWrite | WsAfterWrite | NoWriteCb

datatype uv_event =
    UvWrite sid write_base write_cb
  | UvUdpSend sid "byte list"
  | UvShutdown sid
  | UvClose sid
  | UvListen int socket_type
  | UvAccept sid
  | UvConnect sid string int
  | UvReadStart sid
  | UvUdpRecvStart int
  | UvUdpSendTo string int "byte list"

definition RESPONES_LEN :: nat where
  "RESPONES_LEN = 512"

record ('a, 'm) node =
  sessions :: "sid \<Rightarrow> session option"
  g_service_set :: "('a, 'm) service option list"
  protos :: proto_state
  app :: 'a
  respones :: "byte list"     \<comment> \<open>the static array of \<open>send_data\<close>\<close>
  wr_live :: nat              \<comment> \<open>requests taken from \<open>wr_allocer\<close> and not given back\<close>
  events :: "uv_event list"

text \<open>
  The parameters: the protobuf library, the pool's blocks, and libuv's answer to
  \<open>uv_shutdown\<close>.
\<close>

record 'm env =
  pb :: "'m protobuf"
  wbuf :: "nat \<Rightarrow> byte list"
  uv_shutdown_ret :: "sid \<Rightarrow> int"

definition emit :: "uv_event \<Rightarrow> ('a, 'm) node \<Rightarrow> ('a, 'm) node" where
  "emit e n = n\<lparr>events := events n @ [e]\<rparr>"

definition put_session :: "sid \<Rightarrow> session \<Rightarrow> ('a, 'm) node \<Rightarrow> ('a, 'm) node" where
  "put_session i s n = n\<lparr>sessions := (sessions n)(i \<mapsto> s)\<rparr>"

section \<open>Sending\<close>

text \<open>
  \<open>uv_session::send_data\<close>. Before the handshake the bytes are copied into the static array
  without a bound check and the request is given no callback.
\<close>

definition uv_send_data ::
  "sid \<Rightarrow> uv_session \<Rightarrow> byte list \<Rightarrow> ('a, 'm) node \<Rightarrow> ('a, 'm) node result" where
  "uv_send_data i s bs n =
     (let n = n\<lparr>wr_live := wr_live n + 1\<rparr> in
      if socket_type s = WS_SOCKET then
        if is_ws_shake s \<noteq> 0 then
          (case ws_package_send_data bs of
             None \<Rightarrow> Inl UseUninit
           | Some (ws_pkg, ws_pkg_len) \<Rightarrow> Inr (emit (UvWrite i (OwnBlock ws_pkg) WsAfterWrite) n))
        else if length bs \<le> RESPONES_LEN then
          Inr (emit (UvWrite i (StaticRespones (length bs)) NoWriteCb)
                 (n\<lparr>respones := blit (respones n) 0 bs\<rparr>))
        else Inl OutOfBounds
      else
        (let (tp_pkg, tp_pkg_len) = tp_package bs
         in Inr (emit (UvWrite i (OwnBlock tp_pkg) AfterWrite) n)))"

text \<open>\<open>session::send_data\<close>, on the object the pointer denotes.\<close>

definition send_data :: "sid \<Rightarrow> byte list \<Rightarrow> ('a, 'm) node \<Rightarrow> ('a, 'm) node result" where
  "send_data i bs n =
     (case sessions n i of
        None \<Rightarrow> Inl UseAfterFree
      | Some (UvSession s) \<Rightarrow> uv_send_data i s bs n
      | Some (UdpSession s) \<Rightarrow> Inr (emit (UvUdpSend i bs) n))"

definition send_msg :: "'m env \<Rightarrow> sid \<Rightarrow> 'm cmd_msg \<Rightarrow> ('a, 'm) node \<Rightarrow> ('a, 'm) node result" where
  "send_msg E i msg n =
     (case encode_msg_to_raw (pb E) (wbuf E) (protos n) msg of
        Inl e \<Rightarrow> Inl e
      | Inr None \<Rightarrow> Inr n
      | Inr (Some (encode_pkg, encode_len)) \<Rightarrow> send_data i (take encode_len encode_pkg) n)"

definition send_raw_cmd :: "sid \<Rightarrow> raw_cmd \<Rightarrow> ('a, 'm) node \<Rightarrow> ('a, 'm) node result" where
  "send_raw_cmd i raw n = send_data i (take (nat (raw_len raw)) (raw_data raw)) n"

text \<open>\<open>after_write\<close> and \<open>ws_after_write\<close> give the request back.\<close>

definition after_write :: "write_cb \<Rightarrow> ('a, 'm) node \<Rightarrow> ('a, 'm) node" where
  "after_write cb n =
     (case cb of
        NoWriteCb \<Rightarrow> n
      | AfterWrite \<Rightarrow> n\<lparr>wr_live := wr_live n - 1\<rparr>
      | WsAfterWrite \<Rightarrow> n\<lparr>wr_live := wr_live n - 1\<rparr>)"

text \<open>The bytes a pending write puts on the wire if it is carried out now.\<close>

definition wire_bytes :: "('a, 'm) node \<Rightarrow> uv_event \<Rightarrow> byte list" where
  "wire_bytes n e =
     (case e of
        UvWrite _ (OwnBlock bs) _ \<Rightarrow> bs
      | UvWrite _ (StaticRespones k) _ \<Rightarrow> take k (respones n)
      | UvUdpSend _ bs \<Rightarrow> bs
      | _ \<Rightarrow> [])"

end
