(* ===== verification/Service_Man.thy ===== *)
theory Service_Man
  imports Session
begin

text \<open>
  The service table and the dispatch of commands, \<open>netbus/service_man.cc\<close>, with the closing of
  sessions (\<open>uv_session::close\<close>), which calls back into the services. A service method runs by
  \<open>run_prog\<close>, one operation after the other, with \<open>close_session\<close> for the calls of
  \<open>close\<close>: closing and the services' methods call each other, to a depth that the C stack
  bounds (\<open>depth\<close>).
\<close>

section \<open>Registration\<close>

definition MAX_SERVICE :: nat where
  "MAX_SERVICE = 1024"

definition service_man_init :: "('a, 'm) node \<Rightarrow> ('a, 'm) node" where
  "service_man_init n = n\<lparr>g_service_set := replicate MAX_SERVICE None\<rparr>"

definition register_service ::
  "int \<Rightarrow> ('a, 'm) service \<Rightarrow> ('a, 'm) service option list \<Rightarrow> bool \<times> ('a, 'm) service option list" where
  "register_service st s tab =
     (if st < 0 \<or> st \<ge> int MAX_SERVICE then (False, tab)
      else if tab ! nat st \<noteq> None then (False, tab)
      else (True, tab[nat st := Some s]))"

text \<open>The element \<open>g_service_set[stype]\<close>, read without a bound check.\<close>

definition service_at :: "('a, 'm) service option list \<Rightarrow> int \<Rightarrow> ('a, 'm) service option result" where
  "service_at tab st = (if 0 \<le> st \<and> st < int (length tab) then Inr (tab ! nat st) else Inl OutOfBounds)"

section \<open>Running a method\<close>

primrec set_utag :: "u32 \<Rightarrow> session \<Rightarrow> session" where
  "set_utag w (UvSession s) = UvSession (s\<lparr>session_utag := w\<rparr>)"
| "set_utag w (UdpSession s) = UdpSession (s\<lparr>session_utag := w\<rparr>)"

primrec set_uid :: "u32 \<Rightarrow> session \<Rightarrow> session" where
  "set_uid w (UvSession s) = UvSession (s\<lparr>uid := w\<rparr>)"
| "set_uid w (UdpSession s) = UdpSession (s\<lparr>uid := w\<rparr>)"

definition update_session ::
  "sid \<Rightarrow> (session \<Rightarrow> session) \<Rightarrow> ('a, 'm) node \<Rightarrow> ('a, 'm) node result" where
  "update_session i f n =
     (case sessions n i of None \<Rightarrow> Inl UseAfterFree | Some s \<Rightarrow> Inr (put_session i (f s) n))"

primrec do_action ::
  "'m env \<Rightarrow> (sid \<Rightarrow> ('a, 'm) node \<Rightarrow> ('a, 'm) node result) \<Rightarrow> 'm action
    \<Rightarrow> ('a, 'm) node \<Rightarrow> ('a, 'm) node result" where
  "do_action E cl (SendData i bs) = send_data i bs"
| "do_action E cl (SendMsg i msg) = send_msg E i msg"
| "do_action E cl (SendRawCmd i raw) = send_raw_cmd i raw"
| "do_action E cl (CloseSession i) = cl i"
| "do_action E cl (SetUtag i w) = update_session i (set_utag w)"
| "do_action E cl (SetUid i w) = update_session i (set_uid w)"

primrec run_prog ::
  "'m env \<Rightarrow> (sid \<Rightarrow> ('a, 'm) node \<Rightarrow> ('a, 'm) node result) \<Rightarrow> ('a, 'm) svc_prog
    \<Rightarrow> ('a, 'm) node \<Rightarrow> (bool \<times> ('a, 'm) node) result" where
  "run_prog E cl (Ret b) = (\<lambda>n. Inr (b, n))"
| "run_prog E cl (GetApp k) = (\<lambda>n. run_prog E cl (k (app n)) n)"
| "run_prog E cl (PutApp a p) = (\<lambda>n. run_prog E cl p (n\<lparr>app := a\<rparr>))"
| "run_prog E cl (AskSession i k) =
     (\<lambda>n. case sessions n i of
            None \<Rightarrow> Inl UseAfterFree
          | Some s \<Rightarrow> run_prog E cl (k (base_of s)) n)"
| "run_prog E cl (AskProtos k) = (\<lambda>n. run_prog E cl (k (protos n)) n)"
| "run_prog E cl (Fault e) = (\<lambda>n. Inl e)"
| "run_prog E cl (Do a p) = (\<lambda>n. rbind (do_action E cl a n) (run_prog E cl p))"

section \<open>Closing\<close>

text \<open>
  \<open>service_man::on_session_disconnect\<close> and \<open>on_session_connect\<close>: the loop over the slots.
\<close>

primrec notify_services ::
  "(nat \<Rightarrow> ('a, 'm) service \<Rightarrow> ('a, 'm) node \<Rightarrow> (bool \<times> ('a, 'm) node) result)
    \<Rightarrow> nat list \<Rightarrow> ('a, 'm) node \<Rightarrow> ('a, 'm) node result" where
  "notify_services f [] n = Inr n"
| "notify_services f (k # ks) n =
     (case g_service_set n ! k of
        None \<Rightarrow> notify_services f ks n
      | Some svc \<Rightarrow> rbind (f k svc n) (\<lambda>(_, n'). notify_services f ks n'))"

definition broadcast_disconnect ::
  "'m env \<Rightarrow> (sid \<Rightarrow> ('a, 'm) node \<Rightarrow> ('a, 'm) node result) \<Rightarrow> sid
    \<Rightarrow> ('a, 'm) node \<Rightarrow> ('a, 'm) node result" where
  "broadcast_disconnect E cl i =
     notify_services (\<lambda>k svc. run_prog E cl (on_session_disconnect svc i (int k))) [0..<MAX_SERVICE]"

definition broadcast_connect ::
  "'m env \<Rightarrow> (sid \<Rightarrow> ('a, 'm) node \<Rightarrow> ('a, 'm) node result) \<Rightarrow> sid
    \<Rightarrow> ('a, 'm) node \<Rightarrow> ('a, 'm) node result" where
  "broadcast_connect E cl i =
     notify_services (\<lambda>k svc. run_prog E cl (on_session_connect svc i (int k))) [0..<MAX_SERVICE]"

text \<open>The part of \<open>uv_session::close\<close> after the broadcast.\<close>

definition shutdown_session :: "'m env \<Rightarrow> sid \<Rightarrow> ('a, 'm) node \<Rightarrow> ('a, 'm) node result" where
  "shutdown_session E i n =
     (case sessions n i of
        Some (UvSession s) \<Rightarrow>
          (let n = put_session i (UvSession (s\<lparr>is_shutdown := True\<rparr>)) n;
               n = emit (UvShutdown i) n
           in Inr (if uv_shutdown_ret E i < 0 then emit (UvClose i) n else n))
      | _ \<Rightarrow> Inl UseAfterFree)"

primrec close_session ::
  "'m env \<Rightarrow> nat \<Rightarrow> sid \<Rightarrow> ('a, 'm) node \<Rightarrow> ('a, 'm) node result" where
  "close_session E 0 i n = Inl StackOverflow"
| "close_session E (Suc depth) i n =
     (case sessions n i of
        None \<Rightarrow> Inl UseAfterFree
      | Some (UdpSession s) \<Rightarrow> Inr n
      | Some (UvSession s) \<Rightarrow>
          if is_shutdown s then Inr n
          else rbind (broadcast_disconnect E (close_session E depth) i n) (shutdown_session E i))"

section \<open>Dispatch\<close>

definition on_recv_raw_cmd ::
  "'m env \<Rightarrow> nat \<Rightarrow> sid \<Rightarrow> raw_cmd \<Rightarrow> ('a, 'm) node \<Rightarrow> (bool \<times> ('a, 'm) node) result" where
  "on_recv_raw_cmd E depth i raw n =
     rbind (service_at (g_service_set n) (raw_stype raw)) (\<lambda>slot.
       case slot of
         None \<Rightarrow> Inr (False, n)
       | Some svc \<Rightarrow>
           if using_raw_cmd svc
           then run_prog E (close_session E depth) (on_session_recv_raw_cmd svc i raw) n
           else (case decode_cmd_msg (pb E) (raw_data raw) (raw_len raw) (protos n) of
                   (None, ps) \<Rightarrow> Inr (False, n\<lparr>protos := ps\<rparr>)
                 | (Some msg, ps) \<Rightarrow>
                     run_prog E (close_session E depth) (on_session_recv_cmd svc i msg)
                       (n\<lparr>protos := ps\<rparr>)))"

text \<open>\<open>on_recv_client_command\<close> of \<open>netbus.cc\<close>.\<close>

definition on_recv_client_command ::
  "'m env \<Rightarrow> nat \<Rightarrow> sid \<Rightarrow> byte list \<Rightarrow> int \<Rightarrow> ('a, 'm) node \<Rightarrow> ('a, 'm) node result" where
  "on_recv_client_command E depth i cmd len n =
     (case decode_raw_cmd cmd len of
        None \<Rightarrow> Inr n
      | Some raw \<Rightarrow>
          rbind (on_recv_raw_cmd E depth i raw n)
            (\<lambda>(ok, n). if ok then Inr n else close_session E depth i n))"

section \<open>What running a method can change\<close>

text \<open>The receiving side of a session, which no service can reach.\<close>

primrec conn_view :: "session \<Rightarrow> (socket_type \<times> int \<times> recv_state) option" where
  "conn_view (UvSession s) = Some (socket_type s, is_ws_shake s, rx s)"
| "conn_view (UdpSession s) = None"

primrec session_shut :: "session \<Rightarrow> bool" where
  "session_shut (UvSession s) = is_shutdown s"
| "session_shut (UdpSession s) = False"

definition shut :: "('a, 'm) node \<Rightarrow> sid \<Rightarrow> bool" where
  "shut n i = (case sessions n i of None \<Rightarrow> False | Some s \<Rightarrow> session_shut s)"

definition progress :: "('a, 'm) node \<Rightarrow> ('a, 'm) node \<Rightarrow> bool" where
  "progress n n' \<longleftrightarrow> g_service_set n' = g_service_set n \<and>
     (\<forall>i. map_option conn_view (sessions n' i) = map_option conn_view (sessions n i)) \<and>
     (\<forall>i. shut n i \<longrightarrow> shut n' i) \<and> (\<exists>es. events n' = events n @ es)"

named_theorems progress_intros

lemma progress_refl [progress_intros, simp]: "progress n n"
  by (simp add: progress_def)

lemma progress_trans: "progress n n' \<Longrightarrow> progress n' n'' \<Longrightarrow> progress n n''"
  by (auto simp: progress_def)

lemma progress_services: "progress n n' \<Longrightarrow> g_service_set n' = g_service_set n"
  by (simp add: progress_def)

lemma progress_conn:
  "progress n n' \<Longrightarrow> sessions n i = Some (UvSession s) \<Longrightarrow>
   \<exists>s'. sessions n' i = Some (UvSession s') \<and> rx s' = rx s \<and> socket_type s' = socket_type s
      \<and> is_ws_shake s' = is_ws_shake s"
proof -
  assume "progress n n'" and s: "sessions n i = Some (UvSession s)"
  then have "map_option conn_view (sessions n' i) = map_option conn_view (sessions n i)"
    by (simp add: progress_def)
  with s obtain t where "sessions n' i = Some t" "conn_view t = conn_view (UvSession s)"
    by auto
  then show ?thesis by (cases t) auto
qed

lemma progress_emit [progress_intros]: "progress n (emit e n)"
  by (auto simp: progress_def emit_def shut_def)

lemma progress_app [progress_intros]: "progress n (n\<lparr>app := a\<rparr>)"
  by (auto simp: progress_def shut_def)

lemma progress_protos [progress_intros]: "progress n (n\<lparr>protos := a\<rparr>)"
  by (auto simp: progress_def shut_def)

lemma progress_put:
  "sessions n i = Some s \<Longrightarrow> conn_view s' = conn_view s \<Longrightarrow> (session_shut s \<Longrightarrow> session_shut s')
   \<Longrightarrow> progress n (put_session i s' n)"
  by (auto simp: progress_def put_session_def shut_def)

lemma progress_send_data: "send_data i bs n = Inr n' \<Longrightarrow> progress n n'"
  by (auto simp: send_data_def uv_send_data_def emit_def progress_def shut_def Let_def
      split: option.splits session.splits if_splits prod.splits)

lemma progress_update:
  assumes "\<And>s. conn_view (f s) = conn_view s" "\<And>s. session_shut (f s) = session_shut s"
    and "update_session i f n = Inr n'"
  shows "progress n n'"
  using assms(3) by (auto simp: update_session_def assms(1,2) intro: progress_put split: option.splits)

lemma setters_view [simp]:
  "conn_view (set_utag w s) = conn_view s" "session_shut (set_utag w s) = session_shut s"
  "conn_view (set_uid w s) = conn_view s" "session_shut (set_uid w s) = session_shut s"
  by (cases s; simp)+

lemma progress_do_action:
  assumes "\<And>i n n'. cl i n = Inr n' \<Longrightarrow> progress n n'" "do_action E cl a n = Inr n'"
  shows "progress n n'"
proof (cases a)
  case (SendMsg i msg)
  with assms(2) show ?thesis
    by (auto simp: send_msg_def dest: progress_send_data split: sum.splits option.splits)
next
  case (SetUtag i w)
  with assms(2) progress_update [of "set_utag w" i n n'] show ?thesis by simp
next
  case (SetUid i w)
  with assms(2) progress_update [of "set_uid w" i n n'] show ?thesis by simp
qed (use assms in \<open>auto simp: send_raw_cmd_def dest: progress_send_data\<close>)

text \<open>The operations a method can perform, and the rule for invariants of methods.\<close>

primrec all_actions :: "('m action \<Rightarrow> bool) \<Rightarrow> ('a, 'm) svc_prog \<Rightarrow> bool" where
  "all_actions A (Ret b) = True"
| "all_actions A (GetApp k) = (\<forall>a. all_actions A (k a))"
| "all_actions A (PutApp a p) = all_actions A p"
| "all_actions A (AskSession i k) = (\<forall>s. all_actions A (k s))"
| "all_actions A (AskProtos k) = (\<forall>ps. all_actions A (k ps))"
| "all_actions A (Fault e) = True"
| "all_actions A (Do a p) = (A a \<and> all_actions A p)"

lemma all_actions_True [simp]: "all_actions (\<lambda>_. True) p"
  by (induction p) auto

lemma run_prog_inv:
  assumes "run_prog E cl p n = Inr (b, n')" "all_actions A p" "I n"
    and act: "\<And>a n n'. A a \<Longrightarrow> I n \<Longrightarrow> do_action E cl a n = Inr n' \<Longrightarrow> I n'"
    and app: "\<And>n a. I n \<Longrightarrow> I (n\<lparr>app := a\<rparr>)"
  shows "I n'"
  using assms(1-3)
proof (induction p arbitrary: n)
  case (AskSession i k)
  from AskSession.prems(1) obtain s where "run_prog E cl (k (base_of s)) n = Inr (b, n')"
    by (auto split: option.splits)
  with AskSession.IH [of "k (base_of s)" n] AskSession.prems show ?case by simp
next
  case (Do a p)
  then show ?case by (auto elim!: rbind_InrE intro: act)
qed (auto intro: app)

lemma notify_inv:
  assumes "notify_services f ks n = Inr n'" "I n"
    and step: "\<And>k svc n b n'. I n \<Longrightarrow> k \<in> set ks \<Longrightarrow> g_service_set n ! k = Some svc \<Longrightarrow>
      f k svc n = Inr (b, n') \<Longrightarrow> I n'"
  shows "I n'"
  using assms
proof (induction ks arbitrary: n)
  case (Cons k ks)
  show ?case
  proof (cases "g_service_set n ! k")
    case None
    with Cons.prems(1) have "notify_services f ks n = Inr n'" by simp
    then show ?thesis
      by (rule Cons.IH [OF _ Cons.prems(2)])
        (rule Cons.prems(3), assumption, erule list.set_intros(2), assumption+)
  next
    case (Some svc)
    with Cons.prems(1) obtain b m where f: "f k svc n = Inr (b, m)" and r: "notify_services f ks m = Inr n'"
      by (auto elim: rbind_InrE)
    have "I m" by (rule Cons.prems(3) [OF Cons.prems(2) _ Some f]) simp
    with r show ?thesis
      by (rule Cons.IH) (rule Cons.prems(3), assumption, erule list.set_intros(2), assumption+)
  qed
qed simp

lemma progress_run_prog:
  assumes "\<And>i n n'. cl i n = Inr n' \<Longrightarrow> progress n n'" "run_prog E cl p n = Inr (b, n')"
  shows "progress n n'"
  by (rule run_prog_inv [where I = "progress n", OF assms(2) all_actions_True])
    (auto intro: progress_trans progress_app progress_do_action [OF assms(1)])

lemma progress_shutdown: "shutdown_session E i n = Inr n' \<Longrightarrow> progress n n'"
proof -
  assume s: "shutdown_session E i n = Inr n'"
  then obtain u where u: "sessions n i = Some (UvSession u)"
    by (auto simp: shutdown_session_def split: option.splits session.splits)
  have "progress n (put_session i (UvSession (u\<lparr>is_shutdown := True\<rparr>)) n)" (is "progress n ?m")
    by (rule progress_put [OF u]) simp_all
  then have "progress n (emit (UvShutdown i) ?m)" by (rule progress_trans [OF _ progress_emit])
  with s u progress_trans [OF this progress_emit] show ?thesis
    by (auto simp: shutdown_session_def Let_def split: if_splits)
qed

lemma progress_close: "close_session E depth i n = Inr n' \<Longrightarrow> progress n n'"
proof (induction depth arbitrary: i n n')
  case (Suc depth)
  have "progress n m" if "broadcast_disconnect E (close_session E depth) i n = Inr m" for m
    by (rule notify_inv [where I = "progress n", OF that [unfolded broadcast_disconnect_def]])
      (auto elim!: progress_trans intro: progress_run_prog [OF Suc.IH])
  with Suc.prems show ?case
    by (auto split: option.splits session.splits if_splits elim!: rbind_InrE
        intro: progress_trans progress_shutdown)
qed simp

lemma progress_recv_raw: "on_recv_raw_cmd E depth i raw n = Inr (b, n') \<Longrightarrow> progress n n'"
  unfolding on_recv_raw_cmd_def
  by (auto elim!: rbind_InrE split: option.splits if_splits prod.splits
      intro: progress_run_prog [OF progress_close] progress_protos
        progress_trans [OF progress_protos progress_run_prog [OF progress_close]])

lemma progress_command: "on_recv_client_command E depth i cmd len n = Inr n' \<Longrightarrow> progress n n'"
  unfolding on_recv_client_command_def
  by (auto elim!: rbind_InrE split: option.splits if_splits
      intro: progress_recv_raw progress_trans [OF progress_recv_raw progress_close])

section \<open>Registries\<close>

text \<open>
  A table to which entries are added once and never replaced; a registration outside the valid
  keys, or of a taken one, is refused.
\<close>

locale registry =
  fixes lookup_reg :: "'t \<Rightarrow> 'k \<Rightarrow> 'v option"
    and reg :: "'k \<Rightarrow> 'v \<Rightarrow> 't \<Rightarrow> bool \<times> 't"
    and valid :: "'k \<Rightarrow> bool"
    and wf_reg :: "'t \<Rightarrow> bool"
  assumes reg_accepts: "wf_reg t \<Longrightarrow> valid k \<Longrightarrow> lookup_reg t k = None \<Longrightarrow>
      fst (reg k v t) \<and> lookup_reg (snd (reg k v t)) = (lookup_reg t)(k \<mapsto> v)"
    and reg_refuses: "wf_reg t \<Longrightarrow> \<not> valid k \<or> lookup_reg t k \<noteq> None \<Longrightarrow> reg k v t = (False, t)"
    and reg_wf: "wf_reg t \<Longrightarrow> wf_reg (snd (reg k v t))"
    and lookup_valid: "wf_reg t \<Longrightarrow> \<not> valid k \<Longrightarrow> lookup_reg t k = None"
begin

definition reg_all :: "('k \<times> 'v) list \<Rightarrow> 't \<Rightarrow> 't" where
  "reg_all kvs t = fold (\<lambda>(k, v) t. snd (reg k v t)) kvs t"

lemma reg_lookup:
  "wf_reg t \<Longrightarrow> lookup_reg (snd (reg k v t)) =
     (if valid k \<and> lookup_reg t k = None then (lookup_reg t)(k \<mapsto> v) else lookup_reg t)"
  using reg_accepts reg_refuses by (cases "valid k \<and> lookup_reg t k = None") force+

lemma reg_result: "wf_reg t \<Longrightarrow> fst (reg k v t) \<longleftrightarrow> valid k \<and> lookup_reg t k = None"
  using reg_accepts reg_refuses by (cases "valid k \<and> lookup_reg t k = None") force+

lemma reg_all_wf: "wf_reg t \<Longrightarrow> wf_reg (reg_all kvs t)"
proof (induction kvs rule: rev_induct)
  case (snoc kv kvs)
  then show ?case by (cases kv) (simp add: reg_all_def reg_wf)
qed (simp add: reg_all_def)

lemma reg_all_lookup:
  "wf_reg t \<Longrightarrow> valid k \<Longrightarrow>
   lookup_reg (reg_all kvs t) k = (case lookup_reg t k of None \<Rightarrow> map_of kvs k | Some v \<Rightarrow> Some v)"
proof (induction kvs arbitrary: t)
  case Nil
  then show ?case by (simp add: reg_all_def split: option.splits)
next
  case (Cons kv kvs)
  obtain k' v' where kv: "kv = (k', v')" by fastforce
  have "reg_all (kv # kvs) t = reg_all kvs (snd (reg k' v' t))"
    by (simp add: reg_all_def kv)
  with Cons.IH [OF reg_wf [OF Cons.prems(1)] Cons.prems(2), of k' v'] Cons.prems show ?case
    by (auto simp: kv reg_lookup split: option.splits)
qed

end

definition slot_of :: "('a, 'm) service option list \<Rightarrow> int \<Rightarrow> ('a, 'm) service option" where
  "slot_of tab st = (case service_at tab st of Inl e \<Rightarrow> None | Inr s \<Rightarrow> s)"

interpretation services: registry slot_of register_service
  "\<lambda>st. 0 \<le> st \<and> st < int MAX_SERVICE" "\<lambda>tab. length tab = MAX_SERVICE"
proof unfold_locales
  fix tab :: "('a, 'm) service option list" and st s
  assume "length tab = MAX_SERVICE" "0 \<le> st \<and> st < int MAX_SERVICE" "slot_of tab st = None"
  then show "fst (register_service st s tab) \<and>
      slot_of (snd (register_service st s tab)) = (slot_of tab)(st \<mapsto> s)"
    by (auto simp: register_service_def slot_of_def service_at_def nth_list_update fun_eq_iff)
next
  fix tab :: "('a, 'm) service option list" and st s
  assume "length tab = MAX_SERVICE" "\<not> (0 \<le> st \<and> st < int MAX_SERVICE) \<or> slot_of tab st \<noteq> None"
  then show "register_service st s tab = (False, tab)"
    by (auto simp: register_service_def slot_of_def service_at_def split: if_splits)
qed (auto simp: register_service_def slot_of_def service_at_def)

section \<open>Properties\<close>

text \<open>
  C20: Registration. After any sequence of registrations into the table \<open>init\<close> leaves, the
  dispatcher finds for a service type in range the first service registered for it, and finds
  none for a type nobody registered; later registrations of a taken type, and registrations out
  of range, have changed nothing.
\<close>

theorem first_registration_wins:
  assumes "0 \<le> st" "st < 1024"
  shows "service_at (fold (\<lambda>(k, s) tab. snd (register_service k s tab)) regs
             (g_service_set (service_man_init n))) st = Inr (map_of regs st)"
proof -
  let ?init = "g_service_set (service_man_init n)"
  let ?t = "fold (\<lambda>(k, s) tab. snd (register_service k s tab)) regs ?init"
  have l0: "length ?init = MAX_SERVICE" by (simp add: service_man_init_def)
  have "slot_of ?init st = None" using assms by (simp add: service_man_init_def slot_of_def service_at_def MAX_SERVICE_def)
  with services.reg_all_lookup [OF l0, of st regs] assms
  have "slot_of ?t st = map_of regs st"
    by (simp add: services.reg_all_def MAX_SERVICE_def)
  moreover have "length ?t = MAX_SERVICE"
    using services.reg_all_wf [OF l0, of regs] by (simp only: services.reg_all_def)
  ultimately show ?thesis
    using assms by (simp add: slot_of_def service_at_def MAX_SERVICE_def split: sum.splits)
qed

theorem first_registration_wins_witness:
  "\<forall>n. service_at (fold (\<lambda>(k, s) tab. snd (register_service k s tab))
       [(7, service_default :: (unit, unit) service), (7, service_default\<lparr>using_raw_cmd := True\<rparr>)]
       (g_service_set (service_man_init n))) 7 = Inr (Some service_default)"
proof
  fix n :: "(unit, unit) node"
  show "service_at (fold (\<lambda>(k, s) tab. snd (register_service k s tab))
       [(7, service_default :: (unit, unit) service), (7, service_default\<lparr>using_raw_cmd := True\<rparr>)]
       (g_service_set (service_man_init n))) 7 = Inr (Some service_default)"
    using first_registration_wins [of 7
        "[(7, service_default), (7, service_default\<lparr>using_raw_cmd := True\<rparr>)]" n]
    by simp
qed

text \<open>
  C38: The table is indexed with the type field of the packet as received. Whatever services are
  registered, a packet of 8 bytes or more whose type field is 1024 or larger makes the server
  read outside \<open>g_service_set\<close>: any peer that can connect can do that.
\<close>

theorem service_type_out_of_bounds:
  assumes "length (g_service_set n) = MAX_SERVICE" "8 \<le> len"
    and "1024 \<le> unat (le16 (cmd ! 0) (cmd ! 1))"
  shows "on_recv_client_command E depth i cmd len n = Inl OutOfBounds"
proof -
  have "sint (le16 (cmd ! 0) (cmd ! 1)) = int (unat (le16 (cmd ! 0) (cmd ! 1)))"
    using unat_le16_lt [of "cmd ! 0" "cmd ! 1"] by (intro sint_u32_small) simp
  then have "1024 \<le> sint (le16 (cmd ! 0) (cmd ! 1))" using assms(3) by linarith
  with assms(1) have "service_at (g_service_set n) (sint (le16 (cmd ! 0) (cmd ! 1))) = Inl OutOfBounds"
    by (simp add: service_at_def MAX_SERVICE_def)
  with assms(2) show ?thesis
    by (simp add: on_recv_client_command_def on_recv_raw_cmd_def decode_raw_cmd_def CMD_HEADER_def)
qed

theorem service_type_out_of_bounds_witness:
  "\<forall>E depth n. on_recv_client_command E depth 1 [0, 4, 0, 0, 0, 0, 0, 0] 8 (service_man_init n) = Inl OutOfBounds"
  by (intro allI, rule service_type_out_of_bounds)
    (simp_all add: service_man_init_def unat_le16)

section \<open>Closing and the disconnect methods\<close>

primrec is_close :: "'m action \<Rightarrow> bool" where
  "is_close (SendData i bs) = False"
| "is_close (SendMsg i msg) = False"
| "is_close (SendRawCmd i raw) = False"
| "is_close (CloseSession i) = True"
| "is_close (SetUtag i w) = False"
| "is_close (SetUid i w) = False"

abbreviation close_free :: "('a, 'm) svc_prog \<Rightarrow> bool" where
  "close_free \<equiv> all_actions (\<lambda>a. \<not> is_close a)"

text \<open>Services whose disconnect methods close no session.\<close>

definition quiet :: "('a, 'm) service option list \<Rightarrow> bool" where
  "quiet tab \<longleftrightarrow> (\<forall>svc i k. Some svc \<in> set tab \<longrightarrow> close_free (on_session_disconnect svc i k))"

lemma run_prog_close_free: "close_free p \<Longrightarrow> run_prog E cl p n = run_prog E cl' p n"
proof (induction p arbitrary: n)
  case (GetApp k)
  from GetApp.prems have "close_free (k (app n))" by simp
  from GetApp.IH [OF rangeI this, of n] show ?case by (simp only: run_prog.simps)
next
  case (AskProtos k)
  from AskProtos.prems have "close_free (k (protos n))" by simp
  from AskProtos.IH [OF rangeI this, of n] show ?case by (simp only: run_prog.simps)
next
  case (AskSession i k)
  have "run_prog E cl (k b) n = run_prog E cl' (k b) n" for b
    using AskSession.IH [OF rangeI, of b n] AskSession.prems by simp
  then show ?case by (simp only: run_prog.simps)
next
  case (PutApp a p)
  then show ?case by (simp only: run_prog.simps all_actions.simps)
next
  case (Do a p)
  then have "do_action E cl a n = do_action E cl' a n" by (cases a) simp_all
  moreover have "run_prog E cl p = run_prog E cl' p"
    by (rule ext, rule Do.IH) (use Do.prems in simp)
  ultimately show ?case by (simp only: run_prog.simps)
qed (simp_all only: run_prog.simps)

lemma notify_cong:
  assumes "\<And>k svc n. k \<in> set ks \<Longrightarrow> tab ! k = Some svc \<Longrightarrow> f k svc n = g k svc n"
    and "\<And>k svc n b n'. f k svc n = Inr (b, n') \<Longrightarrow> g_service_set n' = g_service_set n"
    and "g_service_set n = tab"
  shows "notify_services f ks n = notify_services g ks n"
  using assms(1,3)
proof (induction ks arbitrary: n)
  case (Cons k ks)
  have IH: "notify_services f ks m = notify_services g ks m" if "g_service_set m = tab" for m
    by (rule Cons.IH [OF _ that], rule Cons.prems(1)) (simp_all only: list.set_intros)
  show ?case
  proof (cases "tab ! k")
    case None
    then show ?thesis using IH [OF Cons.prems(2)] Cons.prems(2)
      by (simp only: notify_services.simps option.case)
  next
    case (Some svc)
    then have e: "f k svc n = g k svc n" by (intro Cons.prems(1)) simp_all
    have "notify_services f ks m = notify_services g ks m" if "g k svc n = Inr (b, m)" for b m
      by (rule IH) (use assms(2) [of k svc n b m] that e Cons.prems(2) in metis)
    with e Some Cons.prems(2) show ?thesis by (cases "g k svc n") auto
  qed
qed (simp only: notify_services.simps)

lemma quiet_broadcast:
  assumes "quiet (g_service_set n)" "length (g_service_set n) = MAX_SERVICE"
  shows "broadcast_disconnect E (close_session E d) i n = broadcast_disconnect E (close_session E d') i n"
  unfolding broadcast_disconnect_def
proof (rule notify_cong [OF _ _ refl])
  fix k svc m
  assume "k \<in> set [0..<MAX_SERVICE]" "g_service_set n ! k = Some svc"
  then have "Some svc \<in> set (g_service_set n)" using assms(2) by (metis atLeastLessThan_iff nth_mem set_upt)
  with assms(1) have "close_free (on_session_disconnect svc i (int k))" by (simp add: quiet_def)
  then show "run_prog E (close_session E d) (on_session_disconnect svc i (int k)) m =
      run_prog E (close_session E d') (on_session_disconnect svc i (int k)) m"
    by (rule run_prog_close_free)
next
  fix k svc m b m'
  assume "run_prog E (close_session E d) (on_session_disconnect svc i (int k)) m = Inr (b, m')"
  then show "g_service_set m' = g_service_set m"
    by (intro progress_services progress_run_prog [OF progress_close])
qed

lemma quiet_close_depth:
  assumes "quiet (g_service_set n)" "length (g_service_set n) = MAX_SERVICE"
  shows "close_session E (Suc d) i n = close_session E 1 i n"
  using quiet_broadcast [OF assms, of E d i 0]
  by (simp split: option.splits session.splits)

text \<open>How many times a session was told to shut down, against its flag.\<close>

definition shutdown_once :: "('a, 'm) node \<Rightarrow> bool" where
  "shutdown_once n \<longleftrightarrow>
     (\<forall>i s. sessions n i = Some s \<longrightarrow>
        count_list (events n) (UvShutdown i) = (if session_shut s then 1 else 0))"

text \<open>What everything but closing leaves alone: the flags and the shutdown events.\<close>

definition same_shut :: "('a, 'm) node \<Rightarrow> ('a, 'm) node \<Rightarrow> bool" where
  "same_shut n n' \<longleftrightarrow> g_service_set n' = g_service_set n \<and>
     (\<forall>i. map_option session_shut (sessions n' i) = map_option session_shut (sessions n i)) \<and>
     (\<forall>i. count_list (events n') (UvShutdown i) = count_list (events n) (UvShutdown i))"

lemma same_shut_refl [simp]: "same_shut n n"
  by (simp add: same_shut_def)

lemma same_shut_trans: "same_shut n n' \<Longrightarrow> same_shut n' n'' \<Longrightarrow> same_shut n n''"
  by (simp add: same_shut_def)

lemma same_shut_simps [simp]:
  "same_shut n (n\<lparr>app := a\<rparr>)" "same_shut n (n\<lparr>protos := ps\<rparr>)"
  by (simp_all add: same_shut_def)

lemma same_shut_once: "same_shut n n' \<Longrightarrow> shutdown_once n \<Longrightarrow> shutdown_once n'"
  unfolding same_shut_def shutdown_once_def
  by (metis (no_types, lifting) map_option_eq_Some)

lemma same_shut_send_data: "send_data i bs n = Inr n' \<Longrightarrow> same_shut n n'"
  by (auto simp: send_data_def uv_send_data_def emit_def same_shut_def Let_def
      split: option.splits session.splits if_splits prod.splits)

lemma same_shut_update:
  assumes "\<And>s. session_shut (f s) = session_shut s" "update_session i f n = Inr n'"
  shows "same_shut n n'"
  using assms(2) by (auto simp: update_session_def put_session_def same_shut_def assms(1) split: option.splits)

lemma same_shut_do_action:
  assumes "\<not> is_close a" "do_action E cl a n = Inr n'"
  shows "same_shut n n'"
proof (cases a)
  case (SendMsg i msg)
  with assms(2) show ?thesis
    by (auto simp: send_msg_def dest: same_shut_send_data split: sum.splits option.splits)
next
  case (SetUtag i w)
  with assms(2) same_shut_update [of "set_utag w" i n n'] show ?thesis by simp
next
  case (SetUid i w)
  with assms(2) same_shut_update [of "set_uid w" i n n'] show ?thesis by simp
qed (use assms in \<open>auto simp: send_raw_cmd_def dest: same_shut_send_data\<close>)

lemma same_shut_run_prog:
  assumes "close_free p" "run_prog E cl p n = Inr (b, n')"
  shows "same_shut n n'"
  by (rule run_prog_inv [where I = "same_shut n", OF assms(2,1)])
    (auto intro: same_shut_trans same_shut_do_action)

lemma same_shut_broadcast:
  assumes "quiet (g_service_set n)" "length (g_service_set n) = MAX_SERVICE"
    and "broadcast_disconnect E cl i n = Inr n'"
  shows "same_shut n n'"
proof (rule notify_inv [where I = "same_shut n", OF assms(3) [unfolded broadcast_disconnect_def]])
  fix k svc m b m'
  assume m: "same_shut n m" and k: "k \<in> set [0..<MAX_SERVICE]" "g_service_set m ! k = Some svc"
    and r: "run_prog E cl (on_session_disconnect svc i (int k)) m = Inr (b, m')"
  have "Some svc \<in> set (g_service_set n)"
    using m k assms(2) unfolding same_shut_def by (metis atLeastLessThan_iff nth_mem set_upt)
  with assms(1) have "close_free (on_session_disconnect svc i (int k))" by (simp add: quiet_def)
  from same_shut_run_prog [OF this r] m show "same_shut n m'" by (metis same_shut_trans)
qed simp

lemma shutdown_session_result:
  assumes "shutdown_session E i n = Inr n'"
  shows "\<exists>s. sessions n' = (sessions n)(i \<mapsto> UvSession s) \<and> is_shutdown s"
    "count_list (events n') (UvShutdown j) =
       count_list (events n) (UvShutdown j) + (if j = i then 1 else 0)"
    "g_service_set n' = g_service_set n"
  using assms
  by (auto simp: shutdown_session_def Let_def put_session_def emit_def fun_upd_def
      split: option.splits session.splits if_splits)

lemma shutdown_once_close:
  assumes "quiet (g_service_set n)" "length (g_service_set n) = MAX_SERVICE"
    and "shutdown_once n" "close_session E depth i n = Inr n'"
  shows "shutdown_once n'"
proof (cases "n' = n")
  case False
  with assms(4) obtain d s m where d: "depth = Suc d" and s: "sessions n i = Some (UvSession s)"
    and o: "\<not> is_shutdown s" and b: "broadcast_disconnect E (close_session E d) i n = Inr m"
    and h: "shutdown_session E i m = Inr n'"
    by (cases depth) (auto split: option.splits session.splits if_splits elim: rbind_InrE)
  note m = same_shut_broadcast [OF assms(1,2) b]
  have "shutdown_once m" by (rule same_shut_once [OF m assms(3)])
  moreover have "map_option session_shut (sessions m i) = Some False"
    using m s o by (simp add: same_shut_def)
  ultimately have "count_list (events m) (UvShutdown i) = 0"
    unfolding shutdown_once_def by (metis (no_types, lifting) map_option_eq_Some)
  with shutdown_session_result [OF h] \<open>shutdown_once m\<close> show ?thesis
    unfolding shutdown_once_def by (auto split: if_splits)
qed (use assms(3) in simp)

lemma notify_append:
  "notify_services f (xs @ ys) n = rbind (notify_services f xs n) (notify_services f ys)"
proof (induction xs arbitrary: n)
  case (Cons x xs)
  show ?case
  proof (cases "g_service_set n ! x")
    case None
    with Cons.IH [of n] show ?thesis by simp
  next
    case (Some svc)
    with Cons.IH show ?thesis
      by (auto simp: rbind_assoc case_prod_unfold intro!: arg_cong [where f = "rbind (f x svc n)"])
  qed
qed simp

lemma notify_none: "(\<And>k. k \<in> set ks \<Longrightarrow> g_service_set n ! k = None) \<Longrightarrow> notify_services f ks n = Inr n"
  by (induction ks) simp_all

text \<open>A table with one service: the broadcast is that service's method.\<close>

lemma notify_single:
  assumes "k < MAX_SERVICE" "g_service_set n ! k = Some svc"
    and "\<And>j. j < MAX_SERVICE \<Longrightarrow> j \<noteq> k \<Longrightarrow> g_service_set n ! j = None"
    and "\<And>b n'. f k svc n = Inr (b, n') \<Longrightarrow> g_service_set n' = g_service_set n"
  shows "notify_services f [0..<MAX_SERVICE] n = rbind (f k svc n) (\<lambda>(_, n'). Inr n')"
proof -
  have "[0..<MAX_SERVICE] = [0..<k] @ k # [Suc k..<MAX_SERVICE]"
    using assms(1) by (metis le0 less_imp_le_nat upt_add_eq_append upt_conv_Cons le_add_diff_inverse)
  moreover have "notify_services f [0..<k] n = Inr n"
    by (rule notify_none) (use assms(1,3) in simp)
  moreover have "notify_services f [Suc k..<MAX_SERVICE] n' = Inr n'"
    if "g_service_set n' = g_service_set n" for n'
    by (rule notify_none) (use assms(3) that in simp)
  ultimately show ?thesis
    using assms(2,4) by (cases "f k svc n") (auto simp: notify_append)
qed

section \<open>Properties of closing\<close>

text \<open>
  The disconnect methods come to their end at every state they can be called in while session
  \<open>i\<close> of \<open>n\<close> is closed: they touch no dead session and make no fault of their own. The close
  they are given is the one with no stack left, so nothing is supposed of closing itself.
\<close>

definition methods_return :: "'m env \<Rightarrow> sid \<Rightarrow> ('a, 'm) node \<Rightarrow> bool" where
  "methods_return E i n \<longleftrightarrow>
     (\<forall>k svc m. k < MAX_SERVICE \<and> g_service_set n ! k = Some svc \<and> progress n m \<longrightarrow>
        (\<exists>r. run_prog E (close_session E 0) (on_session_disconnect svc i (int k)) m = Inr r))"

lemma notify_returns:
  assumes "I n"
    and "\<And>k svc m. k \<in> set ks \<Longrightarrow> I m \<Longrightarrow> g_service_set m ! k = Some svc \<Longrightarrow>
      \<exists>b m'. f k svc m = Inr (b, m') \<and> I m'"
  shows "\<exists>m. notify_services f ks n = Inr m \<and> I m"
  using assms
proof (induction ks arbitrary: n)
  case (Cons k ks)
  have IH: "\<exists>m'. notify_services f ks m = Inr m' \<and> I m'" if "I m" for m
    by (rule Cons.IH [OF that]) (rule Cons.prems(2), simp_all)
  show ?case
  proof (cases "g_service_set n ! k")
    case None
    with IH [OF Cons.prems(1)] show ?thesis by simp
  next
    case (Some svc)
    with Cons.prems(2) [of k n svc] Cons.prems(1) IH show ?thesis by fastforce
  qed
qed simp

lemma broadcast_returns:
  assumes "methods_return E i n"
  shows "\<exists>m. broadcast_disconnect E (close_session E 0) i n = Inr m \<and> progress n m"
  unfolding broadcast_disconnect_def
proof (rule notify_returns [where I = "progress n"])
  fix k svc m
  assume "k \<in> set [0..<MAX_SERVICE]" and m: "progress n m" and "g_service_set m ! k = Some svc"
  with assms obtain b m' where r: "run_prog E (close_session E 0) (on_session_disconnect svc i (int k)) m = Inr (b, m')"
    unfolding methods_return_def using progress_services [OF m] by fastforce
  have "progress m m'" by (rule progress_run_prog [OF progress_close r])
  with r m progress_trans show "\<exists>b m'. run_prog E (close_session E 0)
      (on_session_disconnect svc i (int k)) m = Inr (b, m') \<and> progress n m'" by blast
qed simp

lemma shutdown_returns:
  assumes "sessions n i = Some (UvSession s)"
  shows "\<exists>n'. shutdown_session E i n = Inr n'"
  using assms by (simp add: shutdown_session_def Let_def)

text \<open>
  C12: When no disconnect method closes a session itself and each of them comes to its end,
  closing an open session returns: at every depth of the stack, with the same result, so there
  is no recursion. The services are told first; then the session is shut down, libuv is told
  so exactly once, and no other session's flag has changed. Closing it again does nothing.
\<close>

theorem quiet_close:
  assumes "quiet (g_service_set n)" "length (g_service_set n) = MAX_SERVICE"
    and "methods_return E i n"
    and "shutdown_once n" "sessions n i = Some (UvSession s)" "\<not> is_shutdown s"
  shows "\<exists>m n'. broadcast_disconnect E (close_session E 0) i n = Inr m \<and>
    shutdown_session E i m = Inr n' \<and>
    (\<forall>depth. close_session E (Suc depth) i n = Inr n' \<and> close_session E (Suc depth) i n' = Inr n') \<and>
    shut n' i \<and> count_list (events n') (UvShutdown i) = 1 \<and>
    (\<forall>j. j \<noteq> i \<longrightarrow> shut n' j = shut n j)"
proof -
  obtain m where b: "broadcast_disconnect E (close_session E 0) i n = Inr m" and p: "progress n m"
    using broadcast_returns [OF assms(3)] by blast
  from progress_conn [OF p assms(5)] shutdown_returns obtain n' where h: "shutdown_session E i m = Inr n'"
    by blast
  have "close_session E 1 i n = Inr n'" using assms(5,6) b h by simp
  then have c: "close_session E (Suc depth) i n = Inr n'" for depth
    using quiet_close_depth [OF assms(1,2), of E depth i] by (simp only:)
  note m = same_shut_broadcast [OF assms(1,2) b]
  obtain t where t: "sessions n' = (sessions m)(i \<mapsto> UvSession t)" "is_shutdown t"
    using shutdown_session_result(1) [OF h] by blast
  have one: "shutdown_once n'" by (rule shutdown_once_close [OF assms(1,2,4) c])
  have "shut m j = shut n j" for j
  proof -
    have "map_option session_shut (sessions m j) = map_option session_shut (sessions n j)"
      using m by (simp add: same_shut_def)
    then show ?thesis by (auto simp: shut_def split: option.splits)
  qed
  then have "\<forall>j. j \<noteq> i \<longrightarrow> shut n' j = shut n j" by (simp add: shut_def t)
  moreover have "count_list (events n') (UvShutdown i) = 1"
    using one t by (auto simp: shutdown_once_def)
  moreover have "shut n' i" "\<forall>depth. close_session E (Suc depth) i n' = Inr n'"
    using t by (simp_all add: shut_def)
  ultimately show ?thesis using b h c by blast
qed

text \<open>
  C37: The flag is set only after the services have been told. If a service's disconnect method
  closes the session it is told about, the flag is still clear, the services are told again,
  and so on: no depth of the stack is enough.
\<close>

theorem close_in_disconnect_never_returns:
  assumes "k < MAX_SERVICE" "g_service_set n ! k = Some svc"
    and "\<And>j. j < MAX_SERVICE \<Longrightarrow> j \<noteq> k \<Longrightarrow> g_service_set n ! j = None"
    and "on_session_disconnect svc i (int k) = Do (CloseSession i) p"
    and "sessions n i = Some (UvSession s)" "\<not> is_shutdown s"
  shows "close_session E depth i n = Inl StackOverflow"
proof (induction depth)
  case (Suc depth)
  have "broadcast_disconnect E (close_session E depth) i n =
      rbind (run_prog E (close_session E depth) (Do (CloseSession i) p) n) (\<lambda>(_, n'). Inr n')"
    unfolding broadcast_disconnect_def
    by (subst notify_single [where k = k and svc = svc])
      (use assms in \<open>auto simp: Suc.IH\<close>)
  with Suc.IH assms(5,6) show ?case by simp
qed simp

text \<open>A node with one open TCP session and one service in slot 3.\<close>

definition demo_node :: "('a, 'm) service \<Rightarrow> 'a \<Rightarrow> ('a, 'm) node" where
  "demo_node svc a =
     \<lparr>sessions = [1 \<mapsto> UvSession (uv_session_create (replicate 4096 0) TCP_SOCKET)],
      g_service_set = (replicate MAX_SERVICE None)[3 := Some svc], protos = proto_state_init,
      app = a, respones = replicate RESPONES_LEN 0, wr_live = 0, events = []\<rparr>"

lemma demo_node_table:
  "length (g_service_set (demo_node svc a)) = MAX_SERVICE"
  "g_service_set (demo_node svc a) ! 3 = Some svc"
  "j < MAX_SERVICE \<Longrightarrow> j \<noteq> 3 \<Longrightarrow> g_service_set (demo_node svc a) ! j = None"
  by (simp_all add: demo_node_def MAX_SERVICE_def)

lemma demo_node_session:
  "sessions (demo_node svc a) 1 = Some (UvSession (uv_session_create (replicate 4096 0) TCP_SOCKET))"
  "\<not> is_shutdown (uv_session_create b t)"
  by (simp_all add: demo_node_def uv_session_create_def)

definition demo_env :: "byte list env" where
  "demo_env = \<lparr>pb = echo_pb, wbuf = (\<lambda>n. replicate (n + 1) 0), uv_shutdown_ret = (\<lambda>_. 0)\<rparr>"

definition closing_service :: "(unit, byte list) service" where
  "closing_service = service_default\<lparr>on_session_disconnect := (\<lambda>i _. Do (CloseSession i) (Ret True))\<rparr>"

theorem close_in_disconnect_never_returns_witness:
  "close_session demo_env 1000 1 (demo_node closing_service ()) = Inl StackOverflow"
  by (rule close_in_disconnect_never_returns [where k = 3 and svc = closing_service,
        OF _ demo_node_table(2) demo_node_table(3) _ demo_node_session])
    (simp_all add: MAX_SERVICE_def closing_service_def)

lemma demo_quiet:
  assumes "\<And>i k. close_free (on_session_disconnect svc i k)"
  shows "quiet (g_service_set (demo_node svc a))"
proof -
  have "set (g_service_set (demo_node svc a)) \<subseteq> insert (Some svc) {None}"
    unfolding demo_node_def
    using set_update_subset_insert [of "replicate MAX_SERVICE None" 3 "Some svc"]
    by (auto simp: set_replicate_conv_if split: if_splits)
  with assms show ?thesis by (auto simp: quiet_def)
qed

text \<open>A service that counts the sessions that leave, and takes the user off them.\<close>

definition counting_service :: "(nat, byte list) service" where
  "counting_service = service_default\<lparr>on_session_disconnect :=
     (\<lambda>i _. GetApp (\<lambda>a. PutApp (a + 1) (Do (SetUid i 0) (Ret True))))\<rparr>"

lemma counting_returns: "methods_return demo_env 1 (demo_node counting_service 0)"
  unfolding methods_return_def
proof (intro allI impI, elim conjE)
  fix k svc m
  assume k: "k < MAX_SERVICE" "g_service_set (demo_node counting_service 0) ! k = Some svc"
    and p: "progress (demo_node counting_service 0) m"
  have "svc = counting_service"
    using k demo_node_table(2) [of counting_service 0] demo_node_table(3) [of k counting_service 0]
    by (cases "k = 3") simp_all
  moreover obtain s where "sessions m 1 = Some (UvSession s)"
    using progress_conn [OF p demo_node_session(1)] by blast
  ultimately show "\<exists>r. run_prog demo_env (close_session demo_env 0) (on_session_disconnect svc 1 (int k)) m = Inr r"
    by (auto simp: counting_service_def update_session_def)
qed

theorem quiet_close_witness:
  "\<exists>n'. close_session demo_env 5 1 (demo_node counting_service 0) = Inr n' \<and> shut n' 1 \<and>
     count_list (events n') (UvShutdown 1) = 1 \<and> close_session demo_env 9 1 n' = Inr n'"
proof -
  let ?n = "demo_node counting_service 0"
  have s5: "Suc 4 = 5" "Suc 8 = 9" by simp_all
  have "quiet (g_service_set ?n)" by (rule demo_quiet) (simp add: counting_service_def)
  moreover have "shutdown_once ?n"
    by (auto simp: shutdown_once_def demo_node_def uv_session_create_def)
  ultimately show ?thesis
    using quiet_close [OF _ demo_node_table(1) counting_returns _ demo_node_session] unfolding s5 [symmetric]
    by blast
qed

end
