(* ===== verification/Framing.thy ===== *)
theory Framing
  imports Tp_Protocol Ws_Frame
begin

text \<open>
  Cutting a byte stream into frames. \<open>frames hdr bs\<close> is the specification: the complete
  frames at the front of \<open>bs\<close>, each with its header size, and the bytes left over. The locale
  \<open>framing\<close> states what a header reader promises (it looks at the received bytes only, and
  bytes that arrive later do not change what it has read); from it follow the independence of
  the cut from how the bytes were delivered. It is interpreted on both readers of the server.
\<close>

section \<open>The specification\<close>

text \<open>
  A header that asks for no byte at all stops the cut: nothing would be consumed. That is the
  case in which the receive loops do not end (theory \<open>Netbus\<close>).
\<close>

function frames :: "(byte list \<Rightarrow> int \<Rightarrow> (int \<times> int) option) \<Rightarrow> byte list
    \<Rightarrow> (byte list \<times> int) list \<times> byte list" where
  "frames hdr bs =
     (if bs = [] then ([], [])
      else case hdr bs (int (length bs)) of
        None \<Rightarrow> ([], bs)
      | Some (pkg_size, head_size) \<Rightarrow>
          if int (length bs) < pkg_size \<or> pkg_size \<le> 0 then ([], bs)
          else (let (fs, rest) = frames hdr (drop (nat pkg_size) bs)
                in ((take (nat pkg_size) bs, head_size) # fs, rest)))"
  by pat_completeness auto
termination
  by (relation "measure (\<lambda>(hdr, bs). length bs)") auto

declare frames.simps [simp del]

lemma frames_Nil [simp]: "frames hdr [] = ([], [])"
  by (simp add: frames.simps)

text \<open>A frame at the front that is complete, and a front that is not.\<close>

definition frame_at :: "(byte list \<Rightarrow> int \<Rightarrow> (int \<times> int) option) \<Rightarrow> byte list \<Rightarrow> (int \<times> int) option" where
  "frame_at hdr bs =
     (if bs = [] then None
      else case hdr bs (int (length bs)) of
        None \<Rightarrow> None
      | Some (pkg_size, head_size) \<Rightarrow>
          if int (length bs) < pkg_size \<or> pkg_size \<le> 0 then None else Some (pkg_size, head_size))"

definition zero_size_at :: "(byte list \<Rightarrow> int \<Rightarrow> (int \<times> int) option) \<Rightarrow> byte list \<Rightarrow> bool" where
  "zero_size_at hdr bs \<longleftrightarrow>
     bs \<noteq> [] \<and> (\<exists>p h. hdr bs (int (length bs)) = Some (p, h) \<and> p \<le> 0)"

lemma frames_None: "frame_at hdr bs = None \<Longrightarrow> frames hdr bs = ([], bs)"
  by (subst frames.simps) (auto simp: frame_at_def split: option.splits if_splits)

lemma frames_Some:
  "frame_at hdr bs = Some (p, h) \<Longrightarrow>
   frames hdr bs = ((take (nat p) bs, h) # fst (frames hdr (drop (nat p) bs)),
                    snd (frames hdr (drop (nat p) bs)))"
  by (subst frames.simps) (auto simp: frame_at_def split: option.splits if_splits prod.splits)

lemma frame_at_bounds:
  "frame_at hdr bs = Some (p, h) \<Longrightarrow> 0 < p \<and> p \<le> int (length bs) \<and> bs \<noteq> []"
  by (auto simp: frame_at_def split: option.splits if_splits)

lemma frames_induct [case_names stop frame]:
  assumes "\<And>bs. frame_at hdr bs = None \<Longrightarrow> P bs"
    and "\<And>bs p h. frame_at hdr bs = Some (p, h) \<Longrightarrow> P (drop (nat p) bs) \<Longrightarrow> P bs"
  shows "P bs"
proof (induction bs rule: length_induct)
  case (1 bs)
  show ?case
  proof (cases "frame_at hdr bs")
    case None
    then show ?thesis by (rule assms(1))
  next
    case (Some ph)
    obtain p h where ph: "ph = (p, h)" by fastforce
    with Some frame_at_bounds [of hdr bs p h] have "length (drop (nat p) bs) < length bs"
      by auto
    with 1 Some ph assms(2) show ?thesis by blast
  qed
qed

text \<open>The frames and the rest are the stream, in order.\<close>

lemma frames_concat: "concat (map fst (fst (frames hdr bs))) @ snd (frames hdr bs) = bs"
proof (induction bs rule: frames_induct [of hdr])
  case (stop bs)
  then show ?case by (simp add: frames_None)
next
  case (frame bs p h)
  then show ?case by (simp add: frames_Some)
qed

lemma frames_rest_incomplete: "frame_at hdr (snd (frames hdr bs)) = None"
proof (induction bs rule: frames_induct [of hdr])
  case (stop bs)
  then show ?case by (simp add: frames_None)
next
  case (frame bs p h)
  then show ?case by (simp add: frames_Some)
qed

section \<open>Header readers\<close>

locale framing =
  fixes hdr :: "byte list \<Rightarrow> int \<Rightarrow> (int \<times> int) option"
  assumes hdr_prefix: "0 < n \<Longrightarrow> n \<le> length d \<Longrightarrow> hdr d (int n) = hdr (take n d) (int n)"
    and hdr_mono: "hdr d i = Some r \<Longrightarrow> i \<le> j \<Longrightarrow> hdr d j = Some r"
begin

lemma hdr_append:
  assumes "xs \<noteq> []" "hdr xs (int (length xs)) = Some r"
  shows "hdr (xs @ ys) (int (length (xs @ ys))) = Some r"
proof -
  have "hdr (xs @ ys) (int (length xs)) = hdr (take (length xs) (xs @ ys)) (int (length xs))"
    using assms(1) by (intro hdr_prefix) auto
  then have "hdr (xs @ ys) (int (length xs)) = Some r" using assms(2) by simp
  then show ?thesis by (rule hdr_mono) simp
qed

lemma frame_at_append: "frame_at hdr xs = Some (p, h) \<Longrightarrow> frame_at hdr (xs @ ys) = Some (p, h)"
  using hdr_append [of xs "(p, h)" ys]
  by (auto simp: frame_at_def split: option.splits if_splits)

lemma zero_size_append: "zero_size_at hdr xs \<Longrightarrow> zero_size_at hdr (xs @ ys)"
  using hdr_append [of xs _ ys] by (auto simp: zero_size_at_def)

text \<open>
  Cutting what arrived first and then the rest with what arrives later gives the same frames as
  cutting everything at once.
\<close>

lemma frames_append:
  "frames hdr (xs @ ys) =
     (fst (frames hdr xs) @ fst (frames hdr (snd (frames hdr xs) @ ys)),
      snd (frames hdr (snd (frames hdr xs) @ ys)))"
proof (induction xs rule: frames_induct [of hdr])
  case (stop xs)
  then show ?case by (simp add: frames_None)
next
  case (frame xs p h)
  from frame_at_bounds [OF frame(1)] have "nat p \<le> length xs" by auto
  with frame frame_at_append [OF frame(1), of ys] show ?case by (simp add: frames_Some)
qed

text \<open>
  The stream in pieces: frames seen so far and the bytes carried over to the next piece.
\<close>

lemma frames_fold:
  "fold (\<lambda>c (fs, r). (fs @ fst (frames hdr (r @ c)), snd (frames hdr (r @ c)))) cs
     (fst (frames hdr xs), snd (frames hdr xs)) = frames hdr (xs @ concat cs)"
proof (induction cs arbitrary: xs)
  case Nil
  then show ?case by simp
next
  case (Cons c cs)
  from Cons [of "xs @ c"] show ?case by (simp add: frames_append [of xs c] case_prod_unfold)
qed

end

interpretation tp_framing: framing tp_read_header
proof unfold_locales
  fix n :: nat and d :: "byte list"
  assume "0 < n" "n \<le> length d"
  then show "tp_read_header d (int n) = tp_read_header (take n d) (int n)"
    by (simp add: tp_read_header_def)
next
  fix n m :: int and d r
  assume "tp_read_header d n = Some r" "n \<le> m"
  then show "tp_read_header d m = Some r"
    by (auto simp: tp_read_header_def split: if_splits)
qed

interpretation ws_framing: framing ws_read_header
proof unfold_locales
  fix n :: nat and d :: "byte list"
  assume "0 < n" "n \<le> length d"
  then show "ws_read_header d (int n) = ws_read_header (take n d) (int n)"
    by (auto simp: ws_read_header_def Let_def)
next
  fix n m :: int and d r
  assume "ws_read_header d n = Some r" "n \<le> m"
  then show "ws_read_header d m = Some r"
    by (auto simp: ws_read_header_def Let_def split: if_splits)
qed

end
