(* ===== verification/Recv_Loop.thy ===== *)
theory Recv_Loop
  imports Service_Man Framing
begin

text \<open>
  The receive loops of \<open>netbus/netbus.cc\<close>, \<open>on_recv_tcp_data\<close> and \<open>on_recv_ws_data\<close>:
  they take complete packets off the front of the buffer and dispatch each one. The
  specification is \<open>deliver\<close>: dispatch the bodies of \<open>frames\<close> in order. A loop that does not
  end is \<open>None\<close>.
\<close>

section \<open>Buffers\<close>

definition pkg_data :: "recv_state \<Rightarrow> byte list" where
  "pkg_data r = (case long_pkg r of Some b \<Rightarrow> b | None \<Rightarrow> recv_buf r)"

definition put_pkg_data :: "byte list \<Rightarrow> recv_state \<Rightarrow> recv_state" where
  "put_pkg_data d r = (case long_pkg r of Some b \<Rightarrow> r\<lparr>long_pkg := Some d\<rparr> | None \<Rightarrow> r\<lparr>recv_buf := d\<rparr>)"

definition received :: "recv_state \<Rightarrow> byte list" where
  "received r = take (nat (recved r)) (pkg_data r)"

definition rx_ok :: "recv_state \<Rightarrow> bool" where
  "rx_ok r \<longleftrightarrow> int (length (recv_buf r)) = RECV_LEN \<and> 0 \<le> recved r \<and>
     recved r \<le> int (length (pkg_data r)) \<and>
     (\<forall>b. long_pkg r = Some b \<longrightarrow> long_pkg_size r = int (length b))"

definition uv_at :: "('a, 'm) node \<Rightarrow> sid \<Rightarrow> uv_session result" where
  "uv_at n i = (case sessions n i of Some (UvSession s) \<Rightarrow> Inr s | _ \<Rightarrow> Inl UseAfterFree)"

definition set_rx :: "sid \<Rightarrow> recv_state \<Rightarrow> ('a, 'm) node \<Rightarrow> ('a, 'm) node" where
  "set_rx i r n =
     (case sessions n i of
        Some (UvSession s) \<Rightarrow> n\<lparr>sessions := (sessions n)(i \<mapsto> UvSession (s\<lparr>rx := r\<rparr>))\<rparr>
      | _ \<Rightarrow> n)"

section \<open>The loops\<close>

text \<open>
  The end of an iteration: moving what follows the packet to the front, counting the packet
  off, and freeing the large buffer when it is empty.
\<close>

definition consume_rx :: "int \<Rightarrow> recv_state \<Rightarrow> recv_state result" where
  "consume_rx pkg_size r =
     (let d = pkg_data r in
      rbind (if recved r > pkg_size
             then if pkg_size < 0 \<or> int (length d) < recved r then Inl OutOfBounds
                  else Inr (put_pkg_data (memmove d 0 (nat pkg_size) (nat (recved r - pkg_size))) r)
             else Inr r) (\<lambda>r.
      let r = r\<lparr>recved := recved r - pkg_size\<rparr>
      in Inr (if recved r = 0 \<and> long_pkg r \<noteq> None then r\<lparr>long_pkg := None, long_pkg_size := 0\<rparr>
              else r)))"

definition consume_pkg :: "sid \<Rightarrow> int \<Rightarrow> ('a, 'm) node \<Rightarrow> ('a, 'm) node result" where
  "consume_pkg i pkg_size n =
     rbind (uv_at n i) (\<lambda>s. rbind (consume_rx pkg_size (rx s)) (\<lambda>r. Inr (set_rx i r n)))"

definition tcp_iteration ::
  "'m env \<Rightarrow> nat \<Rightarrow> sid \<Rightarrow> ('a, 'm) node \<Rightarrow> (bool \<times> ('a, 'm) node) result" where
  "tcp_iteration E depth i n =
     rbind (uv_at n i) (\<lambda>s.
       let r = rx s; d = pkg_data r in
       if \<not> recved r > 0 then Inr (False, n)
       else case tp_read_header d (recved r) of
         None \<Rightarrow> Inr (False, n)
       | Some (pkg_size, head_size) \<Rightarrow>
           if recved r < pkg_size then Inr (False, n)
           else let raw = slice (nat head_size) (nat (pkg_size - head_size)) d in
             rbind (on_recv_client_command E depth i raw (pkg_size - head_size) n)
               (\<lambda>n. rbind (consume_pkg i pkg_size n) (\<lambda>n. Inr (True, n))))"

text \<open>
  The WebSocket loop unmasks the payload in place, with the four bytes before it, and then
  dispatches it.
\<close>

definition ws_iteration ::
  "'m env \<Rightarrow> nat \<Rightarrow> sid \<Rightarrow> ('a, 'm) node \<Rightarrow> (bool \<times> ('a, 'm) node) result" where
  "ws_iteration E depth i n =
     rbind (uv_at n i) (\<lambda>s.
       let r = rx s; d = pkg_data r in
       if \<not> recved r > 0 then Inr (False, n)
       else case ws_read_header d (recved r) of
         None \<Rightarrow> Inr (False, n)
       | Some (pkg_size, head_size) \<Rightarrow>
           if recved r < pkg_size then Inr (False, n)
           else let raw = ws_parser_recv_data
                            (slice (nat head_size) (nat (pkg_size - head_size)) d)
                            (slice (nat head_size - 4) 4 d);
                    n = set_rx i (put_pkg_data (blit d (nat head_size) raw) r) n in
             rbind (on_recv_client_command E depth i raw (pkg_size - head_size) n)
               (\<lambda>n. rbind (consume_pkg i pkg_size n) (\<lambda>n. Inr (True, n))))"

partial_function (option) recv_loop ::
  "(('a, 'm) node \<Rightarrow> (bool \<times> ('a, 'm) node) result) \<Rightarrow> ('a, 'm) node \<Rightarrow> ('a, 'm) node result option" where
  "recv_loop step n =
     (case step n of
        Inl e \<Rightarrow> Some (Inl e)
      | Inr (go, n') \<Rightarrow> if go then recv_loop step n' else Some (Inr n'))"

definition on_recv_tcp_data ::
  "'m env \<Rightarrow> nat \<Rightarrow> sid \<Rightarrow> ('a, 'm) node \<Rightarrow> ('a, 'm) node result option" where
  "on_recv_tcp_data E depth i n = recv_loop (tcp_iteration E depth i) n"

definition on_recv_ws_data ::
  "'m env \<Rightarrow> nat \<Rightarrow> sid \<Rightarrow> ('a, 'm) node \<Rightarrow> ('a, 'm) node result option" where
  "on_recv_ws_data E depth i n = recv_loop (ws_iteration E depth i) n"

section \<open>Services do not see the receive buffers\<close>

text \<open>
  An operation commutes with replacing the receive state of a session.
\<close>

definition map_result :: "('a \<Rightarrow> 'b) \<Rightarrow> 'a result \<Rightarrow> 'b result" where
  "map_result f r = rbind r (\<lambda>x. Inr (f x))"

lemma map_result_simps [simp]:
  "map_result f (Inl e) = Inl e" "map_result f (Inr x) = Inr (f x)"
  by (simp_all add: map_result_def)

lemma map_result_rbind: "map_result f (rbind r g) = rbind r (\<lambda>x. map_result f (g x))"
  by (cases r) simp_all

lemma rbind_map_result: "rbind (map_result f r) g = rbind r (\<lambda>x. g (f x))"
  by (cases r) simp_all

lemma map_result_comp: "map_result f (map_result g r) = map_result (\<lambda>x. f (g x)) r"
  by (cases r) simp_all

lemma set_rx_fields [simp]:
  "g_service_set (set_rx i r n) = g_service_set n" "protos (set_rx i r n) = protos n"
  "app (set_rx i r n) = app n" "events (set_rx i r n) = events n"
  "respones (set_rx i r n) = respones n" "wr_live (set_rx i r n) = wr_live n"
  by (simp_all add: set_rx_def split: option.splits session.splits)

primrec with_rx :: "recv_state \<Rightarrow> session \<Rightarrow> session" where
  "with_rx r (UvSession s) = UvSession (s\<lparr>rx := r\<rparr>)"
| "with_rx r (UdpSession s) = UdpSession s"

lemma sessions_set_rx [simp]:
  "sessions (set_rx i r n) j =
     (if j = i then map_option (with_rx r) (sessions n i) else sessions n j)"
  by (auto simp: set_rx_def split: option.splits session.splits)

lemma node_eqI:
  "sessions n = sessions n' \<Longrightarrow> g_service_set n = g_service_set n' \<Longrightarrow> protos n = protos n' \<Longrightarrow>
   app n = app n' \<Longrightarrow> respones n = respones n' \<Longrightarrow> wr_live n = wr_live n' \<Longrightarrow>
   events n = events n' \<Longrightarrow> (n :: ('a, 'm) node) = n'"
  by (rule node.equality) simp_all

lemma set_rx_update [simp]:
  "(set_rx i r n)\<lparr>app := a\<rparr> = set_rx i r (n\<lparr>app := a\<rparr>)"
  "(set_rx i r n)\<lparr>protos := ps\<rparr> = set_rx i r (n\<lparr>protos := ps\<rparr>)"
  "(set_rx i r n)\<lparr>wr_live := k\<rparr> = set_rx i r (n\<lparr>wr_live := k\<rparr>)"
  "(set_rx i r n)\<lparr>respones := bs\<rparr> = set_rx i r (n\<lparr>respones := bs\<rparr>)"
  "emit e (set_rx i r n) = set_rx i r (emit e n)"
  by (simp_all add: set_rx_def emit_def split: option.splits session.splits)

lemma with_rx_simps [simp]:
  "with_rx r (with_rx r' s) = with_rx r s" "base_of (with_rx r s) = base_of s"
  "session_shut (with_rx r s) = session_shut s"
  "with_rx r (set_utag w s) = set_utag w (with_rx r s)"
  "with_rx r (set_uid w s) = set_uid w (with_rx r s)"
  by (cases s; simp add: base_session.defs)+

lemma set_rx_twice [simp]: "set_rx i r (set_rx i r' n) = set_rx i r n"
  by (rule node_eqI) (auto simp: option.map_comp comp_def fun_eq_iff)

lemma set_rx_put:
  "sessions n j = Some s \<Longrightarrow> (\<And>s. with_rx r (f s) = f (with_rx r s)) \<Longrightarrow>
   put_session j (f (if j = i then with_rx r s else s)) (set_rx i r n) =
   set_rx i r (put_session j (f s) n)"
  by (rule node_eqI) (auto simp: put_session_def fun_eq_iff)

text \<open>An operation on nodes that commutes with \<open>set_rx\<close>.\<close>

definition rx_blind :: "(('a, 'm) node \<Rightarrow> ('a, 'm) node result) \<Rightarrow> bool" where
  "rx_blind f \<longleftrightarrow> (\<forall>i r n. f (set_rx i r n) = map_result (set_rx i r) (f n))"

lemma rx_blindD: "rx_blind f \<Longrightarrow> f (set_rx i r n) = map_result (set_rx i r) (f n)"
  by (simp add: rx_blind_def)

lemma send_data_blind: "rx_blind (send_data i bs)"
  unfolding rx_blind_def
proof (intro allI)
  fix j r n
  show "send_data i bs (set_rx j r n) = map_result (set_rx j r) (send_data i bs n)"
  proof (cases "sessions n i")
    case None
    then show ?thesis by (cases "i = j") (simp_all add: send_data_def)
  next
    case (Some s)
    then show ?thesis
      by (cases s; cases "i = j") (auto simp: send_data_def uv_send_data_def Let_def split: option.splits prod.splits)
  qed
qed

lemma update_session_blind:
  assumes "\<And>r s. with_rx r (f s) = f (with_rx r s)"
  shows "rx_blind (update_session i f)"
  unfolding rx_blind_def
proof (intro allI)
  fix j r n
  show "update_session i f (set_rx j r n) = map_result (set_rx j r) (update_session i f n)"
    using set_rx_put [of n i _ r f j] assms
    by (cases "sessions n i") (auto simp: update_session_def split: if_splits)
qed

lemma do_action_blind:
  assumes "\<And>i. rx_blind (cl i)"
  shows "rx_blind (do_action E cl a)"
proof (cases a)
  case (SendMsg i msg)
  have "rx_blind (send_msg E i msg)"
    using send_data_blind [of i] unfolding rx_blind_def send_msg_def
    by (auto split: sum.splits option.splits)
  with SendMsg show ?thesis by simp
qed (use assms in \<open>auto simp: send_raw_cmd_def rx_blind_def [of "send_raw_cmd _ _"]
      intro: send_data_blind update_session_blind rx_blindD [OF send_data_blind]\<close>)

text \<open>The same for an operation with a result.\<close>

definition rx_blind2 :: "(('a, 'm) node \<Rightarrow> ('b \<times> ('a, 'm) node) result) \<Rightarrow> bool" where
  "rx_blind2 f \<longleftrightarrow> (\<forall>i r n. f (set_rx i r n) = map_result (map_prod id (set_rx i r)) (f n))"

lemma rx_blind2D: "rx_blind2 f \<Longrightarrow> f (set_rx i r n) = map_result (map_prod id (set_rx i r)) (f n)"
  by (simp add: rx_blind2_def)

lemma run_prog_blind:
  assumes "\<And>i. rx_blind (cl i)"
  shows "run_prog E cl p (set_rx i r n) = map_result (map_prod id (set_rx i r)) (run_prog E cl p n)"
proof (induction p arbitrary: n)
  case (Do a p)
  then show ?case
    by (simp add: map_result_rbind rbind_map_result rx_blindD [OF do_action_blind [OF assms]])
next
  case (AskSession j k)
  then show ?case by (auto split: option.splits)
qed auto

lemma notify_blind:
  assumes "\<And>k svc. rx_blind2 (f k svc)"
  shows "rx_blind (notify_services f ks)"
  unfolding rx_blind_def
proof (intro allI)
  fix i r n
  show "notify_services f ks (set_rx i r n) = map_result (set_rx i r) (notify_services f ks n)"
  proof (induction ks arbitrary: n)
    case (Cons k ks)
    show ?case
    proof (cases "g_service_set n ! k")
      case (Some svc)
      then show ?thesis
        using Cons.IH
        by (simp add: map_result_rbind rbind_map_result case_prod_unfold rx_blind2D [OF assms])
    qed (use Cons.IH in simp)
  qed simp
qed

lemma shutdown_blind: "rx_blind (shutdown_session E i)"
  unfolding rx_blind_def
proof (intro allI)
  fix j r n
  show "shutdown_session E i (set_rx j r n) = map_result (set_rx j r) (shutdown_session E i n)"
  proof (cases "sessions n i")
    case (Some s)
    show ?thesis
    proof (cases s)
      case (UvSession u)
      have "put_session i (UvSession ((if i = j then u\<lparr>rx := r\<rparr> else u)\<lparr>is_shutdown := True\<rparr>))
          (set_rx j r n) = set_rx j r (put_session i (UvSession (u\<lparr>is_shutdown := True\<rparr>)) n)"
        using Some UvSession by (intro node_eqI) (auto simp: put_session_def fun_eq_iff)
      with Some UvSession show ?thesis
        by (auto simp: shutdown_session_def Let_def split: if_splits)
    qed (use Some in \<open>auto simp: shutdown_session_def\<close>)
  qed (cases "i = j"; simp add: shutdown_session_def)
qed

lemma close_blind: "rx_blind (close_session E depth i :: ('a, 'm) node \<Rightarrow> ('a, 'm) node result)"
proof (induction depth arbitrary: i)
  case 0
  then show ?case by (simp add: rx_blind_def)
next
  case (Suc depth)
  have p: "rx_blind2 (run_prog E (close_session E depth) q)" for q :: "('a, 'm) svc_prog"
    unfolding rx_blind2_def by (simp add: run_prog_blind [OF Suc.IH])
  have b: "rx_blind (broadcast_disconnect E (close_session E depth) i
      :: ('a, 'm) node \<Rightarrow> ('a, 'm) node result)"
    unfolding broadcast_disconnect_def
    by (rule notify_blind) (rule p)
  show ?case
    unfolding rx_blind_def
  proof (intro allI)
    fix j r and n :: "('a, 'm) node"
    have "rbind (broadcast_disconnect E (close_session E depth) i (set_rx j r n)) (shutdown_session E i) =
        map_result (set_rx j r)
          (rbind (broadcast_disconnect E (close_session E depth) i n) (shutdown_session E i))"
      by (simp add: map_result_rbind rbind_map_result rx_blindD [OF b] rx_blindD [OF shutdown_blind])
    then show "close_session E (Suc depth) i (set_rx j r n) =
        map_result (set_rx j r) (close_session E (Suc depth) i n)"
      by (auto split: option.splits session.splits)
  qed
qed

lemma recv_raw_blind: "rx_blind2 (on_recv_raw_cmd E depth i raw)"
  unfolding rx_blind2_def on_recv_raw_cmd_def
  by (auto simp: map_result_rbind run_prog_blind [OF close_blind]
      intro!: arg_cong [where f = "rbind _"] split: option.splits prod.splits)

lemma command_blind: "rx_blind (on_recv_client_command E depth i cmd len)"
  unfolding rx_blind_def on_recv_client_command_def
  by (auto simp: map_result_rbind rbind_map_result rx_blind2D [OF recv_raw_blind]
      rx_blindD [OF close_blind] split: option.splits prod.splits
      intro!: arg_cong [where f = "rbind _"])

section \<open>What a loop delivers\<close>

primrec deliver ::
  "('f \<Rightarrow> ('a, 'm) node \<Rightarrow> ('a, 'm) node result) \<Rightarrow> 'f list \<Rightarrow> ('a, 'm) node \<Rightarrow> ('a, 'm) node result" where
  "deliver dispatch [] n = Inr n"
| "deliver dispatch (f # fs) n = rbind (dispatch f n) (deliver dispatch fs)"

text \<open>One frame: the bytes after the header, and for WebSocket unmasked.\<close>

definition dispatch_tcp ::
  "'m env \<Rightarrow> nat \<Rightarrow> sid \<Rightarrow> byte list \<times> int \<Rightarrow> ('a, 'm) node \<Rightarrow> ('a, 'm) node result" where
  "dispatch_tcp E depth i f =
     on_recv_client_command E depth i (drop (nat (snd f)) (fst f)) (int (length (fst f)) - snd f)"

definition dispatch_ws ::
  "'m env \<Rightarrow> nat \<Rightarrow> sid \<Rightarrow> byte list \<times> int \<Rightarrow> ('a, 'm) node \<Rightarrow> ('a, 'm) node result" where
  "dispatch_ws E depth i f =
     on_recv_client_command E depth i
       (ws_parser_recv_data (drop (nat (snd f)) (fst f)) (slice (nat (snd f) - 4) 4 (fst f)))
       (int (length (fst f)) - snd f)"

lemma deliver_append:
  "deliver dispatch (fs @ gs) n = rbind (deliver dispatch fs n) (deliver dispatch gs)"
proof (induction fs arbitrary: n)
  case (Cons f fs)
  have "deliver dispatch (fs @ gs) = (\<lambda>n. rbind (deliver dispatch fs n) (deliver dispatch gs))"
    by (rule ext) (rule Cons.IH)
  then show ?case by (simp add: rbind_assoc)
qed simp

lemma deliver_blind:
  assumes "\<And>f. rx_blind (dispatch f)"
  shows "deliver dispatch fs (set_rx i r n) = map_result (set_rx i r) (deliver dispatch fs n)"
  by (induction fs arbitrary: n)
    (simp_all add: map_result_rbind rbind_map_result rx_blindD [OF assms])

lemma deliver_progress:
  assumes "\<And>f n n'. dispatch f n = Inr n' \<Longrightarrow> progress n n'"
  shows "deliver dispatch fs n = Inr n' \<Longrightarrow> progress n n'"
  by (induction fs arbitrary: n) (auto elim!: rbind_InrE intro: progress_trans assms)

lemma uv_atD: "uv_at n i = Inr s \<Longrightarrow> sessions n i = Some (UvSession s)"
  by (auto simp: uv_at_def split: option.splits session.splits)

lemma uv_at_progress:
  assumes "progress n n'" "uv_at n i = Inr s"
  shows "\<exists>s'. uv_at n' i = Inr s' \<and> rx s' = rx s"
  using progress_conn [OF assms(1) uv_atD [OF assms(2)]] by (auto simp: uv_at_def)

lemma uv_at_set_rx: "uv_at n i = Inr s \<Longrightarrow> uv_at (set_rx i r n) i = Inr (s\<lparr>rx := r\<rparr>)"
  by (auto simp: uv_at_def split: option.splits session.splits)

lemma set_rx_same: "uv_at n i = Inr s \<Longrightarrow> set_rx i (rx s) n = n"
  by (rule node_eqI) (auto dest: uv_atD simp: fun_eq_iff)

text \<open>
  What a step of a receive loop leaves behind: the bytes not yet consumed, in the small buffer
  if they were there before.
\<close>

definition leaves :: "recv_state \<Rightarrow> byte list \<Rightarrow> recv_state \<Rightarrow> bool" where
  "leaves r bs r' \<longleftrightarrow> rx_ok r' \<and> received r' = bs \<and> (long_pkg r = None \<longrightarrow> long_pkg r' = None)"

lemma leaves_trans: "leaves r bs r1 \<Longrightarrow> leaves r1 cs r2 \<Longrightarrow> leaves r cs r2"
  by (simp add: leaves_def)

locale receive_loop = framing hdr for hdr +
  fixes step :: "('a, 'm) node \<Rightarrow> (bool \<times> ('a, 'm) node) result"
    and dispatch :: "byte list \<times> int \<Rightarrow> ('a, 'm) node \<Rightarrow> ('a, 'm) node result"
    and i :: sid
  assumes dispatch_blind: "rx_blind (dispatch f)"
    and dispatch_progress: "dispatch f n = Inr n' \<Longrightarrow> progress n n'"
    and step_stop: "uv_at n i = Inr s \<Longrightarrow> rx_ok (rx s) \<Longrightarrow>
      frame_at hdr (received (rx s)) = None \<Longrightarrow> \<not> zero_size_at hdr (received (rx s)) \<Longrightarrow>
      step n = Inr (False, n)"
    and step_frame: "uv_at n i = Inr s \<Longrightarrow> rx_ok (rx s) \<Longrightarrow>
      frame_at hdr (received (rx s)) = Some (p, h) \<Longrightarrow>
      \<exists>r'. leaves (rx s) (drop (nat p) (received (rx s))) r' \<and>
        step n = map_result (\<lambda>n'. (True, set_rx i r' n'))
          (dispatch (take (nat p) (received (rx s)), h) n)"
begin

text \<open>
  The loop returns when the rest does not start with an empty frame, and does what delivering
  the frames does; the rest stays in the buffer.
\<close>

lemma loop_delivers:
  assumes "uv_at n i = Inr s" "rx_ok (rx s)" "received (rx s) = bs"
    and "\<not> zero_size_at hdr (snd (frames hdr bs))"
  shows "\<exists>r'. leaves (rx s) (snd (frames hdr bs)) r' \<and>
    recv_loop step n = Some (map_result (set_rx i r') (deliver dispatch (fst (frames hdr bs)) n))"
  using assms
proof (induction bs arbitrary: n s rule: frames_induct [of hdr])
  case (stop bs)
  have f: "frames hdr bs = ([], bs)" by (rule frames_None [OF stop.hyps])
  have "step n = Inr (False, n)"
    using stop step_stop [of n s] by (simp add: f)
  then have "recv_loop step n = Some (Inr n)" by (subst recv_loop.simps) simp
  with stop.prems set_rx_same [OF stop.prems(1)] f show ?case
    by (intro exI [of _ "rx s"]) (simp add: leaves_def)
next
  case (frame bs p h)
  obtain r1 where r1: "leaves (rx s) (drop (nat p) bs) r1"
    and st: "step n = map_result (\<lambda>n'. (True, set_rx i r1 n')) (dispatch (take (nat p) bs, h) n)"
    using step_frame [of n s p h] frame by auto
  let ?f = "(take (nat p) bs, h)" and ?fs = "fst (frames hdr (drop (nat p) bs))"
    and ?rest = "snd (frames hdr (drop (nat p) bs))"
  have fr: "frames hdr bs = (?f # ?fs, ?rest)" by (rule frames_Some [OF frame.hyps])
  have r1': "rx_ok r1" "received r1 = drop (nat p) bs" using r1 by (simp_all add: leaves_def)
  have IH: "\<exists>r'. leaves r1 ?rest r' \<and>
      recv_loop step (set_rx i r1 m) = Some (map_result (set_rx i r') (deliver dispatch ?fs (set_rx i r1 m)))"
    if "uv_at m i = Inr t" for m t
    using frame.IH [OF uv_at_set_rx [OF that, of r1]] r1' frame.prems fr by simp
  show ?case
  proof (cases "dispatch ?f n")
    case (Inl e)
    then have "recv_loop step n = Some (Inl e)" by (subst recv_loop.simps) (simp add: st)
    with IH [OF frame.prems(1)] Inl fr show ?thesis by (auto intro: leaves_trans [OF r1])
  next
    case (Inr m)
    obtain t where "uv_at m i = Inr t"
      using uv_at_progress [OF dispatch_progress [OF Inr] frame.prems(1)] by blast
    from IH [OF this] obtain r' where r': "leaves r1 ?rest r'"
      "recv_loop step (set_rx i r1 m) =
        Some (map_result (set_rx i r') (deliver dispatch ?fs (set_rx i r1 m)))" by blast
    have "recv_loop step n = recv_loop step (set_rx i r1 m)"
      by (subst recv_loop.simps) (simp add: st Inr)
    with r' Inr fr show ?thesis
      by (intro exI [of _ r'])
        (simp add: leaves_trans [OF r1] deliver_blind [OF dispatch_blind] map_result_comp)
  qed
qed

end

text \<open>A loop whose step goes on without changing the state does not end.\<close>

lemma recv_loop_stuck:
  assumes "step n = Inr (True, n)"
  shows "recv_loop step n = None"
proof (rule ccontr)
  assume "recv_loop step n \<noteq> None"
  then obtain y where "recv_loop step n = Some y" by blast
  then have "step n \<noteq> Inr (True, n)"
    by (rule recv_loop.raw_induct [where P = "\<lambda>st m y. st m \<noteq> Inr (True, m)", rotated])
      (auto split: sum.splits prod.splits if_splits)
  with assms show False by simp
qed

section \<open>The two loops\<close>

lemma put_pkg_data_simps [simp]:
  "pkg_data (put_pkg_data d r) = d" "recved (put_pkg_data d r) = recved r"
  "put_pkg_data d (put_pkg_data d' r) = put_pkg_data d r"
  "pkg_data (r\<lparr>recved := k\<rparr>) = pkg_data r"
  by (simp_all add: pkg_data_def put_pkg_data_def split: option.splits)

lemma rx_ok_put:
  "rx_ok r \<Longrightarrow> length d = length (pkg_data r) \<Longrightarrow> rx_ok (put_pkg_data d r)"
  by (auto simp: rx_ok_def pkg_data_def put_pkg_data_def split: option.splits)

lemma consume_rx_ok:
  assumes "rx_ok r" "0 < p" "p \<le> recved r"
  shows "\<exists>r'. consume_rx p r = Inr r' \<and> rx_ok r' \<and> received r' = drop (nat p) (received r)"
proof (cases "recved r = p")
  case True
  then have "drop (nat p) (received r) = []" by (simp add: received_def)
  moreover have "\<exists>r'. consume_rx p r = Inr r' \<and> rx_ok r' \<and> recved r' = 0"
    using assms True by (auto simp: consume_rx_def rx_ok_def Let_def RECV_LEN_def pkg_data_def)
  ultimately show ?thesis by (auto simp: received_def)
next
  case False
  let ?d = "pkg_data r"
  let ?d' = "memmove ?d 0 (nat p) (nat (recved r - p))"
  let ?r' = "(put_pkg_data ?d' r)\<lparr>recved := recved r - p\<rparr>"
  have lt: "p < recved r" "recved r \<le> int (length ?d)" "0 \<le> recved r"
    using assms False by (auto simp: rx_ok_def)
  then have l: "nat p + nat (recved r - p) \<le> length ?d" using assms(2) by linarith
  have ld: "length ?d' = length ?d" by (rule length_memmove) (use l in auto)
  have c: "consume_rx p r = Inr ?r'"
    using lt assms(2) by (simp add: consume_rx_def Let_def)
  have "rx_ok (put_pkg_data ?d' r)" by (rule rx_ok_put [OF assms(1) ld])
  then have ok: "rx_ok ?r'" using lt assms(2) by (auto simp: rx_ok_def)
  have "received ?r' = take (nat (recved r - p)) ?d'" by (simp add: received_def)
  also have "\<dots> = slice (nat p) (nat (recved r - p)) ?d" by (rule take_memmove_front [OF l])
  also have "\<dots> = drop (nat p) (received r)"
    using lt assms(2) by (simp add: slice_def received_def drop_take nat_diff_distrib)
  finally show ?thesis using c ok by blast
qed

lemma consume_rx_small: "consume_rx p r = Inr r' \<Longrightarrow> long_pkg r = None \<Longrightarrow> long_pkg r' = None"
  by (auto simp: consume_rx_def put_pkg_data_def Let_def split: if_splits)

lemma received_hdr:
  assumes "framing hdr" "rx_ok r" "0 < recved r"
  shows "hdr (pkg_data r) (recved r) = hdr (received r) (int (length (received r)))"
    "received r \<noteq> []" "int (length (received r)) = recved r"
proof -
  have l: "nat (recved r) \<le> length (pkg_data r)" "0 < nat (recved r)"
    using assms(2,3) by (auto simp: rx_ok_def)
  with framing.hdr_prefix [OF assms(1) l(2,1)] assms(3)
  show "hdr (pkg_data r) (recved r) = hdr (received r) (int (length (received r)))"
    "received r \<noteq> []" "int (length (received r)) = recved r"
    by (auto simp: received_def)
qed

lemma received_empty: "rx_ok r \<Longrightarrow> \<not> 0 < recved r \<Longrightarrow> received r = []"
  by (simp add: received_def)

lemma dispatch_consume:
  assumes d: "\<And>n'. f n = Inr n' \<Longrightarrow> progress n n'"
    and "uv_at n i = Inr s" "consume_rx p (rx s) = Inr r'"
  shows "rbind (f n) (\<lambda>n. rbind (consume_pkg i p n) (\<lambda>n. Inr (True, n))) =
    map_result (\<lambda>n'. (True, set_rx i r' n')) (f n)"
proof (cases "f n")
  case (Inr m)
  obtain s' where "uv_at m i = Inr s'" "rx s' = rx s"
    using uv_at_progress [OF d [OF Inr] assms(2)] by blast
  with Inr assms(3) show ?thesis by (simp add: consume_pkg_def)
qed simp

lemma tp_head_size: "tp_read_header d n = Some (p, h) \<Longrightarrow> h = 2"
  by (auto simp: tp_read_header_def split: if_splits)

lemma ws_head_size: "ws_read_header d n = Some (p, h) \<Longrightarrow> h \<in> {6, 8, 14}"
  by (auto simp: ws_read_header_def ws_pkg_size_def Let_def split: if_splits)

lemma slice_of_take:
  assumes "0 \<le> h" "p \<le> m"
  shows "slice (nat h) (nat (p - h)) d = drop (nat h) (take (nat p) (take (nat m) d))"
proof -
  have "nat (p - h) = nat p - nat h" using assms(1) by linarith
  with assms(2) show ?thesis by (simp add: slice_def drop_take min_def)
qed

interpretation tcp_loop: receive_loop tp_read_header 
  "tcp_iteration E depth i :: ('a, 'm) node \<Rightarrow> _" "dispatch_tcp E depth i" i
  for E :: "'m env" and depth :: nat and i :: sid
proof unfold_locales
  fix f :: "byte list \<times> int"
  show "rx_blind (dispatch_tcp E depth i f :: ('a, 'm) node \<Rightarrow> _)"
    unfolding dispatch_tcp_def by (rule command_blind)
next
  fix f and n n' :: "('a, 'm) node"
  assume "dispatch_tcp E depth i f n = Inr n'"
  then show "progress n n'" unfolding dispatch_tcp_def by (rule progress_command)
next
  fix n :: "('a, 'm) node" and s
  assume a: "uv_at n i = Inr s" "rx_ok (rx s)" "frame_at tp_read_header (received (rx s)) = None"
    "\<not> zero_size_at tp_read_header (received (rx s))"
  show "tcp_iteration E depth i n = Inr (False, n)"
  proof (cases "0 < recved (rx s)")
    case True
    note r = received_hdr [OF tp_framing.framing_axioms a(2) True]
    show ?thesis
      using a(1,3,4) True r
      by (auto simp: tcp_iteration_def Let_def frame_at_def zero_size_at_def split: option.splits if_splits)
  qed (simp add: tcp_iteration_def a(1) Let_def)
next
  fix n :: "('a, 'm) node" and s p h
  assume a: "uv_at n i = Inr s" "rx_ok (rx s)" "frame_at tp_read_header (received (rx s)) = Some (p, h)"
  note b = frame_at_bounds [OF a(3)]
  then have pos: "0 < recved (rx s)" using received_empty [OF a(2)] by blast
  note r = received_hdr [OF tp_framing.framing_axioms a(2) pos]
  have hd: "tp_read_header (pkg_data (rx s)) (recved (rx s)) = Some (p, h)"
    and p: "0 < p" "p \<le> recved (rx s)"
    using a(3) r by (auto simp: frame_at_def split: option.splits if_splits)
  note h = tp_head_size [OF hd]
  obtain r' where r': "consume_rx p (rx s) = Inr r'" "rx_ok r'"
    "received r' = drop (nat p) (received (rx s))"
    using consume_rx_ok [OF a(2) p] by blast
  have f: "on_recv_client_command E depth i (slice (nat h) (nat (p - h)) (pkg_data (rx s))) (p - h) =
      dispatch_tcp E depth i (take (nat p) (received (rx s)), h)"
    using slice_of_take [of h p "recved (rx s)" "pkg_data (rx s)"] p r(3) h
    by (simp add: dispatch_tcp_def received_def)
  have "tcp_iteration E depth i n =
      rbind (dispatch_tcp E depth i (take (nat p) (received (rx s)), h) n)
        (\<lambda>n. rbind (consume_pkg i p n) (\<lambda>n. Inr (True, n)))"
    using a(1) pos hd p by (simp add: tcp_iteration_def Let_def f)
  also have "\<dots> = map_result (\<lambda>n'. (True, set_rx i r' n'))
      (dispatch_tcp E depth i (take (nat p) (received (rx s)), h) n)"
    by (rule dispatch_consume [OF _ a(1) r'(1)]) (simp add: dispatch_tcp_def progress_command)
  finally show "\<exists>r'. leaves (rx s) (drop (nat p) (received (rx s))) r' \<and>
      tcp_iteration E depth i n = map_result (\<lambda>n'. (True, set_rx i r' n'))
        (dispatch_tcp E depth i (take (nat p) (received (rx s)), h) n)"
    using r'(2,3) consume_rx_small [OF r'(1)] by (auto simp: leaves_def)
qed

lemma ws_unmask_in_place:
  fixes d :: "byte list"
  assumes "0 \<le> h" "0 < p" "p \<le> m" "m \<le> int (length d)"
    "length raw = length (slice (nat h) (nat (p - h)) d)"
  shows "length (blit d (nat h) raw) = length d"
    "drop (nat p) (take (nat m) (blit d (nat h) raw)) = drop (nat p) (take (nat m) d)"
proof -
  have n: "nat (p - h) = nat p - nat h" "nat p \<le> length d" using assms(1-4) by linarith+
  have "nat p - nat h \<le> length d - nat h" using n(2) by (rule diff_le_mono)
  then have l: "length raw = nat p - nat h" using assms(5) n(1) by (simp add: slice_def)
  have "length (blit d (nat h) raw) = length d \<and> drop (nat p) (blit d (nat h) raw) = drop (nat p) d"
  proof (cases "nat h \<le> nat p")
    case True
    then show ?thesis using l n(2) by (simp add: blit_def)
  next
    case False
    then have "raw = []" using l by simp
    then show ?thesis by (simp add: blit_def)
  qed
  then show "length (blit d (nat h) raw) = length d"
    "drop (nat p) (take (nat m) (blit d (nat h) raw)) = drop (nat p) (take (nat m) d)"
    by (simp_all add: drop_take)
qed

lemma unmask_key_slice:
  assumes "h \<in> {6, 8, 14}"
  shows "ws_parser_recv_data (drop (nat h) (take k d)) (slice (nat h - 4) 4 d) =
    ws_parser_recv_data (drop (nat h) (take k d)) (slice (nat h - 4) 4 (take k d))"
proof (cases "k \<le> nat h")
  case False
  then have "nat h - 4 + 4 \<le> k" using assms by auto
  then show ?thesis by (simp add: slice_take)
qed (simp add: ws_parser_recv_data_def)

interpretation ws_loop: receive_loop ws_read_header
  "ws_iteration E depth i :: ('a, 'm) node \<Rightarrow> _" "dispatch_ws E depth i" i
  for E :: "'m env" and depth :: nat and i :: sid
proof unfold_locales
  fix f :: "byte list \<times> int"
  show "rx_blind (dispatch_ws E depth i f :: ('a, 'm) node \<Rightarrow> _)"
    unfolding dispatch_ws_def by (rule command_blind)
next
  fix f and n n' :: "('a, 'm) node"
  assume "dispatch_ws E depth i f n = Inr n'"
  then show "progress n n'" unfolding dispatch_ws_def by (rule progress_command)
next
  fix n :: "('a, 'm) node" and s
  assume a: "uv_at n i = Inr s" "rx_ok (rx s)" "frame_at ws_read_header (received (rx s)) = None"
    "\<not> zero_size_at ws_read_header (received (rx s))"
  show "ws_iteration E depth i n = Inr (False, n)"
  proof (cases "0 < recved (rx s)")
    case True
    note r = received_hdr [OF ws_framing.framing_axioms a(2) True]
    show ?thesis
      using a(1,3,4) True r
      by (auto simp: ws_iteration_def Let_def frame_at_def zero_size_at_def split: option.splits if_splits)
  qed (simp add: ws_iteration_def a(1) Let_def)
next
  fix n :: "('a, 'm) node" and s p h
  assume a: "uv_at n i = Inr s" "rx_ok (rx s)" "frame_at ws_read_header (received (rx s)) = Some (p, h)"
  note b = frame_at_bounds [OF a(3)]
  then have pos: "0 < recved (rx s)" using received_empty [OF a(2)] by blast
  note r = received_hdr [OF ws_framing.framing_axioms a(2) pos]
  let ?d = "pkg_data (rx s)" and ?fr = "take (nat p) (received (rx s))"
  have hd: "ws_read_header ?d (recved (rx s)) = Some (p, h)" and p: "0 < p" "p \<le> recved (rx s)"
    using a(3) r by (auto simp: frame_at_def split: option.splits if_splits)
  note h = ws_head_size [OF hd]
  then have h0: "0 \<le> h" by auto
  let ?raw = "ws_parser_recv_data (slice (nat h) (nat (p - h)) ?d) (slice (nat h - 4) 4 ?d)"
  let ?r1 = "put_pkg_data (blit ?d (nat h) ?raw) (rx s)"
  have len: "recved (rx s) \<le> int (length ?d)" using a(2) by (simp add: rx_ok_def)
  note u = ws_unmask_in_place [OF h0 p len, of ?raw]
  have ok1: "rx_ok ?r1" by (rule rx_ok_put [OF a(2)]) (simp add: u)
  have rc1: "drop (nat p) (received ?r1) = drop (nat p) (received (rx s))"
    by (simp add: received_def u)
  have p1: "p \<le> recved ?r1" using p by simp
  obtain r' where r': "consume_rx p ?r1 = Inr r'" "rx_ok r'"
    "received r' = drop (nat p) (received (rx s))"
    using consume_rx_ok [OF ok1 p(1) p1] rc1 by metis
  have f: "on_recv_client_command E depth i ?raw (p - h) = dispatch_ws E depth i (?fr, h)"
  proof -
    have fr: "?fr = take (nat p) ?d" using p by (simp add: received_def min_def nat_le_iff)
    have "int (length ?fr) = p" using p len by (simp add: fr)
    moreover have "slice (nat h) (nat (p - h)) ?d = drop (nat h) (take (nat p) ?d)"
      using slice_of_take [OF h0 p(2), of ?d] fr by (simp add: received_def)
    ultimately show ?thesis
      using unmask_key_slice [OF h, of "nat p" ?d] by (simp add: dispatch_ws_def fr)
  qed
  have bl: "rx_blind (dispatch_ws E depth i g :: ('a, 'm) node \<Rightarrow> _)" for g
    unfolding dispatch_ws_def by (rule command_blind)
  have "ws_iteration E depth i n =
      rbind (dispatch_ws E depth i (?fr, h) (set_rx i ?r1 n))
        (\<lambda>n. rbind (consume_pkg i p n) (\<lambda>n. Inr (True, n)))"
    using a(1) pos hd p by (simp add: ws_iteration_def Let_def f)
  also have "\<dots> = map_result (\<lambda>n'. (True, set_rx i r' n')) (dispatch_ws E depth i (?fr, h) (set_rx i ?r1 n))"
    by (rule dispatch_consume [OF _ uv_at_set_rx [OF a(1)]])
      (simp_all add: dispatch_ws_def progress_command r'(1))
  also have "\<dots> = map_result (\<lambda>n'. (True, set_rx i r' n')) (dispatch_ws E depth i (?fr, h) n)"
    by (simp add: rx_blindD [OF bl] map_result_comp)
  finally show "\<exists>r'. leaves (rx s) (drop (nat p) (received (rx s))) r' \<and>
      ws_iteration E depth i n = map_result (\<lambda>n'. (True, set_rx i r' n')) (dispatch_ws E depth i (?fr, h) n)"
    using r'(2,3) consume_rx_small [OF r'(1)] by (auto simp: leaves_def put_pkg_data_def)
qed

lemma memmove_0_0 [simp]: "memmove d 0 0 k = d"
  by (simp add: memmove_def)

lemma put_pkg_data_same [simp]: "put_pkg_data (pkg_data r) r = r"
  by (auto simp: put_pkg_data_def pkg_data_def split: option.splits)

text \<open>Counting nothing off changes nothing.\<close>

lemma consume_rx_0:
  assumes "rx_ok r" "0 < recved r"
  shows "consume_rx 0 r = Inr r"
  using assms by (auto simp: consume_rx_def Let_def rx_ok_def)

lemma command_short: "len < 8 \<Longrightarrow> on_recv_client_command E depth i cmd len n = Inr n"
  by (simp add: on_recv_client_command_def decode_raw_cmd_def CMD_HEADER_def)

section \<open>Properties\<close>

text \<open>A connection of the demonstration node with some bytes received.\<close>

definition demo_rx :: "byte list \<Rightarrow> recv_state" where
  "demo_rx bs = \<lparr>recv_buf = bs @ replicate (4096 - length bs) 0, recved = int (length bs),
                 long_pkg = None, long_pkg_size = 0\<rparr>"

lemma demo_rx_ok: "length bs \<le> 4096 \<Longrightarrow> rx_ok (demo_rx bs)" "received (demo_rx bs) = bs"
  by (simp_all add: demo_rx_def rx_ok_def RECV_LEN_def pkg_data_def received_def)

lemma demo_uv_at:
  "uv_at (set_rx 1 r (demo_node svc a)) 1 =
     Inr ((uv_session_create (replicate 4096 0) TCP_SOCKET)\<lparr>rx := r\<rparr>)"
  by (simp add: uv_at_def demo_node_session [unfolded One_nat_def])

text \<open>
  The TCP loop. When the received bytes do not end in an announced size of zero, the loop
  returns; it has dispatched the body of every complete packet, in order, each exactly once, and
  nothing else; the bytes of the incomplete packet at the end are what is left in the buffer.
  The loop's effect on the rest of the node is that of the dispatched commands, an error of
  which is the error of the loop.
\<close>

theorem tcp_loop_delivers:
  assumes "uv_at n i = Inr s" "rx_ok (rx s)"
    and "frames tp_read_header (received (rx s)) = (fs, rest)" "\<not> zero_size_at tp_read_header rest"
  shows "\<exists>r'. rx_ok r' \<and> received r' = rest \<and>
    on_recv_tcp_data E depth i n = Some (map_result (set_rx i r') (deliver (dispatch_tcp E depth i) fs n))"
  using tcp_loop.loop_delivers [OF assms(1,2) refl] assms(3,4)
  by (auto simp: on_recv_tcp_data_def leaves_def)

lemma frames_two_and_a_half:
  "frames tp_read_header [3, 0, 9, 4, 0, 8, 7, 5, 0] = ([([3, 0, 9], 2), ([4, 0, 8, 7], 2)], [5, 0])"
  by (simp add: frames.simps tp_read_header_def le16_def sint_u32_small)

theorem tcp_loop_delivers_witness:
  "\<exists>r'. rx_ok r' \<and> received r' = [5, 0] \<and>
     on_recv_tcp_data demo_env 1 1 (set_rx 1 (demo_rx [3, 0, 9, 4, 0, 8, 7, 5, 0]) (demo_node service_default ())) =
       Some (Inr (set_rx 1 r' (demo_node service_default ())))"
proof -
  let ?bs = "[3, 0, 9, 4, 0, 8, 7, 5, 0] :: byte list"
  let ?n = "set_rx 1 (demo_rx ?bs) (demo_node service_default ())"
  have "\<not> zero_size_at tp_read_header [5, 0]"
    by (simp add: zero_size_at_def tp_read_header_def le16_def sint_u32_small)
  moreover have "deliver (dispatch_tcp demo_env 1 1) [([3, 0, 9], 2), ([4, 0, 8, 7], 2)] ?n = Inr ?n"
    by (simp add: dispatch_tcp_def command_short)
  moreover have "\<exists>r'. rx_ok r' \<and> received r' = [5, 0] \<and>
      on_recv_tcp_data demo_env 1 1 ?n = Some (map_result (set_rx 1 r')
        (deliver (dispatch_tcp demo_env 1 1) [([3, 0, 9], 2), ([4, 0, 8, 7], 2)] ?n))"
    by (rule tcp_loop_delivers [OF demo_uv_at])
      (simp_all add: demo_rx_ok frames_two_and_a_half calculation(1))
  ultimately show ?thesis by simp
qed

text \<open>
  The WebSocket loop, likewise; each dispatched body is the payload, unmasked with the four
  key bytes of its own frame.
\<close>

theorem ws_loop_delivers:
  assumes "uv_at n i = Inr s" "rx_ok (rx s)"
    and "frames ws_read_header (received (rx s)) = (fs, rest)" "\<not> zero_size_at ws_read_header rest"
  shows "\<exists>r'. rx_ok r' \<and> received r' = rest \<and>
    on_recv_ws_data E depth i n = Some (map_result (set_rx i r') (deliver (dispatch_ws E depth i) fs n))"
  using ws_loop.loop_delivers [OF assms(1,2) refl] assms(3,4)
  by (auto simp: on_recv_ws_data_def leaves_def)

lemma frames_masked:
  "frames ws_read_header [0x82, 0x81, 1, 2, 3, 4, 8] = ([([0x82, 0x81, 1, 2, 3, 4, 8], 6)], [])"
proof -
  have "(0x82 :: byte) \<noteq> 0x81" "((ucast (0x81 :: byte) :: u32) AND 0x7f) = 1"
    by (simp_all add: word_unat_eq_iff)
  then show ?thesis
    by (simp add: frames.simps ws_read_header_def ws_pkg_size_def sint_u32_small)
qed

theorem ws_loop_delivers_witness:
  "\<exists>r'. rx_ok r' \<and> received r' = [] \<and>
     on_recv_ws_data demo_env 1 1
       (set_rx 1 (demo_rx [0x82, 0x81, 1, 2, 3, 4, 8]) (demo_node service_default ())) =
       Some (Inr (set_rx 1 r' (demo_node service_default ())))"
proof -
  let ?bs = "[0x82, 0x81, 1, 2, 3, 4, 8] :: byte list"
  let ?n = "set_rx 1 (demo_rx ?bs) (demo_node service_default ())"
  have "\<exists>r'. rx_ok r' \<and> received r' = [] \<and>
      on_recv_ws_data demo_env 1 1 ?n = Some (map_result (set_rx 1 r')
        (deliver (dispatch_ws demo_env 1 1) [(?bs, 6)] ?n))"
    by (rule ws_loop_delivers [OF demo_uv_at])
      (simp_all add: demo_rx_ok frames_masked zero_size_at_def)
  then show ?thesis by (simp add: dispatch_ws_def command_short)
qed

text \<open>
  C36: A TCP packet that announces a size of zero is never consumed: the loop dispatches nothing
  and does not return, so that the whole server stands still. Two zero bytes are enough.
\<close>

theorem tcp_zero_size_hangs:
  assumes "uv_at n i = Inr s" "rx_ok (rx s)" "received (rx s) = 0 # 0 # rest"
  shows "on_recv_tcp_data E depth i n = None"
proof -
  have pos: "0 < recved (rx s)" using received_empty [OF assms(2)] assms(3) by force
  note r = received_hdr [OF tp_framing.framing_axioms assms(2) pos]
  have hd: "tp_read_header (pkg_data (rx s)) (recved (rx s)) = Some (0, 2)"
    unfolding r(1) assms(3) by (simp add: tp_read_header_def le16_def)
  have "tcp_iteration E depth i n = Inr (True, n)"
    using assms(1) pos hd consume_rx_0 [OF assms(2) pos] set_rx_same [OF assms(1)]
    by (simp add: tcp_iteration_def Let_def command_short consume_pkg_def)
  then show ?thesis unfolding on_recv_tcp_data_def by (rule recv_loop_stuck)
qed

theorem tcp_zero_size_hangs_witness:
  "on_recv_tcp_data demo_env 5 1 (set_rx 1 (demo_rx [0, 0]) (demo_node service_default ())) = None"
  by (rule tcp_zero_size_hangs [OF demo_uv_at]) (simp_all add: demo_rx_ok)

text \<open>
  A WebSocket frame that is not a final text or binary frame (a ping, a pong, a close, a
  fragment) is neither answered nor skipped: the loop stops in front of it, and does so again
  with whatever arrives after it, so that no later frame is ever dispatched.
\<close>

theorem ws_control_frame_blocks:
  assumes "uv_at n i = Inr s" "rx_ok (rx s)" "received (rx s) = b # rest" "b \<noteq> 0x81" "b \<noteq> 0x82"
  shows "on_recv_ws_data E depth i n = Some (Inr n)"
proof -
  have pos: "0 < recved (rx s)" using received_empty [OF assms(2)] assms(3) by force
  note r = received_hdr [OF ws_framing.framing_axioms assms(2) pos]
  have hd: "ws_read_header (pkg_data (rx s)) (recved (rx s)) = None"
    unfolding r(1) assms(3) using assms(4,5) by (simp add: ws_read_header_def)
  have "ws_iteration E depth i n = Inr (False, n)"
    using assms(1) pos hd by (simp add: ws_iteration_def Let_def)
  then show ?thesis unfolding on_recv_ws_data_def by (subst recv_loop.simps) simp
qed

theorem ws_control_frame_blocks_witness:
  "on_recv_ws_data demo_env 5 1
      (set_rx 1 (demo_rx [0x89, 0x80, 1, 2, 3, 4, 0x82, 0x80, 1, 2, 3, 4]) (demo_node service_default ())) =
    Some (Inr (set_rx 1 (demo_rx [0x89, 0x80, 1, 2, 3, 4, 0x82, 0x80, 1, 2, 3, 4]) (demo_node service_default ())))"
  by (rule ws_control_frame_blocks [OF demo_uv_at, where b = "0x89"
        and rest = "[0x80, 1, 2, 3, 4, 0x82, 0x80, 1, 2, 3, 4]"]) (simp_all add: demo_rx_ok word_unat_eq_iff)

end
