(* ===== verification/Http_Base.thy ===== *)
theory Http_Base
  imports Hyxd_Base
begin

text \<open>
  The vocabulary of the HTTP parser, \<open>3rd/http_parser/http_parser.c\<close> and its header
  (version 2.7, strict mode): the enumerations, the character tables and classes, the parser
  object, and the parser of URLs. Characters are compared by their codes; the tables are the
  source's, and the lemmas say which characters they select.
\<close>

section \<open>Enumerations\<close>

datatype (plugins only: code size) http_state =
    s_dead | s_start_req_or_res | s_res_or_resp_H | s_start_res | s_res_H | s_res_HT
    | s_res_HTT | s_res_HTTP | s_res_first_http_major | s_res_http_major
    | s_res_first_http_minor | s_res_http_minor | s_res_first_status_code
    | s_res_status_code | s_res_status_start | s_res_status | s_res_line_almost_done
    | s_start_req | s_req_method | s_req_spaces_before_url | s_req_schema
    | s_req_schema_slash | s_req_schema_slash_slash | s_req_server_start | s_req_server
    | s_req_server_with_at | s_req_path | s_req_query_string_start | s_req_query_string
    | s_req_fragment_start | s_req_fragment | s_req_http_start | s_req_http_H
    | s_req_http_HT | s_req_http_HTT | s_req_http_HTTP | s_req_first_http_major
    | s_req_http_major | s_req_first_http_minor | s_req_http_minor | s_req_line_almost_done
    | s_header_field_start | s_header_field | s_header_value_discard_ws
    | s_header_value_discard_ws_almost_done | s_header_value_discard_lws
    | s_header_value_start | s_header_value | s_header_value_lws | s_header_almost_done
    | s_chunk_size_start | s_chunk_size | s_chunk_parameters | s_chunk_size_almost_done
    | s_headers_almost_done | s_headers_done | s_chunk_data | s_chunk_data_almost_done
    | s_chunk_data_done | s_body_identity | s_body_identity_eof | s_message_done

text \<open>The order of the enumeration, which \<open>PARSING_HEADER\<close> relies on.\<close>

primrec http_state_num :: "http_state \<Rightarrow> nat" where
  "http_state_num s_dead = 1"
| "http_state_num s_start_req_or_res = 2"
| "http_state_num s_res_or_resp_H = 3"
| "http_state_num s_start_res = 4"
| "http_state_num s_res_H = 5"
| "http_state_num s_res_HT = 6"
| "http_state_num s_res_HTT = 7"
| "http_state_num s_res_HTTP = 8"
| "http_state_num s_res_first_http_major = 9"
| "http_state_num s_res_http_major = 10"
| "http_state_num s_res_first_http_minor = 11"
| "http_state_num s_res_http_minor = 12"
| "http_state_num s_res_first_status_code = 13"
| "http_state_num s_res_status_code = 14"
| "http_state_num s_res_status_start = 15"
| "http_state_num s_res_status = 16"
| "http_state_num s_res_line_almost_done = 17"
| "http_state_num s_start_req = 18"
| "http_state_num s_req_method = 19"
| "http_state_num s_req_spaces_before_url = 20"
| "http_state_num s_req_schema = 21"
| "http_state_num s_req_schema_slash = 22"
| "http_state_num s_req_schema_slash_slash = 23"
| "http_state_num s_req_server_start = 24"
| "http_state_num s_req_server = 25"
| "http_state_num s_req_server_with_at = 26"
| "http_state_num s_req_path = 27"
| "http_state_num s_req_query_string_start = 28"
| "http_state_num s_req_query_string = 29"
| "http_state_num s_req_fragment_start = 30"
| "http_state_num s_req_fragment = 31"
| "http_state_num s_req_http_start = 32"
| "http_state_num s_req_http_H = 33"
| "http_state_num s_req_http_HT = 34"
| "http_state_num s_req_http_HTT = 35"
| "http_state_num s_req_http_HTTP = 36"
| "http_state_num s_req_first_http_major = 37"
| "http_state_num s_req_http_major = 38"
| "http_state_num s_req_first_http_minor = 39"
| "http_state_num s_req_http_minor = 40"
| "http_state_num s_req_line_almost_done = 41"
| "http_state_num s_header_field_start = 42"
| "http_state_num s_header_field = 43"
| "http_state_num s_header_value_discard_ws = 44"
| "http_state_num s_header_value_discard_ws_almost_done = 45"
| "http_state_num s_header_value_discard_lws = 46"
| "http_state_num s_header_value_start = 47"
| "http_state_num s_header_value = 48"
| "http_state_num s_header_value_lws = 49"
| "http_state_num s_header_almost_done = 50"
| "http_state_num s_chunk_size_start = 51"
| "http_state_num s_chunk_size = 52"
| "http_state_num s_chunk_parameters = 53"
| "http_state_num s_chunk_size_almost_done = 54"
| "http_state_num s_headers_almost_done = 55"
| "http_state_num s_headers_done = 56"
| "http_state_num s_chunk_data = 57"
| "http_state_num s_chunk_data_almost_done = 58"
| "http_state_num s_chunk_data_done = 59"
| "http_state_num s_body_identity = 60"
| "http_state_num s_body_identity_eof = 61"
| "http_state_num s_message_done = 62"

lemma http_state_num_inverse:
  "[s_dead, s_start_req_or_res, s_res_or_resp_H, s_start_res, s_res_H, s_res_HT, s_res_HTT,
     s_res_HTTP, s_res_first_http_major, s_res_http_major, s_res_first_http_minor,
     s_res_http_minor, s_res_first_status_code, s_res_status_code, s_res_status_start,
     s_res_status, s_res_line_almost_done, s_start_req, s_req_method,
     s_req_spaces_before_url, s_req_schema, s_req_schema_slash, s_req_schema_slash_slash,
     s_req_server_start, s_req_server, s_req_server_with_at, s_req_path,
     s_req_query_string_start, s_req_query_string, s_req_fragment_start, s_req_fragment,
     s_req_http_start, s_req_http_H, s_req_http_HT, s_req_http_HTT, s_req_http_HTTP,
     s_req_first_http_major, s_req_http_major, s_req_first_http_minor, s_req_http_minor,
     s_req_line_almost_done, s_header_field_start, s_header_field,
     s_header_value_discard_ws, s_header_value_discard_ws_almost_done,
     s_header_value_discard_lws, s_header_value_start, s_header_value, s_header_value_lws,
     s_header_almost_done, s_chunk_size_start, s_chunk_size, s_chunk_parameters,
     s_chunk_size_almost_done, s_headers_almost_done, s_headers_done, s_chunk_data,
     s_chunk_data_almost_done, s_chunk_data_done, s_body_identity, s_body_identity_eof,
     s_message_done]
     ! (http_state_num s - 1) = s"
  by (cases s) simp_all

lemma http_state_num_inj: "http_state_num s = http_state_num t \<longleftrightarrow> s = t"
  by (metis http_state_num_inverse)

instantiation http_state :: linorder
begin

definition less_eq_http_state :: "http_state \<Rightarrow> http_state \<Rightarrow> bool" where
  "s \<le> t \<longleftrightarrow> http_state_num s \<le> http_state_num t"

definition less_http_state :: "http_state \<Rightarrow> http_state \<Rightarrow> bool" where
  "s < t \<longleftrightarrow> http_state_num s < http_state_num t"

instance
  by standard (auto simp: less_eq_http_state_def less_http_state_def http_state_num_inj)

end

definition PARSING_HEADER :: "http_state \<Rightarrow> bool" where
  "PARSING_HEADER s \<longleftrightarrow> s \<le> s_headers_done"

datatype (plugins only: code size) header_state =
    h_general | h_C | h_CO | h_CON | h_matching_connection | h_matching_proxy_connection
    | h_matching_content_length | h_matching_transfer_encoding | h_matching_upgrade
    | h_connection | h_content_length | h_transfer_encoding | h_upgrade
    | h_matching_transfer_encoding_chunked | h_matching_connection_token_start
    | h_matching_connection_keep_alive | h_matching_connection_close
    | h_matching_connection_upgrade | h_matching_connection_token
    | h_transfer_encoding_chunked | h_connection_keep_alive | h_connection_close
    | h_connection_upgrade

datatype (plugins only: code size) http_host_state =
    s_http_host_dead | s_http_userinfo_start | s_http_userinfo | s_http_host_start
    | s_http_host_v6_start | s_http_host | s_http_host_v6 | s_http_host_v6_end
    | s_http_host_v6_zone_start | s_http_host_v6_zone | s_http_host_port_start
    | s_http_host_port

datatype http_parser_type = HTTP_REQUEST | HTTP_RESPONSE | HTTP_BOTH

datatype (plugins only: code size) http_method =
    HTTP_DELETE | HTTP_GET | HTTP_HEAD | HTTP_POST | HTTP_PUT | HTTP_CONNECT | HTTP_OPTIONS
    | HTTP_TRACE | HTTP_COPY | HTTP_LOCK | HTTP_MKCOL | HTTP_MOVE | HTTP_PROPFIND
    | HTTP_PROPPATCH | HTTP_SEARCH | HTTP_UNLOCK | HTTP_BIND | HTTP_REBIND | HTTP_UNBIND
    | HTTP_ACL | HTTP_REPORT | HTTP_MKACTIVITY | HTTP_CHECKOUT | HTTP_MERGE | HTTP_MSEARCH
    | HTTP_NOTIFY | HTTP_SUBSCRIBE | HTTP_UNSUBSCRIBE | HTTP_PATCH | HTTP_PURGE
    | HTTP_MKCALENDAR | HTTP_LINK | HTTP_UNLINK

primrec method_string :: "http_method \<Rightarrow> string" where
  "method_string HTTP_DELETE = ''DELETE''"
| "method_string HTTP_GET = ''GET''"
| "method_string HTTP_HEAD = ''HEAD''"
| "method_string HTTP_POST = ''POST''"
| "method_string HTTP_PUT = ''PUT''"
| "method_string HTTP_CONNECT = ''CONNECT''"
| "method_string HTTP_OPTIONS = ''OPTIONS''"
| "method_string HTTP_TRACE = ''TRACE''"
| "method_string HTTP_COPY = ''COPY''"
| "method_string HTTP_LOCK = ''LOCK''"
| "method_string HTTP_MKCOL = ''MKCOL''"
| "method_string HTTP_MOVE = ''MOVE''"
| "method_string HTTP_PROPFIND = ''PROPFIND''"
| "method_string HTTP_PROPPATCH = ''PROPPATCH''"
| "method_string HTTP_SEARCH = ''SEARCH''"
| "method_string HTTP_UNLOCK = ''UNLOCK''"
| "method_string HTTP_BIND = ''BIND''"
| "method_string HTTP_REBIND = ''REBIND''"
| "method_string HTTP_UNBIND = ''UNBIND''"
| "method_string HTTP_ACL = ''ACL''"
| "method_string HTTP_REPORT = ''REPORT''"
| "method_string HTTP_MKACTIVITY = ''MKACTIVITY''"
| "method_string HTTP_CHECKOUT = ''CHECKOUT''"
| "method_string HTTP_MERGE = ''MERGE''"
| "method_string HTTP_MSEARCH = ''M-SEARCH''"
| "method_string HTTP_NOTIFY = ''NOTIFY''"
| "method_string HTTP_SUBSCRIBE = ''SUBSCRIBE''"
| "method_string HTTP_UNSUBSCRIBE = ''UNSUBSCRIBE''"
| "method_string HTTP_PATCH = ''PATCH''"
| "method_string HTTP_PURGE = ''PURGE''"
| "method_string HTTP_MKCALENDAR = ''MKCALENDAR''"
| "method_string HTTP_LINK = ''LINK''"
| "method_string HTTP_UNLINK = ''UNLINK''"

datatype (plugins only: code size) http_errno =
    HPE_OK | HPE_CB_message_begin | HPE_CB_url | HPE_CB_header_field | HPE_CB_header_value
    | HPE_CB_headers_complete | HPE_CB_body | HPE_CB_message_complete | HPE_CB_status
    | HPE_CB_chunk_header | HPE_CB_chunk_complete | HPE_INVALID_EOF_STATE
    | HPE_HEADER_OVERFLOW | HPE_CLOSED_CONNECTION | HPE_INVALID_VERSION | HPE_INVALID_STATUS
    | HPE_INVALID_METHOD | HPE_INVALID_URL | HPE_INVALID_HOST | HPE_INVALID_PORT
    | HPE_INVALID_PATH | HPE_INVALID_QUERY_STRING | HPE_INVALID_FRAGMENT | HPE_LF_EXPECTED
    | HPE_INVALID_HEADER_TOKEN | HPE_INVALID_CONTENT_LENGTH | HPE_UNEXPECTED_CONTENT_LENGTH
    | HPE_INVALID_CHUNK_SIZE | HPE_INVALID_CONSTANT | HPE_INVALID_INTERNAL_STATE
    | HPE_STRICT | HPE_PAUSED | HPE_UNKNOWN

text \<open>The values of the \<open>flags\<close> field.\<close>

definition F_CHUNKED :: byte where "F_CHUNKED = 1"
definition F_CONNECTION_KEEP_ALIVE :: byte where "F_CONNECTION_KEEP_ALIVE = 2"
definition F_CONNECTION_CLOSE :: byte where "F_CONNECTION_CLOSE = 4"
definition F_CONNECTION_UPGRADE :: byte where "F_CONNECTION_UPGRADE = 8"
definition F_TRAILING :: byte where "F_TRAILING = 16"
definition F_UPGRADE :: byte where "F_UPGRADE = 32"
definition F_SKIPBODY :: byte where "F_SKIPBODY = 64"
definition F_CONTENTLENGTH :: byte where "F_CONTENTLENGTH = 128"

section \<open>Characters\<close>

definition code :: "char \<Rightarrow> nat" where
  "code c = of_char c"

definition CR :: char where "CR = CHR 0x0D"
definition LF :: char where "LF = CHR 0x0A"
definition SP :: char where "SP = CHR '' ''"
definition TAB :: char where "TAB = CHR 0x09"

definition tokens :: "nat list" where
  "tokens =
     [0, 0, 0, 0, 0, 0, 0, 0, 0, 0, 0, 0, 0, 0, 0, 0, 0, 0, 0, 0, 0, 0, 0, 0, 0, 0, 0, 0, 0
     , 0, 0, 0, 0, 33, 0, 35, 36, 37, 38, 39, 0, 0, 42, 43, 0, 45, 46, 0, 48, 49, 50, 51, 52
     , 53, 54, 55, 56, 57, 0, 0, 0, 0, 0, 0, 0, 97, 98, 99, 100, 101, 102, 103, 104, 105
     , 106, 107, 108, 109, 110, 111, 112, 113, 114, 115, 116, 117, 118, 119, 120, 121, 122
     , 0, 0, 0, 94, 95, 96, 97, 98, 99, 100, 101, 102, 103, 104, 105, 106, 107, 108, 109
     , 110, 111, 112, 113, 114, 115, 116, 117, 118, 119, 120, 121, 122, 0, 124, 0, 126, 0]"

definition unhex :: "int list" where
  "unhex =
     [-1, -1, -1, -1, -1, -1, -1, -1, -1, -1, -1, -1, -1, -1, -1, -1, -1, -1, -1, -1, -1, -1
     , -1, -1, -1, -1, -1, -1, -1, -1, -1, -1, -1, -1, -1, -1, -1, -1, -1, -1, -1, -1, -1
     , -1, -1, -1, -1, -1, 0, 1, 2, 3, 4, 5, 6, 7, 8, 9, -1, -1, -1, -1, -1, -1, -1, 10, 11
     , 12, 13, 14, 15, -1, -1, -1, -1, -1, -1, -1, -1, -1, -1, -1, -1, -1, -1, -1, -1, -1
     , -1, -1, -1, -1, -1, -1, -1, -1, -1, 10, 11, 12, 13, 14, 15, -1, -1, -1, -1, -1, -1
     , -1, -1, -1, -1, -1, -1, -1, -1, -1, -1, -1, -1, -1, -1, -1, -1, -1, -1, -1]"

definition normal_url_char :: "nat list" where
  "normal_url_char = [0, 0, 0, 0, 246, 255, 255, 127, 255, 255, 255, 255, 255, 255, 255, 127]"

text \<open>The elements from 128 on are zero (of \<open>unhex\<close>, too: the initializer has 128).\<close>

definition table_at :: "'a::zero list \<Rightarrow> nat \<Rightarrow> 'a" where
  "table_at a i = (if i < length a then a ! i else 0)"

definition TOKEN :: "char \<Rightarrow> nat" where
  "TOKEN ch = table_at tokens (code ch)"

definition STRICT_TOKEN :: "nat \<Rightarrow> nat" where
  "STRICT_TOKEN c = table_at tokens c"

definition UNHEX :: "char \<Rightarrow> int" where
  "UNHEX ch = table_at unhex (code ch)"

definition IS_URL_CHAR :: "char \<Rightarrow> bool" where
  "IS_URL_CHAR ch \<longleftrightarrow> bit (table_at normal_url_char (code ch div 8)) (code ch mod 8)"

definition LOWER :: "char \<Rightarrow> nat" where
  "LOWER ch = code ch OR 0x20"

definition IS_ALPHA :: "char \<Rightarrow> bool" where
  "IS_ALPHA ch \<longleftrightarrow> code CHR ''a'' \<le> LOWER ch \<and> LOWER ch \<le> code CHR ''z''"

definition IS_NUM :: "char \<Rightarrow> bool" where
  "IS_NUM ch \<longleftrightarrow> code CHR ''0'' \<le> code ch \<and> code ch \<le> code CHR ''9''"

definition DIGIT :: "char \<Rightarrow> nat" where
  "DIGIT ch = code ch - code CHR ''0''"

definition IS_ALPHANUM :: "char \<Rightarrow> bool" where
  "IS_ALPHANUM ch \<longleftrightarrow> IS_ALPHA ch \<or> IS_NUM ch"

definition IS_HEX :: "char \<Rightarrow> bool" where
  "IS_HEX ch \<longleftrightarrow> IS_NUM ch \<or> (code CHR ''a'' \<le> LOWER ch \<and> LOWER ch \<le> code CHR ''f'')"

definition IS_MARK :: "char \<Rightarrow> bool" where
  "IS_MARK ch \<longleftrightarrow> ch \<in> set ''-_.!~*'' \<or> ch = CHR 0x27 \<or> ch \<in> set ''()''"

definition IS_USERINFO_CHAR :: "char \<Rightarrow> bool" where
  "IS_USERINFO_CHAR ch \<longleftrightarrow> IS_ALPHANUM ch \<or> IS_MARK ch \<or> ch \<in> set ''%;:&=+$,''"

definition IS_HOST_CHAR :: "char \<Rightarrow> bool" where
  "IS_HOST_CHAR ch \<longleftrightarrow> IS_ALPHANUM ch \<or> ch = CHR ''.'' \<or> ch = CHR ''-''"

definition IS_HEADER_CHAR :: "char \<Rightarrow> bool" where
  "IS_HEADER_CHAR ch \<longleftrightarrow> ch = CR \<or> ch = LF \<or> code ch = 9 \<or> (code ch > 31 \<and> code ch \<noteq> 127)"

end
