(* ===== verification/Http_Url.thy ===== *)
theory Http_Url
  imports Http_Base
begin

text \<open>
  The parser of URLs in \<open>3rd/http_parser/http_parser.c\<close>: the automaton \<open>parse_url_char\<close>,
  shared with the request parser, and \<open>http_parser_parse_url\<close> with its host parser, which
  turn the transitions into the offsets and lengths of a URL's parts (16-bit fields).
\<close>

section \<open>The automaton\<close>

definition parse_url_char :: "http_state \<Rightarrow> char \<Rightarrow> http_state" where
  "parse_url_char s ch =
     (if ch = SP \<or> ch = CR \<or> ch = LF then s_dead
      else if ch = TAB \<or> ch = CHR 0x0C then s_dead
      else let server =
        (if ch = CHR ''/'' then s_req_path
         else if ch = CHR ''?'' then s_req_query_string_start
         else if ch = CHR ''@'' then s_req_server_with_at
         else if IS_USERINFO_CHAR ch \<or> ch = CHR ''['' \<or> ch = CHR '']'' then s_req_server
         else s_dead)
      in case s of
        s_req_spaces_before_url \<Rightarrow>
          if ch = CHR ''/'' \<or> ch = CHR ''*'' then s_req_path
          else if IS_ALPHA ch then s_req_schema else s_dead
      | s_req_schema \<Rightarrow>
          if IS_ALPHA ch then s else if ch = CHR '':'' then s_req_schema_slash else s_dead
      | s_req_schema_slash \<Rightarrow> if ch = CHR ''/'' then s_req_schema_slash_slash else s_dead
      | s_req_schema_slash_slash \<Rightarrow> if ch = CHR ''/'' then s_req_server_start else s_dead
      | s_req_server_with_at \<Rightarrow> if ch = CHR ''@'' then s_dead else server
      | s_req_server_start \<Rightarrow> server
      | s_req_server \<Rightarrow> server
      | s_req_path \<Rightarrow>
          if IS_URL_CHAR ch then s
          else if ch = CHR ''?'' then s_req_query_string_start
          else if ch = CHR ''#'' then s_req_fragment_start else s_dead
      | s_req_query_string_start \<Rightarrow>
          if IS_URL_CHAR ch then s_req_query_string
          else if ch = CHR ''?'' then s_req_query_string
          else if ch = CHR ''#'' then s_req_fragment_start else s_dead
      | s_req_query_string \<Rightarrow>
          if IS_URL_CHAR ch then s_req_query_string
          else if ch = CHR ''?'' then s_req_query_string
          else if ch = CHR ''#'' then s_req_fragment_start else s_dead
      | s_req_fragment_start \<Rightarrow>
          if IS_URL_CHAR ch then s_req_fragment
          else if ch = CHR ''?'' then s_req_fragment
          else if ch = CHR ''#'' then s else s_dead
      | s_req_fragment \<Rightarrow>
          if IS_URL_CHAR ch then s
          else if ch = CHR ''?'' \<or> ch = CHR ''#'' then s else s_dead
      | _ \<Rightarrow> s_dead)"

definition http_parse_host_char :: "http_host_state \<Rightarrow> char \<Rightarrow> http_host_state" where
  "http_parse_host_char s ch =
     (let userinfo = (if ch = CHR ''@'' then s_http_host_start
                      else if IS_USERINFO_CHAR ch then s_http_userinfo else s_http_host_dead);
          v6_end = (if ch = CHR '':'' then s_http_host_port_start else s_http_host_dead);
          v6_start = (if IS_HEX ch \<or> ch = CHR '':'' \<or> ch = CHR ''.'' then s_http_host_v6
                      else if s = s_http_host_v6 \<and> ch = CHR ''%'' then s_http_host_v6_zone_start
                      else s_http_host_dead);
          zone_start = (if IS_ALPHANUM ch \<or> ch \<in> set ''%.-_~'' then s_http_host_v6_zone
                        else s_http_host_dead);
          port_start = (if IS_NUM ch then s_http_host_port else s_http_host_dead)
      in case s of
        s_http_userinfo \<Rightarrow> userinfo
      | s_http_userinfo_start \<Rightarrow> userinfo
      | s_http_host_start \<Rightarrow>
          if ch = CHR ''['' then s_http_host_v6_start
          else if IS_HOST_CHAR ch then s_http_host else s_http_host_dead
      | s_http_host \<Rightarrow> if IS_HOST_CHAR ch then s_http_host else v6_end
      | s_http_host_v6_end \<Rightarrow> v6_end
      | s_http_host_v6 \<Rightarrow> if ch = CHR '']'' then s_http_host_v6_end else v6_start
      | s_http_host_v6_start \<Rightarrow> v6_start
      | s_http_host_v6_zone \<Rightarrow> if ch = CHR '']'' then s_http_host_v6_end else zone_start
      | s_http_host_v6_zone_start \<Rightarrow> zone_start
      | s_http_host_port \<Rightarrow> port_start
      | s_http_host_port_start \<Rightarrow> port_start
      | _ \<Rightarrow> s_http_host_dead)"

section \<open>The parts of a URL\<close>

datatype url_field = UF_SCHEMA | UF_HOST | UF_PORT | UF_PATH | UF_QUERY | UF_FRAGMENT | UF_USERINFO

text \<open>\<open>field_set\<close> is the bit mask, as the set of fields whose bit is set.\<close>

record http_parser_url =
  field_set :: "url_field set"
  url_port :: nat
  field_off :: "url_field \<Rightarrow> nat"
  field_len :: "url_field \<Rightarrow> nat"

definition u16 :: "nat \<Rightarrow> nat" where
  "u16 n = n mod 65536"

definition set_off :: "url_field \<Rightarrow> nat \<Rightarrow> http_parser_url \<Rightarrow> http_parser_url" where
  "set_off f n u = u\<lparr>field_off := (field_off u)(f := u16 n)\<rparr>"

definition set_len :: "url_field \<Rightarrow> nat \<Rightarrow> http_parser_url \<Rightarrow> http_parser_url" where
  "set_len f n u = u\<lparr>field_len := (field_len u)(f := u16 n)\<rparr>"

definition inc_len :: "url_field \<Rightarrow> http_parser_url \<Rightarrow> http_parser_url" where
  "inc_len f u = set_len f (field_len u f + 1) u"

definition add_field :: "url_field \<Rightarrow> http_parser_url \<Rightarrow> http_parser_url" where
  "add_field f u = u\<lparr>field_set := insert f (field_set u)\<rparr>"

definition http_parser_url_init :: http_parser_url where
  "http_parser_url_init = \<lparr>field_set = {}, url_port = 0, field_off = (\<lambda>_. 0), field_len = (\<lambda>_. 0)\<rparr>"

text \<open>The body of the host parser's loop, for the new state at offset \<open>i\<close>.\<close>

definition host_step :: "http_host_state \<Rightarrow> http_host_state \<Rightarrow> nat \<Rightarrow> http_parser_url \<Rightarrow> http_parser_url" where
  "host_step s new_s i u =
     (case new_s of
        s_http_host \<Rightarrow> inc_len UF_HOST (if s \<noteq> s_http_host then set_off UF_HOST i u else u)
      | s_http_host_v6 \<Rightarrow> inc_len UF_HOST (if s \<noteq> s_http_host_v6 then set_off UF_HOST i u else u)
      | s_http_host_v6_zone_start \<Rightarrow> inc_len UF_HOST u
      | s_http_host_v6_zone \<Rightarrow> inc_len UF_HOST u
      | s_http_host_port \<Rightarrow>
          inc_len UF_PORT (if s \<noteq> s_http_host_port
                           then add_field UF_PORT (set_len UF_PORT 0 (set_off UF_PORT i u)) else u)
      | s_http_userinfo \<Rightarrow>
          inc_len UF_USERINFO (if s \<noteq> s_http_userinfo
                               then add_field UF_USERINFO (set_len UF_USERINFO 0 (set_off UF_USERINFO i u))
                               else u)
      | _ \<Rightarrow> u)"

fun host_loop :: "string \<Rightarrow> nat \<Rightarrow> http_host_state \<Rightarrow> http_parser_url
    \<Rightarrow> (http_host_state \<times> http_parser_url) option" where
  "host_loop [] i s u = Some (s, u)"
| "host_loop (ch # rest) i s u =
     (let new_s = http_parse_host_char s ch in
      if new_s = s_http_host_dead then None
      else host_loop rest (i + 1) new_s (host_step s new_s i u))"

text \<open>\<open>None\<close> is the return value 1.\<close>

definition http_parse_host :: "string \<Rightarrow> http_parser_url \<Rightarrow> bool \<Rightarrow> http_parser_url option" where
  "http_parse_host buf u found_at =
     (let off = field_off u UF_HOST; n = field_len u UF_HOST;
          u = set_len UF_HOST 0 u;
          s = (if found_at then s_http_userinfo_start else s_http_host_start)
      in case host_loop (take n (drop off buf)) off s u of
           None \<Rightarrow> None
         | Some (s, u) \<Rightarrow>
             if s \<in> {s_http_host_start, s_http_host_v6_start, s_http_host_v6,
                      s_http_host_v6_zone_start, s_http_host_v6_zone, s_http_host_port_start,
                      s_http_userinfo, s_http_userinfo_start}
             then None else Some u)"

text \<open>The field a state of the automaton belongs to; the delimiters belong to none.\<close>

definition url_uf :: "http_state \<Rightarrow> url_field option option" where
  "url_uf s =
     (case s of
        s_req_schema_slash \<Rightarrow> Some None
      | s_req_schema_slash_slash \<Rightarrow> Some None
      | s_req_server_start \<Rightarrow> Some None
      | s_req_query_string_start \<Rightarrow> Some None
      | s_req_fragment_start \<Rightarrow> Some None
      | s_req_schema \<Rightarrow> Some (Some UF_SCHEMA)
      | s_req_server_with_at \<Rightarrow> Some (Some UF_HOST)
      | s_req_server \<Rightarrow> Some (Some UF_HOST)
      | s_req_path \<Rightarrow> Some (Some UF_PATH)
      | s_req_query_string \<Rightarrow> Some (Some UF_QUERY)
      | s_req_fragment \<Rightarrow> Some (Some UF_FRAGMENT)
      | _ \<Rightarrow> None)"

fun url_loop :: "string \<Rightarrow> nat \<Rightarrow> http_state \<Rightarrow> url_field option \<Rightarrow> bool \<Rightarrow> http_parser_url
    \<Rightarrow> (bool \<times> http_parser_url) option" where
  "url_loop [] i s old_uf found_at u = Some (found_at, u)"
| "url_loop (ch # rest) i s old_uf found_at u =
     (let s = parse_url_char s ch in
      if s = s_dead then None
      else case url_uf s of
        None \<Rightarrow> None
      | Some None \<Rightarrow> url_loop rest (i + 1) s old_uf found_at u
      | Some (Some uf) \<Rightarrow>
          (let found_at = (found_at \<or> s = s_req_server_with_at) in
           if old_uf = Some uf then url_loop rest (i + 1) s old_uf found_at (inc_len uf u)
           else url_loop rest (i + 1) s (Some uf) found_at
                  (add_field uf (set_len uf 1 (set_off uf i u)))))"

text \<open>\<open>strtoul\<close> on the digits of the port.\<close>

definition strtoul :: "string \<Rightarrow> nat" where
  "strtoul s = fold (\<lambda>c v. v * 10 + DIGIT c) (takeWhile IS_NUM s) 0"

definition http_parser_parse_url :: "string \<Rightarrow> bool \<Rightarrow> http_parser_url \<Rightarrow> http_parser_url option" where
  "http_parser_parse_url buf is_connect u =
     (let u = u\<lparr>url_port := 0, field_set := {}\<rparr>;
          s = (if is_connect then s_req_server_start else s_req_spaces_before_url)
      in case url_loop buf 0 s None False u of
           None \<Rightarrow> None
         | Some (found_at, u) \<Rightarrow>
             if UF_SCHEMA \<in> field_set u \<and> UF_HOST \<notin> field_set u then None
             else case (if UF_HOST \<in> field_set u then http_parse_host buf u found_at else Some u) of
               None \<Rightarrow> None
             | Some u \<Rightarrow>
                 if is_connect \<and> field_set u \<noteq> {UF_HOST, UF_PORT} then None
                 else if UF_PORT \<in> field_set u then
                   (let v = strtoul (drop (field_off u UF_PORT) buf)
                    in if v > 0xffff then None else Some (u\<lparr>url_port := v\<rparr>))
                 else Some u)"

end
