(* ===== verification/Http_Parser.thy ===== *)
theory Http_Parser
  imports Http_Url
begin

text \<open>
  The incremental HTTP parser, \<open>http_parser_execute\<close> of \<open>3rd/http_parser/http_parser.c\<close>
  (strict mode). The parser object is a record, the local variables of the function are the
  record \<open>exec\<close>. The body of the \<open>switch\<close> is one definition per group of states, composed by
  \<open>exec_state\<close>; it yields an \<open>outcome\<close>: the \<open>break\<close> that goes on to the next character,
  the \<open>goto reexecute\<close>, the \<open>goto error\<close>, or a return. The callbacks are a parameter; they see
  the parser, may report an error or pause it, and keep a state of their own (\<open>'u\<close>), but do
  not assign its fields, which the header declares private or read-only.
\<close>

section \<open>The parser object\<close>

definition HTTP_MAX_HEADER_SIZE :: nat where
  "HTTP_MAX_HEADER_SIZE = 80 * 1024"

definition ULLONG_MAX :: nat where
  "ULLONG_MAX = 2 ^ 64 - 1"

record http_parser =
  hp_type :: http_parser_type
  hp_flags :: byte
  hp_state :: http_state
  header_state :: header_state
  hp_index :: nat                \<comment> \<open>7 bits\<close>
  lenient_http_headers :: bool
  hp_nread :: nat                \<comment> \<open>32 bits\<close>
  content_length :: nat          \<comment> \<open>64 bits\<close>
  http_major :: nat
  http_minor :: nat
  status_code :: nat
  hp_method :: http_method
  hp_errno :: http_errno
  hp_upgrade :: bool

definition http_parser_init :: "http_parser_type \<Rightarrow> http_parser" where
  "http_parser_init t =
     \<lparr>hp_type = t, hp_flags = 0,
      hp_state = (if t = HTTP_REQUEST then s_start_req
                  else if t = HTTP_RESPONSE then s_start_res else s_start_req_or_res),
      header_state = h_general, hp_index = 0, lenient_http_headers = False, hp_nread = 0,
      content_length = 0, http_major = 0, http_minor = 0, status_code = 0,
      hp_method = HTTP_DELETE, hp_errno = HPE_OK, hp_upgrade = False\<rparr>"

definition flag_set :: "byte \<Rightarrow> http_parser \<Rightarrow> bool" where
  "flag_set f ps \<longleftrightarrow> hp_flags ps AND f \<noteq> 0"

definition set_flag :: "byte \<Rightarrow> http_parser \<Rightarrow> http_parser" where
  "set_flag f ps = ps\<lparr>hp_flags := hp_flags ps OR f\<rparr>"

definition inc_index :: "http_parser \<Rightarrow> http_parser" where
  "inc_index ps = ps\<lparr>hp_index := (hp_index ps + 1) mod 128\<rparr>"

definition http_message_needs_eof :: "http_parser \<Rightarrow> bool" where
  "http_message_needs_eof ps =
     (if hp_type ps = HTTP_REQUEST then False
      else if status_code ps div 100 = 1 \<or> status_code ps = 204 \<or> status_code ps = 304
              \<or> flag_set F_SKIPBODY ps then False
      else if flag_set F_CHUNKED ps \<or> content_length ps \<noteq> ULLONG_MAX then False
      else True)"

definition http_should_keep_alive :: "http_parser \<Rightarrow> bool" where
  "http_should_keep_alive ps =
     (if http_major ps > 0 \<and> http_minor ps > 0 then
        (if flag_set F_CONNECTION_CLOSE ps then False else \<not> http_message_needs_eof ps)
      else if \<not> flag_set F_CONNECTION_KEEP_ALIVE ps then False
      else \<not> http_message_needs_eof ps)"

definition start_state :: "http_parser \<Rightarrow> http_state" where
  "start_state ps = (if hp_type ps = HTTP_REQUEST then s_start_req else s_start_res)"

definition NEW_MESSAGE :: "http_parser \<Rightarrow> http_state" where
  "NEW_MESSAGE ps = (if http_should_keep_alive ps then start_state ps else s_dead)"

definition http_parser_pause :: "bool \<Rightarrow> http_parser \<Rightarrow> http_parser result" where
  "http_parser_pause paused ps =
     (if hp_errno ps = HPE_OK \<or> hp_errno ps = HPE_PAUSED
      then Inr (ps\<lparr>hp_errno := (if paused then HPE_PAUSED else HPE_OK)\<rparr>)
      else Inl AssertFailed)"

definition http_body_is_final :: "http_parser \<Rightarrow> bool" where
  "http_body_is_final ps \<longleftrightarrow> hp_state ps = s_message_done"

section \<open>Callbacks\<close>

text \<open>
  What a callback does: its return value, whether it pauses the parser, its own new state. A
  data callback gets the text from the mark on and the length of its piece.
\<close>

type_synonym 'u http_cb = "http_parser \<Rightarrow> 'u \<Rightarrow> int \<times> bool \<times> 'u"
type_synonym 'u http_data_cb = "http_parser \<Rightarrow> string \<Rightarrow> nat \<Rightarrow> 'u \<Rightarrow> int \<times> bool \<times> 'u"

record 'u http_parser_settings =
  on_message_begin :: "'u http_cb option"
  on_url :: "'u http_data_cb option"
  on_status :: "'u http_data_cb option"
  on_header_field :: "'u http_data_cb option"
  on_header_value :: "'u http_data_cb option"
  on_headers_complete :: "'u http_cb option"
  on_body :: "'u http_data_cb option"
  on_message_complete :: "'u http_cb option"
  on_chunk_header :: "'u http_cb option"
  on_chunk_complete :: "'u http_cb option"

definition http_parser_settings_init :: "'u http_parser_settings" where
  "http_parser_settings_init =
     \<lparr>on_message_begin = None, on_url = None, on_status = None, on_header_field = None,
      on_header_value = None, on_headers_complete = None, on_body = None,
      on_message_complete = None, on_chunk_header = None, on_chunk_complete = None\<rparr>"

section \<open>The local variables\<close>

record 'u exec =
  parser :: http_parser
  user :: 'u
  pos :: nat                     \<comment> \<open>\<open>p - data\<close>\<close>
  p_state :: http_state
  header_field_mark :: "nat option"
  header_value_mark :: "nat option"
  url_mark :: "nat option"
  body_mark :: "nat option"
  status_mark :: "nat option"

datatype 'u outcome =
    Break "'u exec"
  | Reexec "'u exec"
  | Fail "'u exec"               \<comment> \<open>\<open>goto error\<close>\<close>
  | Return nat "'u exec"
  | Abort                        \<comment> \<open>a failed assertion\<close>

definition UPDATE_STATE :: "http_state \<Rightarrow> 'u exec \<Rightarrow> 'u exec" where
  "UPDATE_STATE s x = x\<lparr>p_state := s\<rparr>"

definition SET_ERRNO :: "http_errno \<Rightarrow> 'u exec \<Rightarrow> 'u exec" where
  "SET_ERRNO e x = x\<lparr>parser := (parser x)\<lparr>hp_errno := e\<rparr>\<rparr>"

definition upd :: "(http_parser \<Rightarrow> http_parser) \<Rightarrow> 'u exec \<Rightarrow> 'u exec" where
  "upd f x = x\<lparr>parser := f (parser x)\<rparr>"

text \<open>\<open>SET_ERRNO(e); goto error\<close>, and \<open>RETURN(v)\<close>, which saves the state.\<close>

definition fail :: "http_errno \<Rightarrow> 'u exec \<Rightarrow> 'u outcome" where
  "fail e x = Fail (SET_ERRNO e x)"

definition RETURN :: "nat \<Rightarrow> 'u exec \<Rightarrow> 'u outcome" where
  "RETURN v x = Return v (upd (\<lambda>ps. ps\<lparr>hp_state := p_state x\<rparr>) x)"

definition assert_that :: "bool \<Rightarrow> 'u outcome \<Rightarrow> 'u outcome" where
  "assert_that b k = (if b then k else Abort)"

text \<open>A callback that pauses the parser calls \<open>http_parser_pause\<close>, whose assertion may fail.\<close>

definition cb_pause :: "bool \<Rightarrow> ('u exec \<Rightarrow> 'u outcome) \<Rightarrow> 'u exec \<Rightarrow> 'u outcome" where
  "cb_pause paused k x =
     (if paused then
        (case http_parser_pause True (parser x) of
           Inl e \<Rightarrow> Abort
         | Inr ps \<Rightarrow> k (x\<lparr>parser := ps\<rparr>))
      else k x)"

text \<open>What follows a callback: its result is recorded, and an error or a pause returns.\<close>

definition after_cb :: "http_errno \<Rightarrow> nat \<Rightarrow> ('u exec \<Rightarrow> 'u outcome) \<Rightarrow> int \<times> bool \<times> 'u \<Rightarrow> 'u exec \<Rightarrow> 'u outcome" where
  "after_cb e er k = (\<lambda>(ret, paused, u).
     cb_pause paused (\<lambda>x.
       let x = x\<lparr>user := u\<rparr>;
           x = (if ret \<noteq> 0 then SET_ERRNO e x else x)
       in if hp_errno (parser x) \<noteq> HPE_OK then Return er x else k x))"

definition CALLBACK_NOTIFY :: "'u http_cb option \<Rightarrow> http_errno \<Rightarrow> nat \<Rightarrow> ('u exec \<Rightarrow> 'u outcome) \<Rightarrow> 'u exec \<Rightarrow> 'u outcome" where
  "CALLBACK_NOTIFY cb e er k x =
     assert_that (hp_errno (parser x) = HPE_OK)
     (case cb of
        None \<Rightarrow> k x
      | Some f \<Rightarrow>
          (let x = upd (\<lambda>ps. ps\<lparr>hp_state := p_state x\<rparr>) x
           in after_cb e er k (f (parser x) (user x)) x))"

text \<open>A data callback, for one of the five marks, with a length and a return value.\<close>

datatype mark_name = Header_Field | Header_Value | Url | Body | Status

primrec get_mark :: "mark_name \<Rightarrow> 'u exec \<Rightarrow> nat option" where
  "get_mark Header_Field x = header_field_mark x"
| "get_mark Header_Value x = header_value_mark x"
| "get_mark Url x = url_mark x"
| "get_mark Body x = body_mark x"
| "get_mark Status x = status_mark x"

primrec set_mark :: "mark_name \<Rightarrow> nat option \<Rightarrow> 'u exec \<Rightarrow> 'u exec" where
  "set_mark Header_Field m x = x\<lparr>header_field_mark := m\<rparr>"
| "set_mark Header_Value m x = x\<lparr>header_value_mark := m\<rparr>"
| "set_mark Url m x = x\<lparr>url_mark := m\<rparr>"
| "set_mark Body m x = x\<lparr>body_mark := m\<rparr>"
| "set_mark Status m x = x\<lparr>status_mark := m\<rparr>"

primrec data_cb :: "mark_name \<Rightarrow> 'u http_parser_settings \<Rightarrow> 'u http_data_cb option" where
  "data_cb Header_Field st = on_header_field st"
| "data_cb Header_Value st = on_header_value st"
| "data_cb Url st = on_url st"
| "data_cb Body st = on_body st"
| "data_cb Status st = on_status st"

primrec cb_errno :: "mark_name \<Rightarrow> http_errno" where
  "cb_errno Header_Field = HPE_CB_header_field"
| "cb_errno Header_Value = HPE_CB_header_value"
| "cb_errno Url = HPE_CB_url"
| "cb_errno Body = HPE_CB_body"
| "cb_errno Status = HPE_CB_status"

definition CALLBACK_DATA_TO ::
  "'u http_parser_settings \<Rightarrow> string \<Rightarrow> mark_name \<Rightarrow> nat \<Rightarrow> nat \<Rightarrow> ('u exec \<Rightarrow> 'u outcome) \<Rightarrow> 'u exec \<Rightarrow> 'u outcome" where
  "CALLBACK_DATA_TO st data f to er k x =
     assert_that (hp_errno (parser x) = HPE_OK)
     (case get_mark f x of
        None \<Rightarrow> k x
      | Some m \<Rightarrow>
          (case data_cb f st of
             None \<Rightarrow> k (set_mark f None x)
           | Some cb \<Rightarrow>
               (let x = upd (\<lambda>ps. ps\<lparr>hp_state := p_state x\<rparr>) x
                in after_cb (cb_errno f) er (\<lambda>x. k (set_mark f None x))
                     (cb (parser x) (drop m data) (to - m) (user x)) x)))"

text \<open>The two usual forms: up to \<open>p\<close>, consuming the current byte or not.\<close>

definition CALLBACK_DATA ::
  "'u http_parser_settings \<Rightarrow> string \<Rightarrow> mark_name \<Rightarrow> ('u exec \<Rightarrow> 'u outcome) \<Rightarrow> 'u exec \<Rightarrow> 'u outcome" where
  "CALLBACK_DATA st data f k x = CALLBACK_DATA_TO st data f (pos x) (pos x + 1) k x"

definition CALLBACK_DATA_NOADVANCE ::
  "'u http_parser_settings \<Rightarrow> string \<Rightarrow> mark_name \<Rightarrow> ('u exec \<Rightarrow> 'u outcome) \<Rightarrow> 'u exec \<Rightarrow> 'u outcome" where
  "CALLBACK_DATA_NOADVANCE st data f k x = CALLBACK_DATA_TO st data f (pos x) (pos x) k x"

definition MARK :: "mark_name \<Rightarrow> 'u exec \<Rightarrow> 'u exec" where
  "MARK f x = (if get_mark f x = None then set_mark f (Some (pos x)) x else x)"

definition COUNT_HEADER_SIZE :: "nat \<Rightarrow> ('u exec \<Rightarrow> 'u outcome) \<Rightarrow> 'u exec \<Rightarrow> 'u outcome" where
  "COUNT_HEADER_SIZE v k x =
     (let x = upd (\<lambda>ps. ps\<lparr>hp_nread := (hp_nread ps + v) mod 2 ^ 32\<rparr>) x
      in if hp_nread (parser x) > HTTP_MAX_HEADER_SIZE then fail HPE_HEADER_OVERFLOW x else k x)"

definition STRICT_CHECK :: "bool \<Rightarrow> 'u outcome \<Rightarrow> 'u exec \<Rightarrow> 'u outcome" where
  "STRICT_CHECK cond k x = (if cond then fail HPE_STRICT x else k)"

section \<open>Before the headers\<close>

text \<open>\<open>s_dead\<close>, and the states before it is known what kind of message comes.\<close>

definition exec_start ::
  "'u http_parser_settings \<Rightarrow> char \<Rightarrow> 'u exec \<Rightarrow> 'u outcome" where
  "exec_start st ch x =
     (case p_state x of
        s_dead \<Rightarrow>
          if ch = CR \<or> ch = LF then Break x else fail HPE_CLOSED_CONNECTION x
      | s_start_req_or_res \<Rightarrow>
          if ch = CR \<or> ch = LF then Break x
          else (let x = upd (\<lambda>ps. ps\<lparr>hp_flags := 0, content_length := ULLONG_MAX\<rparr>) x in
            if ch = CHR ''H'' then
              CALLBACK_NOTIFY (on_message_begin st) HPE_CB_message_begin (pos x + 1) Break
                (UPDATE_STATE s_res_or_resp_H x)
            else Reexec (UPDATE_STATE s_start_req (upd (\<lambda>ps. ps\<lparr>hp_type := HTTP_REQUEST\<rparr>) x)))
      | s_res_or_resp_H \<Rightarrow>
          if ch = CHR ''T'' then
            Break (UPDATE_STATE s_res_HT (upd (\<lambda>ps. ps\<lparr>hp_type := HTTP_RESPONSE\<rparr>) x))
          else if ch \<noteq> CHR ''E'' then fail HPE_INVALID_CONSTANT x
          else Break (UPDATE_STATE s_req_method
                 (upd (\<lambda>ps. ps\<lparr>hp_type := HTTP_REQUEST, hp_method := HTTP_HEAD, hp_index := 2\<rparr>) x))
      | s_start_res \<Rightarrow>
          (let x = upd (\<lambda>ps. ps\<lparr>hp_flags := 0, content_length := ULLONG_MAX\<rparr>) x;
               k = CALLBACK_NOTIFY (on_message_begin st) HPE_CB_message_begin (pos x + 1) Break
           in if ch = CHR ''H'' then k (UPDATE_STATE s_res_H x)
              else if ch = CR \<or> ch = LF then k x
              else fail HPE_INVALID_CONSTANT x)
      | _ \<Rightarrow> Abort)"

text \<open>One more digit of a version or status number, at most 999.\<close>

definition version_digit :: "nat \<Rightarrow> char \<Rightarrow> nat" where
  "version_digit v ch = v * 10 + DIGIT ch"

text \<open>The status line of a response.\<close>

definition exec_res_line ::
  "'u http_parser_settings \<Rightarrow> string \<Rightarrow> char \<Rightarrow> 'u exec \<Rightarrow> 'u outcome" where
  "exec_res_line st data ch x =
     (case p_state x of
        s_res_H \<Rightarrow> STRICT_CHECK (ch \<noteq> CHR ''T'') (Break (UPDATE_STATE s_res_HT x)) x
      | s_res_HT \<Rightarrow> STRICT_CHECK (ch \<noteq> CHR ''T'') (Break (UPDATE_STATE s_res_HTT x)) x
      | s_res_HTT \<Rightarrow> STRICT_CHECK (ch \<noteq> CHR ''P'') (Break (UPDATE_STATE s_res_HTTP x)) x
      | s_res_HTTP \<Rightarrow> STRICT_CHECK (ch \<noteq> CHR ''/'') (Break (UPDATE_STATE s_res_first_http_major x)) x
      | s_res_first_http_major \<Rightarrow>
          if \<not> IS_NUM ch then fail HPE_INVALID_VERSION x
          else Break (UPDATE_STATE s_res_http_major (upd (\<lambda>ps. ps\<lparr>http_major := DIGIT ch\<rparr>) x))
      | s_res_http_major \<Rightarrow>
          if ch = CHR ''.'' then Break (UPDATE_STATE s_res_first_http_minor x)
          else if \<not> IS_NUM ch then fail HPE_INVALID_VERSION x
          else (let x = upd (\<lambda>ps. ps\<lparr>http_major := version_digit (http_major ps) ch\<rparr>) x
                in if http_major (parser x) > 999 then fail HPE_INVALID_VERSION x else Break x)
      | s_res_first_http_minor \<Rightarrow>
          if \<not> IS_NUM ch then fail HPE_INVALID_VERSION x
          else Break (UPDATE_STATE s_res_http_minor (upd (\<lambda>ps. ps\<lparr>http_minor := DIGIT ch\<rparr>) x))
      | s_res_http_minor \<Rightarrow>
          if ch = SP then Break (UPDATE_STATE s_res_first_status_code x)
          else if \<not> IS_NUM ch then fail HPE_INVALID_VERSION x
          else (let x = upd (\<lambda>ps. ps\<lparr>http_minor := version_digit (http_minor ps) ch\<rparr>) x
                in if http_minor (parser x) > 999 then fail HPE_INVALID_VERSION x else Break x)
      | s_res_first_status_code \<Rightarrow>
          if \<not> IS_NUM ch then (if ch = SP then Break x else fail HPE_INVALID_STATUS x)
          else Break (UPDATE_STATE s_res_status_code (upd (\<lambda>ps. ps\<lparr>status_code := DIGIT ch\<rparr>) x))
      | s_res_status_code \<Rightarrow>
          if \<not> IS_NUM ch then
            (if ch = SP then Break (UPDATE_STATE s_res_status_start x)
             else if ch = CR then Break (UPDATE_STATE s_res_line_almost_done x)
             else if ch = LF then Break (UPDATE_STATE s_header_field_start x)
             else fail HPE_INVALID_STATUS x)
          else (let x = upd (\<lambda>ps. ps\<lparr>status_code := version_digit (status_code ps) ch\<rparr>) x
                in if status_code (parser x) > 999 then fail HPE_INVALID_STATUS x else Break x)
      | s_res_status_start \<Rightarrow>
          if ch = CR then Break (UPDATE_STATE s_res_line_almost_done x)
          else if ch = LF then Break (UPDATE_STATE s_header_field_start x)
          else Break (upd (\<lambda>ps. ps\<lparr>hp_index := 0\<rparr>) (UPDATE_STATE s_res_status (MARK Status x)))
      | s_res_status \<Rightarrow>
          if ch = CR then CALLBACK_DATA st data Status Break (UPDATE_STATE s_res_line_almost_done x)
          else if ch = LF then CALLBACK_DATA st data Status Break (UPDATE_STATE s_header_field_start x)
          else Break x
      | s_res_line_almost_done \<Rightarrow>
          STRICT_CHECK (ch \<noteq> LF) (Break (UPDATE_STATE s_header_field_start x)) x
      | _ \<Rightarrow> Abort)"

text \<open>The first letter of a method; \<open>None\<close> is the default branch.\<close>

definition method_of_letter :: "char \<Rightarrow> http_method option" where
  "method_of_letter ch = map_of
     [(CHR ''A'', HTTP_ACL), (CHR ''B'', HTTP_BIND), (CHR ''C'', HTTP_CONNECT),
      (CHR ''D'', HTTP_DELETE), (CHR ''G'', HTTP_GET), (CHR ''H'', HTTP_HEAD),
      (CHR ''L'', HTTP_LOCK), (CHR ''M'', HTTP_MKCOL), (CHR ''N'', HTTP_NOTIFY),
      (CHR ''O'', HTTP_OPTIONS), (CHR ''P'', HTTP_POST), (CHR ''R'', HTTP_REPORT),
      (CHR ''S'', HTTP_SUBSCRIBE), (CHR ''T'', HTTP_TRACE), (CHR ''U'', HTTP_UNLOCK)] ch"

text \<open>The table of methods told apart by a later letter.\<close>

definition method_switch :: "http_method \<Rightarrow> nat \<Rightarrow> char \<Rightarrow> http_method option" where
  "method_switch m i ch = map_of
     [((HTTP_POST, 1, CHR ''U''), HTTP_PUT), ((HTTP_POST, 1, CHR ''A''), HTTP_PATCH),
      ((HTTP_CONNECT, 1, CHR ''H''), HTTP_CHECKOUT), ((HTTP_CONNECT, 2, CHR ''P''), HTTP_COPY),
      ((HTTP_MKCOL, 1, CHR ''O''), HTTP_MOVE), ((HTTP_MKCOL, 1, CHR ''E''), HTTP_MERGE),
      ((HTTP_MKCOL, 2, CHR ''A''), HTTP_MKACTIVITY), ((HTTP_MKCOL, 3, CHR ''A''), HTTP_MKCALENDAR),
      ((HTTP_SUBSCRIBE, 1, CHR ''E''), HTTP_SEARCH), ((HTTP_REPORT, 2, CHR ''B''), HTTP_REBIND),
      ((HTTP_POST, 1, CHR ''R''), HTTP_PROPFIND), ((HTTP_PROPFIND, 4, CHR ''P''), HTTP_PROPPATCH),
      ((HTTP_PUT, 2, CHR ''R''), HTTP_PURGE), ((HTTP_LOCK, 1, CHR ''I''), HTTP_LINK),
      ((HTTP_UNLOCK, 2, CHR ''S''), HTTP_UNSUBSCRIBE), ((HTTP_UNLOCK, 2, CHR ''B''), HTTP_UNBIND),
      ((HTTP_UNLOCK, 3, CHR ''I''), HTTP_UNLINK)] (m, i, ch)"

text \<open>The character at an index of a C string, whose end is its zero byte.\<close>

definition c_char_at :: "string \<Rightarrow> nat \<Rightarrow> char" where
  "c_char_at s i = (if i < length s then s ! i else CHR 0x00)"

definition exec_req_method ::
  "'u http_parser_settings \<Rightarrow> char \<Rightarrow> 'u exec \<Rightarrow> 'u outcome" where
  "exec_req_method st ch x =
     (case p_state x of
        s_start_req \<Rightarrow>
          if ch = CR \<or> ch = LF then Break x
          else (let x = upd (\<lambda>ps. ps\<lparr>hp_flags := 0, content_length := ULLONG_MAX\<rparr>) x in
            if \<not> IS_ALPHA ch then fail HPE_INVALID_METHOD x
            else let x = upd (\<lambda>ps. ps\<lparr>hp_method := HTTP_DELETE, hp_index := 1\<rparr>) x in
              case method_of_letter ch of
                None \<Rightarrow> fail HPE_INVALID_METHOD x
              | Some m \<Rightarrow>
                  CALLBACK_NOTIFY (on_message_begin st) HPE_CB_message_begin (pos x + 1) Break
                    (UPDATE_STATE s_req_method (upd (\<lambda>ps. ps\<lparr>hp_method := m\<rparr>) x)))
      | s_req_method \<Rightarrow>
          if ch = CHR 0x00 then fail HPE_INVALID_METHOD x
          else (let matcher = method_string (hp_method (parser x)); i = hp_index (parser x) in
            if ch = SP \<and> c_char_at matcher i = CHR 0x00
            then Break (upd inc_index (UPDATE_STATE s_req_spaces_before_url x))
            else if ch = c_char_at matcher i then Break (upd inc_index x)
            else if IS_ALPHA ch then
              (case method_switch (hp_method (parser x)) i ch of
                 None \<Rightarrow> fail HPE_INVALID_METHOD x
               | Some m \<Rightarrow> Break (upd inc_index (upd (\<lambda>ps. ps\<lparr>hp_method := m\<rparr>) x)))
            else if ch = CHR ''-'' \<and> i = 1 \<and> hp_method (parser x) = HTTP_MKCOL
            then Break (upd inc_index (upd (\<lambda>ps. ps\<lparr>hp_method := HTTP_MSEARCH\<rparr>) x))
            else fail HPE_INVALID_METHOD x)
      | _ \<Rightarrow> Abort)"

text \<open>The URL of a request: one character of the automaton.\<close>

definition url_char :: "char \<Rightarrow> 'u exec \<Rightarrow> 'u outcome" where
  "url_char ch x =
     (let x = UPDATE_STATE (parse_url_char (p_state x) ch) x
      in if p_state x = s_dead then fail HPE_INVALID_URL x else Break x)"

definition exec_req_url ::
  "'u http_parser_settings \<Rightarrow> string \<Rightarrow> char \<Rightarrow> 'u exec \<Rightarrow> 'u outcome" where
  "exec_req_url st data ch x =
     (if p_state x = s_req_spaces_before_url then
        (if ch = SP then Break x
         else let x = MARK Url x;
                  x = (if hp_method (parser x) = HTTP_CONNECT then UPDATE_STATE s_req_server_start x else x)
              in url_char ch x)
      else if p_state x \<in> {s_req_schema, s_req_schema_slash, s_req_schema_slash_slash, s_req_server_start} then
        (if ch = SP \<or> ch = CR \<or> ch = LF then fail HPE_INVALID_URL x else url_char ch x)
      else
        (if ch = SP then CALLBACK_DATA st data Url Break (UPDATE_STATE s_req_http_start x)
         else if ch = CR \<or> ch = LF then
           CALLBACK_DATA st data Url Break
             (UPDATE_STATE (if ch = CR then s_req_line_almost_done else s_header_field_start)
               (upd (\<lambda>ps. ps\<lparr>http_major := 0, http_minor := 9\<rparr>) x))
         else url_char ch x))"

text \<open>The version of a request, and the end of its line.\<close>

definition exec_req_version :: "char \<Rightarrow> 'u exec \<Rightarrow> 'u outcome" where
  "exec_req_version ch x =
     (case p_state x of
        s_req_http_start \<Rightarrow>
          if ch = CHR ''H'' then Break (UPDATE_STATE s_req_http_H x)
          else if ch = SP then Break x else fail HPE_INVALID_CONSTANT x
      | s_req_http_H \<Rightarrow> STRICT_CHECK (ch \<noteq> CHR ''T'') (Break (UPDATE_STATE s_req_http_HT x)) x
      | s_req_http_HT \<Rightarrow> STRICT_CHECK (ch \<noteq> CHR ''T'') (Break (UPDATE_STATE s_req_http_HTT x)) x
      | s_req_http_HTT \<Rightarrow> STRICT_CHECK (ch \<noteq> CHR ''P'') (Break (UPDATE_STATE s_req_http_HTTP x)) x
      | s_req_http_HTTP \<Rightarrow> STRICT_CHECK (ch \<noteq> CHR ''/'') (Break (UPDATE_STATE s_req_first_http_major x)) x
      | s_req_first_http_major \<Rightarrow>
          if \<not> IS_NUM ch \<or> ch = CHR ''0'' then fail HPE_INVALID_VERSION x
          else Break (UPDATE_STATE s_req_http_major (upd (\<lambda>ps. ps\<lparr>http_major := DIGIT ch\<rparr>) x))
      | s_req_http_major \<Rightarrow>
          if ch = CHR ''.'' then Break (UPDATE_STATE s_req_first_http_minor x)
          else if \<not> IS_NUM ch then fail HPE_INVALID_VERSION x
          else (let x = upd (\<lambda>ps. ps\<lparr>http_major := version_digit (http_major ps) ch\<rparr>) x
                in if http_major (parser x) > 999 then fail HPE_INVALID_VERSION x else Break x)
      | s_req_first_http_minor \<Rightarrow>
          if \<not> IS_NUM ch then fail HPE_INVALID_VERSION x
          else Break (UPDATE_STATE s_req_http_minor (upd (\<lambda>ps. ps\<lparr>http_minor := DIGIT ch\<rparr>) x))
      | s_req_http_minor \<Rightarrow>
          if ch = CR then Break (UPDATE_STATE s_req_line_almost_done x)
          else if ch = LF then Break (UPDATE_STATE s_header_field_start x)
          else if \<not> IS_NUM ch then fail HPE_INVALID_VERSION x
          else (let x = upd (\<lambda>ps. ps\<lparr>http_minor := version_digit (http_minor ps) ch\<rparr>) x
                in if http_minor (parser x) > 999 then fail HPE_INVALID_VERSION x else Break x)
      | s_req_line_almost_done \<Rightarrow>
          if ch \<noteq> LF then fail HPE_LF_EXPECTED x else Break (UPDATE_STATE s_header_field_start x)
      | _ \<Rightarrow> Abort)"

section \<open>Header fields\<close>

definition exec_header_field_start :: "char \<Rightarrow> 'u exec \<Rightarrow> 'u outcome" where
  "exec_header_field_start ch x =
     (if ch = CR then Break (UPDATE_STATE s_headers_almost_done x)
      else if ch = LF then Reexec (UPDATE_STATE s_headers_almost_done x)
      else let c = TOKEN ch in
        if c = 0 then fail HPE_INVALID_HEADER_TOKEN x
        else Break (upd (\<lambda>ps. ps\<lparr>hp_index := 0, header_state :=
                        (if c = code CHR ''c'' then h_C
                         else if c = code CHR ''p'' then h_matching_proxy_connection
                         else if c = code CHR ''t'' then h_matching_transfer_encoding
                         else if c = code CHR ''u'' then h_matching_upgrade
                         else h_general)\<rparr>)
                     (UPDATE_STATE s_header_field (MARK Header_Field x))))"

text \<open>
  One more character of a name that is compared with a word: \<open>h_general\<close> at the first
  difference, \<open>done\<close> at the word's last character.
\<close>

definition match_word :: "string \<Rightarrow> header_state \<Rightarrow> header_state \<Rightarrow> header_state \<Rightarrow> nat \<Rightarrow> nat \<Rightarrow> header_state" where
  "match_word w other same done i c =
     (if i > length w \<or> c \<noteq> code (c_char_at w i) then other
      else if i = length w - 1 then done else same)"

definition CONNECTION :: string where "CONNECTION = ''connection''"
definition PROXY_CONNECTION :: string where "PROXY_CONNECTION = ''proxy-connection''"
definition CONTENT_LENGTH :: string where "CONTENT_LENGTH = ''content-length''"
definition TRANSFER_ENCODING :: string where "TRANSFER_ENCODING = ''transfer-encoding''"
definition UPGRADE :: string where "UPGRADE = ''upgrade''"
definition CHUNKED :: string where "CHUNKED = ''chunked''"
definition KEEP_ALIVE :: string where "KEEP_ALIVE = ''keep-alive''"
definition CLOSE :: string where "CLOSE = ''close''"

text \<open>The \<open>switch\<close> in the loop over a header name; \<open>None\<close> is its failed assertion.\<close>

definition header_field_char :: "char \<Rightarrow> nat \<Rightarrow> http_parser \<Rightarrow> http_parser option" where
  "header_field_char ch c ps =
     (let psi = inc_index ps; i = hp_index psi in
      case header_state ps of
        h_general \<Rightarrow> Some ps
      | h_C \<Rightarrow> Some (psi\<lparr>header_state := (if c = code CHR ''o'' then h_CO else h_general)\<rparr>)
      | h_CO \<Rightarrow> Some (psi\<lparr>header_state := (if c = code CHR ''n'' then h_CON else h_general)\<rparr>)
      | h_CON \<Rightarrow>
          Some (psi\<lparr>header_state := (if c = code CHR ''n'' then h_matching_connection
                                    else if c = code CHR ''t'' then h_matching_content_length
                                    else h_general)\<rparr>)
      | h_matching_connection \<Rightarrow>
          Some (psi\<lparr>header_state := match_word CONNECTION h_general h_matching_connection h_connection i c\<rparr>)
      | h_matching_proxy_connection \<Rightarrow>
          Some (psi\<lparr>header_state :=
            match_word PROXY_CONNECTION h_general h_matching_proxy_connection h_connection i c\<rparr>)
      | h_matching_content_length \<Rightarrow>
          Some (psi\<lparr>header_state :=
            match_word CONTENT_LENGTH h_general h_matching_content_length h_content_length i c\<rparr>)
      | h_matching_transfer_encoding \<Rightarrow>
          Some (psi\<lparr>header_state :=
            match_word TRANSFER_ENCODING h_general h_matching_transfer_encoding h_transfer_encoding i c\<rparr>)
      | h_matching_upgrade \<Rightarrow>
          Some (psi\<lparr>header_state := match_word UPGRADE h_general h_matching_upgrade h_upgrade i c\<rparr>)
      | h_connection \<Rightarrow> Some (if ch \<noteq> SP then ps\<lparr>header_state := h_general\<rparr> else ps)
      | h_content_length \<Rightarrow> Some (if ch \<noteq> SP then ps\<lparr>header_state := h_general\<rparr> else ps)
      | h_transfer_encoding \<Rightarrow> Some (if ch \<noteq> SP then ps\<lparr>header_state := h_general\<rparr> else ps)
      | h_upgrade \<Rightarrow> Some (if ch \<noteq> SP then ps\<lparr>header_state := h_general\<rparr> else ps)
      | _ \<Rightarrow> None)"

text \<open>The loop, over the rest of the text from \<open>p\<close>: where it stops, and the parser.\<close>

fun header_field_loop :: "string \<Rightarrow> nat \<Rightarrow> http_parser \<Rightarrow> (nat \<times> http_parser) option" where
  "header_field_loop [] p ps = Some (p, ps)"
| "header_field_loop (ch # rest) p ps =
     (let c = TOKEN ch in
      if c = 0 then Some (p, ps)
      else case header_field_char ch c ps of
        None \<Rightarrow> None
      | Some ps \<Rightarrow> header_field_loop rest (p + 1) ps)"

definition exec_header_field ::
  "'u http_parser_settings \<Rightarrow> string \<Rightarrow> 'u exec \<Rightarrow> 'u outcome" where
  "exec_header_field st data x =
     (let start = pos x in
      case header_field_loop (drop start data) start (parser x) of
        None \<Rightarrow> Abort
      | Some (p, ps) \<Rightarrow>
          COUNT_HEADER_SIZE (p - start) (\<lambda>x.
            if p = length data then Break (x\<lparr>pos := p - 1\<rparr>)
            else if data ! p = CHR '':'' then
              CALLBACK_DATA st data Header_Field Break (UPDATE_STATE s_header_value_discard_ws x)
            else fail HPE_INVALID_HEADER_TOKEN x)
          (x\<lparr>pos := p, parser := ps\<rparr>))"

section \<open>Header values\<close>

text \<open>The first character of a value.\<close>

definition exec_header_value_start :: "char \<Rightarrow> 'u exec \<Rightarrow> 'u outcome" where
  "exec_header_value_start ch x =
     (let x = upd (\<lambda>ps. ps\<lparr>hp_index := 0\<rparr>) (UPDATE_STATE s_header_value (MARK Header_Value x));
          c = LOWER ch; ps = parser x
      in case header_state ps of
           h_upgrade \<Rightarrow> Break (upd (\<lambda>ps. (set_flag F_UPGRADE ps)\<lparr>header_state := h_general\<rparr>) x)
         | h_transfer_encoding \<Rightarrow>
             Break (upd (\<lambda>ps. ps\<lparr>header_state := (if code CHR ''c'' = c
                          then h_matching_transfer_encoding_chunked else h_general)\<rparr>) x)
         | h_content_length \<Rightarrow>
             if \<not> IS_NUM ch then fail HPE_INVALID_CONTENT_LENGTH x
             else if flag_set F_CONTENTLENGTH ps then fail HPE_UNEXPECTED_CONTENT_LENGTH x
             else Break (upd (\<lambda>ps. (set_flag F_CONTENTLENGTH ps)\<lparr>content_length := DIGIT ch\<rparr>) x)
         | h_connection \<Rightarrow>
             Break (upd (\<lambda>ps. ps\<lparr>header_state :=
               (if c = code CHR ''k'' then h_matching_connection_keep_alive
                else if c = code CHR ''c'' then h_matching_connection_close
                else if c = code CHR ''u'' then h_matching_connection_upgrade
                else h_matching_connection_token)\<rparr>) x)
         | h_matching_connection_token_start \<Rightarrow> Break x
         | _ \<Rightarrow> Break (upd (\<lambda>ps. ps\<lparr>header_state := h_general\<rparr>) x))"

text \<open>
  \<open>memchr(p, c, limit)\<close>, and the jump of the loop to before the next line end.
\<close>

definition memchr :: "string \<Rightarrow> nat \<Rightarrow> char \<Rightarrow> nat \<Rightarrow> nat option" where
  "memchr data p c limit =
     (let seg = take limit (drop p data); k = length (takeWhile (\<lambda>d. d \<noteq> c) seg)
      in if k < length seg then Some (p + k) else None)"

definition skip_general :: "string \<Rightarrow> nat \<Rightarrow> nat" where
  "skip_general data p =
     (let limit = min (length data - p) HTTP_MAX_HEADER_SIZE;
          p_cr = memchr data p CR limit; p_lf = memchr data p LF limit
      in (case p_cr of
            Some cr \<Rightarrow> (case p_lf of Some lf \<Rightarrow> if cr \<ge> lf then lf else cr | None \<Rightarrow> cr)
          | None \<Rightarrow> (case p_lf of Some lf \<Rightarrow> lf | None \<Rightarrow> length data)) - 1)"

text \<open>
  The \<open>switch\<close> of the loop over a value, but for \<open>h_general\<close>: the new \<open>h_state\<close> and parser,
  or an error.
\<close>

definition content_length_char :: "char \<Rightarrow> http_parser \<Rightarrow> http_errno + http_parser" where
  "content_length_char ch ps =
     (if ch = SP then Inr ps
      else if \<not> IS_NUM ch then Inl HPE_INVALID_CONTENT_LENGTH
      else let t = content_length ps * 10 mod 2 ^ 64; t = (t + DIGIT ch) mod 2 ^ 64 in
        if (ULLONG_MAX - 10) div 10 < content_length ps then Inl HPE_INVALID_CONTENT_LENGTH
        else Inr (ps\<lparr>content_length := t\<rparr>))"

definition connection_flag :: "header_state \<Rightarrow> http_parser \<Rightarrow> http_parser" where
  "connection_flag h ps =
     (if h = h_connection_keep_alive then set_flag F_CONNECTION_KEEP_ALIVE ps
      else if h = h_connection_close then set_flag F_CONNECTION_CLOSE ps
      else if h = h_connection_upgrade then set_flag F_CONNECTION_UPGRADE ps
      else ps)"

definition header_value_char ::
  "char \<Rightarrow> header_state \<Rightarrow> http_parser \<Rightarrow> (http_errno + header_state \<times> http_parser) option" where
  "header_value_char ch h ps =
     (let c = LOWER ch; psi = inc_index ps; i = hp_index psi;
          finished = (if ch = CHR '','' then
                        Some (Inr (h_matching_connection_token_start, (connection_flag h ps)\<lparr>hp_index := 0\<rparr>))
                      else Some (Inr (if ch \<noteq> SP then h_matching_connection_token else h, ps)))
      in case h of
           h_connection \<Rightarrow> None
         | h_transfer_encoding \<Rightarrow> None
         | h_content_length \<Rightarrow>
             (case content_length_char ch ps of Inl e \<Rightarrow> Some (Inl e) | Inr ps \<Rightarrow> Some (Inr (h, ps)))
         | h_matching_transfer_encoding_chunked \<Rightarrow>
             Some (Inr (match_word CHUNKED h_general h h_transfer_encoding_chunked i c, psi))
         | h_matching_connection_token_start \<Rightarrow>
             Some (Inr ((if c = code CHR ''k'' then h_matching_connection_keep_alive
                         else if c = code CHR ''c'' then h_matching_connection_close
                         else if c = code CHR ''u'' then h_matching_connection_upgrade
                         else if STRICT_TOKEN c \<noteq> 0 then h_matching_connection_token
                         else if c = code SP \<or> c = code TAB then h
                         else h_general), ps))
         | h_matching_connection_keep_alive \<Rightarrow>
             Some (Inr (match_word KEEP_ALIVE h_matching_connection_token h h_connection_keep_alive i c, psi))
         | h_matching_connection_close \<Rightarrow>
             Some (Inr (match_word CLOSE h_matching_connection_token h h_connection_close i c, psi))
         | h_matching_connection_upgrade \<Rightarrow>
             Some (Inr (match_word UPGRADE h_matching_connection_token h h_connection_upgrade i c, psi))
         | h_matching_connection_token \<Rightarrow>
             Some (Inr (if ch = CHR '','' then (h_matching_connection_token_start, ps\<lparr>hp_index := 0\<rparr>)
                        else (h, ps)))
         | h_transfer_encoding_chunked \<Rightarrow> Some (Inr (if ch \<noteq> SP then h_general else h, ps))
         | h_connection_keep_alive \<Rightarrow> finished
         | h_connection_close \<Rightarrow> finished
         | h_connection_upgrade \<Rightarrow> finished
         | _ \<Rightarrow> Some (Inr (h_general, ps)))"

text \<open>What the state does after its loop.\<close>

definition header_value_end :: "string \<Rightarrow> nat \<Rightarrow> header_state \<Rightarrow> 'u exec \<Rightarrow> 'u outcome" where
  "header_value_end data start h x =
     COUNT_HEADER_SIZE (pos x - start)
       (\<lambda>x. Break (if pos x = length data then x\<lparr>pos := pos x - 1\<rparr> else x))
       (upd (\<lambda>ps. ps\<lparr>header_state := h\<rparr>) x)"

lemma memchr_Some:
  assumes "memchr data p c limit = Some k"
  shows "p \<le> k \<and> k < length data \<and> data ! k = c \<and> (\<forall>j. p \<le> j \<and> j < k \<longrightarrow> data ! j \<noteq> c)"
proof -
  let ?seg = "take limit (drop p data)"
  let ?n = "length (takeWhile (\<lambda>d. d \<noteq> c) ?seg)"
  have n: "?n < length ?seg" "k = p + ?n"
    using assms by (auto simp: memchr_def Let_def split: if_splits)
  have "?seg ! ?n = c" using nth_length_takeWhile [OF n(1)] by simp
  moreover have "?seg ! ?n = data ! k" "k < length data" using n by auto
  moreover have "data ! j \<noteq> c" if "p \<le> j" "j < k" for j
  proof -
    have j: "j - p < ?n" using that n(2) by simp
    have "takeWhile (\<lambda>d. d \<noteq> c) ?seg ! (j - p) = ?seg ! (j - p)" by (rule takeWhile_nth [OF j])
    moreover have "takeWhile (\<lambda>d. d \<noteq> c) ?seg ! (j - p) \<noteq> c"
      using nth_mem [OF j] set_takeWhileD by metis
    moreover have "?seg ! (j - p) = data ! j" using that n by auto
    ultimately show ?thesis by simp
  qed
  ultimately show ?thesis using n(2) by simp
qed

lemma memchr_None:
  "memchr data p c limit = None \<Longrightarrow> p \<le> j \<Longrightarrow> j < p + limit \<Longrightarrow> j < length data \<Longrightarrow> data ! j \<noteq> c"
proof -
  assume m: "memchr data p c limit = None" and j: "p \<le> j" "j < p + limit" "j < length data"
  let ?seg = "take limit (drop p data)"
  have "length (takeWhile (\<lambda>d. d \<noteq> c) ?seg) = length ?seg"
    using m length_takeWhile_le [of "\<lambda>d. d \<noteq> c" ?seg]
    by (auto simp: memchr_def Let_def split: if_splits)
  then have "takeWhile (\<lambda>d. d \<noteq> c) ?seg = ?seg" by (metis takeWhile_eq_take take_all order_refl)
  then have "\<forall>d \<in> set ?seg. d \<noteq> c" by (metis set_takeWhileD)
  moreover have "data ! j = ?seg ! (j - p)" "j - p < length ?seg" using j by auto
  ultimately show ?thesis by (metis nth_mem)
qed

lemma skip_general_ge:
  assumes "p < length data" "data ! p \<noteq> CR" "data ! p \<noteq> LF"
  shows "p \<le> skip_general data p" "skip_general data p < length data"
proof -
  have "memchr data p c limit = Some k \<Longrightarrow> data ! p \<noteq> c \<Longrightarrow> p < k" for c limit k
    using memchr_Some [of data p c limit k] by (cases "p = k") auto
  then show "p \<le> skip_general data p"
    using assms by (fastforce simp: skip_general_def Let_def split: option.splits)
  show "skip_general data p < length data"
    using assms(1) by (auto simp: skip_general_def Let_def dest!: memchr_Some split: option.splits)
qed

text \<open>The loop over a value, from \<open>p\<close> on.\<close>

function header_value_loop ::
  "'u http_parser_settings \<Rightarrow> string \<Rightarrow> nat \<Rightarrow> header_state \<Rightarrow> 'u exec \<Rightarrow> 'u outcome" where
  "header_value_loop st data start h x =
     (if \<not> pos x < length data then header_value_end data start h x
      else let ch = data ! pos x in
        if ch = CR then
          CALLBACK_DATA st data Header_Value (header_value_end data start h)
            (upd (\<lambda>ps. ps\<lparr>header_state := h\<rparr>) (UPDATE_STATE s_header_almost_done x))
        else if ch = LF then
          COUNT_HEADER_SIZE (pos x - start)
            (\<lambda>x. CALLBACK_DATA_NOADVANCE st data Header_Value Reexec (upd (\<lambda>ps. ps\<lparr>header_state := h\<rparr>) x))
            (UPDATE_STATE s_header_almost_done x)
        else if \<not> lenient_http_headers (parser x) \<and> \<not> IS_HEADER_CHAR ch
        then fail HPE_INVALID_HEADER_TOKEN x
        else if h = h_general then
          header_value_loop st data start h (x\<lparr>pos := skip_general data (pos x) + 1\<rparr>)
        else case header_value_char ch h (parser x) of
          None \<Rightarrow> Abort
        | Some (Inl e) \<Rightarrow> fail e (upd (\<lambda>ps. ps\<lparr>header_state := h\<rparr>) x)
        | Some (Inr (h, ps)) \<Rightarrow> header_value_loop st data start h (x\<lparr>parser := ps, pos := pos x + 1\<rparr>))"
  by pat_completeness auto
termination
proof (relation "measure (\<lambda>(st, data, start, h, x). length data - pos x)", goal_cases)
  case (2 st data start h x ch)
  then have "pos x \<le> skip_general data (pos x)" "pos x < length data"
    using skip_general_ge(1) [of "pos x" data] by auto
  then show ?case by simp
qed auto

declare header_value_loop.simps [simp del]

text \<open>The entry of the state: its local \<open>h_state\<close> is the parser's.\<close>

definition exec_header_value ::
  "'u http_parser_settings \<Rightarrow> string \<Rightarrow> 'u exec \<Rightarrow> 'u outcome" where
  "exec_header_value st data x = header_value_loop st data (pos x) (header_state (parser x)) x"

text \<open>The flags a finished header sets.\<close>

definition header_flag :: "http_parser \<Rightarrow> http_parser" where
  "header_flag ps =
     (case header_state ps of
        h_connection_keep_alive \<Rightarrow> set_flag F_CONNECTION_KEEP_ALIVE ps
      | h_connection_close \<Rightarrow> set_flag F_CONNECTION_CLOSE ps
      | h_transfer_encoding_chunked \<Rightarrow> set_flag F_CHUNKED ps
      | h_connection_upgrade \<Rightarrow> set_flag F_CONNECTION_UPGRADE ps
      | _ \<Rightarrow> ps)"

text \<open>White space around values, folded lines, and the end of a header.\<close>

definition exec_header_ws ::
  "'u http_parser_settings \<Rightarrow> string \<Rightarrow> char \<Rightarrow> 'u exec \<Rightarrow> 'u outcome" where
  "exec_header_ws st data ch x =
     (case p_state x of
        s_header_value_discard_ws \<Rightarrow>
          if ch = SP \<or> ch = TAB then Break x
          else if ch = CR then Break (UPDATE_STATE s_header_value_discard_ws_almost_done x)
          else if ch = LF then Break (UPDATE_STATE s_header_value_discard_lws x)
          else exec_header_value_start ch x
      | s_header_value_start \<Rightarrow> exec_header_value_start ch x
      | s_header_almost_done \<Rightarrow>
          if ch \<noteq> LF then fail HPE_LF_EXPECTED x else Break (UPDATE_STATE s_header_value_lws x)
      | s_header_value_lws \<Rightarrow>
          if ch = SP \<or> ch = TAB then Reexec (UPDATE_STATE s_header_value_start x)
          else Reexec (UPDATE_STATE s_header_field_start (upd header_flag x))
      | s_header_value_discard_ws_almost_done \<Rightarrow>
          STRICT_CHECK (ch \<noteq> LF) (Break (UPDATE_STATE s_header_value_discard_lws x)) x
      | s_header_value_discard_lws \<Rightarrow>
          if ch = SP \<or> ch = TAB then Break (UPDATE_STATE s_header_value_discard_ws x)
          else CALLBACK_DATA_NOADVANCE st data Header_Value Reexec
                 (UPDATE_STATE s_header_field_start (MARK Header_Value (upd header_flag x)))
      | _ \<Rightarrow> Abort)"

section \<open>The end of the headers\<close>

text \<open>Here the parser sets \<open>upgrade\<close>, for the callback to see.\<close>

definition set_upgrade :: "http_parser \<Rightarrow> http_parser" where
  "set_upgrade ps = ps\<lparr>hp_upgrade :=
     (hp_flags ps AND (F_UPGRADE OR F_CONNECTION_UPGRADE) = F_UPGRADE OR F_CONNECTION_UPGRADE
      \<or> hp_method ps = HTTP_CONNECT)\<rparr>"

text \<open>What the result of \<open>on_headers_complete\<close> makes it do.\<close>

definition headers_complete_result :: "int \<Rightarrow> 'u exec \<Rightarrow> 'u outcome" where
  "headers_complete_result ret x =
     (let finish = (\<lambda>x. if hp_errno (parser x) \<noteq> HPE_OK then RETURN (pos x) x else Reexec x)
      in if ret = 0 then finish x
         else if ret = 2 then finish (upd (\<lambda>ps. set_flag F_SKIPBODY (ps\<lparr>hp_upgrade := True\<rparr>)) x)
         else if ret = 1 then finish (upd (set_flag F_SKIPBODY) x)
         else RETURN (pos x) (SET_ERRNO HPE_CB_headers_complete x))"

definition exec_headers_almost_done ::
  "'u http_parser_settings \<Rightarrow> char \<Rightarrow> 'u exec \<Rightarrow> 'u outcome" where
  "exec_headers_almost_done st ch x =
     (if ch \<noteq> LF then fail HPE_STRICT x
      else if flag_set F_TRAILING (parser x) then
        CALLBACK_NOTIFY (on_chunk_complete st) HPE_CB_chunk_complete (pos x) Reexec
          (UPDATE_STATE s_message_done x)
      else if flag_set F_CHUNKED (parser x) \<and> flag_set F_CONTENTLENGTH (parser x)
      then fail HPE_UNEXPECTED_CONTENT_LENGTH x
      else
        let x = upd set_upgrade (UPDATE_STATE s_headers_done x)
        in case on_headers_complete st of
             None \<Rightarrow> headers_complete_result 0 x
           | Some f \<Rightarrow>
               (let (ret, paused, u) = f (parser x) (user x)
                in cb_pause paused (\<lambda>x. headers_complete_result ret (x\<lparr>user := u\<rparr>)) x))"

text \<open>\<open>UPDATE_STATE(NEW_MESSAGE()); CALLBACK_NOTIFY(message_complete)\<close>\<close>

definition message_complete ::
  "'u http_parser_settings \<Rightarrow> ('u exec \<Rightarrow> 'u outcome) \<Rightarrow> 'u exec \<Rightarrow> 'u outcome" where
  "message_complete st k x =
     CALLBACK_NOTIFY (on_message_complete st) HPE_CB_message_complete (pos x + 1) k
       (UPDATE_STATE (NEW_MESSAGE (parser x)) x)"

definition exec_headers_done ::
  "'u http_parser_settings \<Rightarrow> char \<Rightarrow> 'u exec \<Rightarrow> 'u outcome" where
  "exec_headers_done st ch x =
     (if ch \<noteq> LF then fail HPE_STRICT x
      else
        let x = upd (\<lambda>ps. ps\<lparr>hp_nread := 0\<rparr>) x; ps = parser x;
            hasBody = (flag_set F_CHUNKED ps \<or> (content_length ps > 0 \<and> content_length ps \<noteq> ULLONG_MAX))
        in if hp_upgrade ps \<and> (hp_method ps = HTTP_CONNECT \<or> flag_set F_SKIPBODY ps \<or> \<not> hasBody) then
             message_complete st (\<lambda>x. RETURN (pos x + 1) x) x
           else if flag_set F_SKIPBODY ps then message_complete st Break x
           else if flag_set F_CHUNKED ps then Break (UPDATE_STATE s_chunk_size_start x)
           else if content_length ps = 0 then message_complete st Break x
           else if content_length ps \<noteq> ULLONG_MAX then Break (UPDATE_STATE s_body_identity x)
           else if \<not> http_message_needs_eof ps then message_complete st Break x
           else Break (UPDATE_STATE s_body_identity_eof x))"

section \<open>Bodies\<close>

text \<open>\<open>to_read\<close> bytes of the body: \<open>p\<close> ends at the last of them.\<close>

definition read_body :: "string \<Rightarrow> 'u exec \<Rightarrow> 'u exec" where
  "read_body data x =
     (let to_read = min (content_length (parser x)) (length data - pos x)
      in (upd (\<lambda>ps. ps\<lparr>content_length := content_length ps - to_read\<rparr>) (MARK Body x))
         \<lparr>pos := pos x + to_read - 1\<rparr>)"

definition exec_body ::
  "'u http_parser_settings \<Rightarrow> string \<Rightarrow> 'u exec \<Rightarrow> 'u outcome" where
  "exec_body st data x =
     (case p_state x of
        s_body_identity \<Rightarrow>
          assert_that (content_length (parser x) \<noteq> 0 \<and> content_length (parser x) \<noteq> ULLONG_MAX)
            (let x = read_body data x in
             if content_length (parser x) = 0 then
               CALLBACK_DATA_TO st data Body (pos x + 1) (pos x) Reexec (UPDATE_STATE s_message_done x)
             else Break x)
      | s_body_identity_eof \<Rightarrow> Break ((MARK Body x)\<lparr>pos := length data - 1\<rparr>)
      | s_message_done \<Rightarrow>
          message_complete st (\<lambda>x. if hp_upgrade (parser x) then RETURN (pos x + 1) x else Break x) x
      | _ \<Rightarrow> Abort)"

definition chunk_digit :: "char \<Rightarrow> http_parser \<Rightarrow> http_errno + http_parser" where
  "chunk_digit ch ps =
     (let t = (content_length ps * 16 mod 2 ^ 64 + nat (UNHEX ch)) mod 2 ^ 64 in
      if (ULLONG_MAX - 16) div 16 < content_length ps then Inl HPE_INVALID_CONTENT_LENGTH
      else Inr (ps\<lparr>content_length := t\<rparr>))"

definition exec_chunk ::
  "'u http_parser_settings \<Rightarrow> string \<Rightarrow> char \<Rightarrow> 'u exec \<Rightarrow> 'u outcome" where
  "exec_chunk st data ch x =
     (case p_state x of
        s_chunk_size_start \<Rightarrow>
          assert_that (hp_nread (parser x) = 1 \<and> flag_set F_CHUNKED (parser x))
            (if UNHEX ch = -1 then fail HPE_INVALID_CHUNK_SIZE x
             else Break (UPDATE_STATE s_chunk_size (upd (\<lambda>ps. ps\<lparr>content_length := nat (UNHEX ch)\<rparr>) x)))
      | s_chunk_size \<Rightarrow>
          assert_that (flag_set F_CHUNKED (parser x))
            (if ch = CR then Break (UPDATE_STATE s_chunk_size_almost_done x)
             else if UNHEX ch = -1 then
               (if ch = CHR '';'' \<or> ch = SP then Break (UPDATE_STATE s_chunk_parameters x)
                else fail HPE_INVALID_CHUNK_SIZE x)
             else case chunk_digit ch (parser x) of
               Inl e \<Rightarrow> fail e x
             | Inr ps \<Rightarrow> Break (x\<lparr>parser := ps\<rparr>))
      | s_chunk_parameters \<Rightarrow>
          assert_that (flag_set F_CHUNKED (parser x))
            (if ch = CR then Break (UPDATE_STATE s_chunk_size_almost_done x) else Break x)
      | s_chunk_size_almost_done \<Rightarrow>
          assert_that (flag_set F_CHUNKED (parser x))
            (STRICT_CHECK (ch \<noteq> LF)
              (let x = upd (\<lambda>ps. ps\<lparr>hp_nread := 0\<rparr>) x;
                   x = (if content_length (parser x) = 0
                        then UPDATE_STATE s_header_field_start (upd (set_flag F_TRAILING) x)
                        else UPDATE_STATE s_chunk_data x)
               in CALLBACK_NOTIFY (on_chunk_header st) HPE_CB_chunk_header (pos x + 1) Break x) x)
      | s_chunk_data \<Rightarrow>
          assert_that (flag_set F_CHUNKED (parser x) \<and> content_length (parser x) \<noteq> 0
                       \<and> content_length (parser x) \<noteq> ULLONG_MAX)
            (let x = read_body data x
             in Break (if content_length (parser x) = 0 then UPDATE_STATE s_chunk_data_almost_done x else x))
      | s_chunk_data_almost_done \<Rightarrow>
          assert_that (flag_set F_CHUNKED (parser x) \<and> content_length (parser x) = 0)
            (STRICT_CHECK (ch \<noteq> CR) (CALLBACK_DATA st data Body Break (UPDATE_STATE s_chunk_data_done x)) x)
      | s_chunk_data_done \<Rightarrow>
          assert_that (flag_set F_CHUNKED (parser x))
            (STRICT_CHECK (ch \<noteq> LF)
              (CALLBACK_NOTIFY (on_chunk_complete st) HPE_CB_chunk_complete (pos x + 1) Break
                (UPDATE_STATE s_chunk_size_start (upd (\<lambda>ps. ps\<lparr>hp_nread := 0\<rparr>) x))) x)
      | _ \<Rightarrow> Abort)"

section \<open>The switch\<close>

text \<open>Which of the groups above a state belongs to.\<close>

datatype state_group =
    G_Start | G_Res_Line | G_Method | G_Url | G_Version | G_Field_Start | G_Field | G_Header_Ws
  | G_Value | G_Headers_Almost | G_Headers_Done | G_Body | G_Chunk

primrec group_of :: "http_state \<Rightarrow> state_group" where
  "group_of s_dead = G_Start"
| "group_of s_start_req_or_res = G_Start"
| "group_of s_res_or_resp_H = G_Start"
| "group_of s_start_res = G_Start"
| "group_of s_res_H = G_Res_Line"
| "group_of s_res_HT = G_Res_Line"
| "group_of s_res_HTT = G_Res_Line"
| "group_of s_res_HTTP = G_Res_Line"
| "group_of s_res_first_http_major = G_Res_Line"
| "group_of s_res_http_major = G_Res_Line"
| "group_of s_res_first_http_minor = G_Res_Line"
| "group_of s_res_http_minor = G_Res_Line"
| "group_of s_res_first_status_code = G_Res_Line"
| "group_of s_res_status_code = G_Res_Line"
| "group_of s_res_status_start = G_Res_Line"
| "group_of s_res_status = G_Res_Line"
| "group_of s_res_line_almost_done = G_Res_Line"
| "group_of s_start_req = G_Method"
| "group_of s_req_method = G_Method"
| "group_of s_req_spaces_before_url = G_Url"
| "group_of s_req_schema = G_Url"
| "group_of s_req_schema_slash = G_Url"
| "group_of s_req_schema_slash_slash = G_Url"
| "group_of s_req_server_start = G_Url"
| "group_of s_req_server = G_Url"
| "group_of s_req_server_with_at = G_Url"
| "group_of s_req_path = G_Url"
| "group_of s_req_query_string_start = G_Url"
| "group_of s_req_query_string = G_Url"
| "group_of s_req_fragment_start = G_Url"
| "group_of s_req_fragment = G_Url"
| "group_of s_req_http_start = G_Version"
| "group_of s_req_http_H = G_Version"
| "group_of s_req_http_HT = G_Version"
| "group_of s_req_http_HTT = G_Version"
| "group_of s_req_http_HTTP = G_Version"
| "group_of s_req_first_http_major = G_Version"
| "group_of s_req_http_major = G_Version"
| "group_of s_req_first_http_minor = G_Version"
| "group_of s_req_http_minor = G_Version"
| "group_of s_req_line_almost_done = G_Version"
| "group_of s_header_field_start = G_Field_Start"
| "group_of s_header_field = G_Field"
| "group_of s_header_value_discard_ws = G_Header_Ws"
| "group_of s_header_value_discard_ws_almost_done = G_Header_Ws"
| "group_of s_header_value_discard_lws = G_Header_Ws"
| "group_of s_header_value_start = G_Header_Ws"
| "group_of s_header_value = G_Value"
| "group_of s_header_value_lws = G_Header_Ws"
| "group_of s_header_almost_done = G_Header_Ws"
| "group_of s_chunk_size_start = G_Chunk"
| "group_of s_chunk_size = G_Chunk"
| "group_of s_chunk_parameters = G_Chunk"
| "group_of s_chunk_size_almost_done = G_Chunk"
| "group_of s_headers_almost_done = G_Headers_Almost"
| "group_of s_headers_done = G_Headers_Done"
| "group_of s_chunk_data = G_Chunk"
| "group_of s_chunk_data_almost_done = G_Chunk"
| "group_of s_chunk_data_done = G_Chunk"
| "group_of s_body_identity = G_Body"
| "group_of s_body_identity_eof = G_Body"
| "group_of s_message_done = G_Body"

definition exec_state :: "'u http_parser_settings \<Rightarrow> string \<Rightarrow> 'u exec \<Rightarrow> 'u outcome" where
  "exec_state st data x =
     (let ch = data ! pos x in
      case group_of (p_state x) of
        G_Start \<Rightarrow> exec_start st ch x
      | G_Res_Line \<Rightarrow> exec_res_line st data ch x
      | G_Method \<Rightarrow> exec_req_method st ch x
      | G_Url \<Rightarrow> exec_req_url st data ch x
      | G_Version \<Rightarrow> exec_req_version ch x
      | G_Field_Start \<Rightarrow> exec_header_field_start ch x
      | G_Field \<Rightarrow> exec_header_field st data x
      | G_Header_Ws \<Rightarrow> exec_header_ws st data ch x
      | G_Value \<Rightarrow> exec_header_value st data x
      | G_Headers_Almost \<Rightarrow> exec_headers_almost_done st ch x
      | G_Headers_Done \<Rightarrow> exec_headers_done st ch x
      | G_Body \<Rightarrow> exec_body st data x
      | G_Chunk \<Rightarrow> exec_chunk st data ch x)"

end
