(* ===== verification/Http_Run.thy ===== *)
theory Http_Run
  imports Http_Parser
begin

text \<open>
  The loop of \<open>http_parser_execute\<close> around the \<open>switch\<close>, its entry and its exits, and what
  holds of a whole run: the position never leaves the text, every chain of \<open>goto reexecute\<close>
  ends, and an error is final.
\<close>

section \<open>Control flow\<close>

text \<open>
  How far a state may be from the end of a chain of \<open>goto reexecute\<close>: each of them goes down.
\<close>

definition reexec_rank :: "http_state \<Rightarrow> nat" where
  "reexec_rank s =
     (if s = s_header_value_lws \<or> s = s_header_value_discard_lws then 4
      else if s = s_header_field_start then 3
      else if s = s_headers_almost_done then 2
      else if s = s_header_value \<or> s = s_body_identity \<or> s = s_start_req_or_res then 1
      else 0)"

definition control_ok :: "string \<Rightarrow> 'u exec \<Rightarrow> 'u outcome \<Rightarrow> bool" where
  "control_ok data x0 out =
     (case out of
        Break x \<Rightarrow> pos x0 \<le> pos x \<and> pos x < length data
      | Reexec x \<Rightarrow> pos x0 \<le> pos x \<and> pos x < length data \<and> reexec_rank (p_state x) < reexec_rank (p_state x0)
      | Fail x \<Rightarrow> pos x \<le> length data \<and> hp_errno (parser x) \<noteq> HPE_OK
      | Return n x \<Rightarrow>
          n \<le> length data \<and> (hp_errno (parser x) \<noteq> HPE_OK \<or> hp_upgrade (parser x) \<or> n = length data)
      | Abort \<Rightarrow> True)"

text \<open>What a callback leaves alone.\<close>

definition same_control :: "'u exec \<Rightarrow> 'u exec \<Rightarrow> bool" where
  "same_control x y \<longleftrightarrow>
     pos y = pos x \<and> p_state y = p_state x \<and> hp_upgrade (parser y) = hp_upgrade (parser x)"

lemma exec_simps [simp]:
  "pos (upd f x) = pos x" "pos (SET_ERRNO e x) = pos x" "pos (UPDATE_STATE s x) = pos x"
  "pos (set_mark m v x) = pos x" "pos (MARK m x) = pos x"
  "p_state (upd f x) = p_state x" "p_state (SET_ERRNO e x) = p_state x"
  "p_state (UPDATE_STATE s x) = s" "p_state (set_mark m v x) = p_state x" "p_state (MARK m x) = p_state x"
  "parser (upd f x) = f (parser x)" "parser (UPDATE_STATE s x) = parser x"
  "parser (set_mark m v x) = parser x" "parser (MARK m x) = parser x"
  "hp_errno (parser (SET_ERRNO e x)) = e" "hp_upgrade (parser (SET_ERRNO e x)) = hp_upgrade (parser x)"
  by (cases m; simp add: upd_def SET_ERRNO_def UPDATE_STATE_def MARK_def)+

lemma control_abort [simp]: "control_ok data x0 Abort"
  by (simp add: control_ok_def)

lemma control_assert: "(b \<Longrightarrow> control_ok data x0 k) \<Longrightarrow> control_ok data x0 (assert_that b k)"
  by (simp add: assert_that_def)

lemma control_pause:
  assumes "\<And>y. same_control x y \<Longrightarrow> control_ok data x0 (k y)"
  shows "control_ok data x0 (cb_pause b k x)"
proof -
  have "same_control x x" "same_control x (x\<lparr>parser := (parser x)\<lparr>hp_errno := e\<rparr>\<rparr>)" for e
    by (simp_all add: same_control_def)
  with assms show ?thesis by (simp add: cb_pause_def http_parser_pause_def)
qed

lemma control_after_cb:
  assumes "\<And>y. same_control x y \<Longrightarrow> control_ok data x0 (k y)" "er \<le> length data"
  shows "control_ok data x0 (after_cb e er k r x)"
proof -
  obtain ret paused u where r: "r = (ret, paused, u)" by (metis prod_cases3)
  have ret: "control_ok data x0 (Return er y)" if "hp_errno (parser y) \<noteq> HPE_OK" for y
    using that assms(2) by (simp add: control_ok_def)
  have "same_control x (y\<lparr>user := u\<rparr>)" "same_control x (SET_ERRNO e (y\<lparr>user := u\<rparr>))"
    if "same_control x y" for y
    using that by (simp_all add: same_control_def)
  with assms(1) ret show ?thesis
    unfolding r after_cb_def Let_def prod.case
    by (intro control_pause) (auto simp del: exec_simps)
qed

lemma control_notify:
  assumes "\<And>y. same_control x y \<Longrightarrow> control_ok data x0 (k y)" "er \<le> length data"
  shows "control_ok data x0 (CALLBACK_NOTIFY cb e er k x)"
  using assms unfolding CALLBACK_NOTIFY_def
  by (auto simp: Let_def same_control_def split: option.splits intro!: control_assert control_after_cb)

lemma control_data_to:
  assumes "\<And>y. same_control x y \<Longrightarrow> control_ok data x0 (k y)" "er \<le> length data"
  shows "control_ok data x0 (CALLBACK_DATA_TO st data f to er k x)"
  using assms unfolding CALLBACK_DATA_TO_def
  by (auto simp: Let_def same_control_def split: option.splits intro!: control_assert control_after_cb)


lemma control_count:
  assumes "\<And>y. same_control x y \<Longrightarrow> control_ok data x0 (k y)" "pos x \<le> length data"
  shows "control_ok data x0 (COUNT_HEADER_SIZE v k x)"
  using assms by (auto simp: COUNT_HEADER_SIZE_def Let_def fail_def control_ok_def same_control_def)

lemma control_simps [simp]:
  "control_ok data x0 (fail e x) \<longleftrightarrow> pos x \<le> length data \<and> e \<noteq> HPE_OK"
  "control_ok data x0 (Break x) \<longleftrightarrow> pos x0 \<le> pos x \<and> pos x < length data"
  "control_ok data x0 (Reexec x) \<longleftrightarrow>
     pos x0 \<le> pos x \<and> pos x < length data \<and> reexec_rank (p_state x) < reexec_rank (p_state x0)"
  "control_ok data x0 (RETURN n x) \<longleftrightarrow>
     n \<le> length data \<and> (hp_errno (parser x) \<noteq> HPE_OK \<or> hp_upgrade (parser x) \<or> n = length data)"
  by (simp_all add: control_ok_def fail_def RETURN_def)

lemma control_strict:
  "pos x \<le> length data \<Longrightarrow> (\<not> c \<Longrightarrow> control_ok data x0 k) \<Longrightarrow> control_ok data x0 (STRICT_CHECK c k x)"
  by (simp add: STRICT_CHECK_def)

lemma control_data:
  assumes "\<And>y. same_control x y \<Longrightarrow> control_ok data x0 (k y)" "pos x < length data"
  shows "control_ok data x0 (CALLBACK_DATA st data f k x)"
    and "control_ok data x0 (CALLBACK_DATA_NOADVANCE st data f k x)"
  using assms by (auto simp: CALLBACK_DATA_def CALLBACK_DATA_NOADVANCE_def intro: control_data_to)

lemmas control_intros =
  control_notify control_data control_count control_strict control_assert

lemmas group_simps = group_of.simps state_group.distinct

lemma control_start:
  assumes "pos x < length data" "group_of (p_state x) = G_Start"
  shows "control_ok data x (exec_start st ch x)"
  using assms
  by (cases "p_state x")
     (auto simp: exec_start_def Let_def reexec_rank_def same_control_def intro!: control_notify)

lemma control_res_line:
  assumes "pos x < length data" "group_of (p_state x) = G_Res_Line"
  shows "control_ok data x (exec_res_line st data ch x)"
  using assms
  by (cases "p_state x")
     (auto simp: exec_res_line_def Let_def same_control_def intro!: control_intros)

lemma control_req_method:
  assumes "pos x < length data" "group_of (p_state x) = G_Method"
  shows "control_ok data x (exec_req_method st ch x)"
  using assms
  by (cases "p_state x")
     (auto simp: exec_req_method_def Let_def same_control_def split: option.splits intro!: control_intros)

lemma control_url_char:
  "pos x0 \<le> pos x \<Longrightarrow> pos x < length data \<Longrightarrow> control_ok data x0 (url_char ch x)"
  by (simp add: url_char_def Let_def)

lemma control_req_url:
  assumes "pos x < length data"
  shows "control_ok data x (exec_req_url st data ch x)"
  using assms
  by (auto simp: exec_req_url_def Let_def same_control_def intro!: control_intros control_url_char)

lemma control_req_version:
  assumes "pos x < length data" "group_of (p_state x) = G_Version"
  shows "control_ok data x (exec_req_version ch x)"
  using assms
  by (cases "p_state x")
     (auto simp: exec_req_version_def Let_def intro!: control_intros)

lemma control_header_field_start:
  assumes "pos x < length data" "group_of (p_state x) = G_Field_Start"
  shows "control_ok data x (exec_header_field_start ch x)"
  using assms
  by (cases "p_state x") (auto simp: exec_header_field_start_def Let_def reexec_rank_def)

lemma header_field_loop_bounds:
  "header_field_loop s p ps = Some (p', ps') \<Longrightarrow> p \<le> p' \<and> p' \<le> p + length s"
proof (induction s p ps rule: header_field_loop.induct)
  case (2 ch rest p ps)
  show ?case
  proof (cases "TOKEN ch = 0")
    case False
    with 2 show ?thesis by (cases "header_field_char ch (TOKEN ch) ps") (force simp: Let_def)+
  qed (use 2 in simp)
qed simp

lemma control_header_field:
  assumes "pos x < length data"
  shows "control_ok data x (exec_header_field st data x)"
  using assms header_field_loop_bounds [of "drop (pos x) data" "pos x" "parser x"]
  by (auto simp: exec_header_field_def Let_def same_control_def split: option.splits
           intro!: control_intros)

lemma control_header_value_start:
  assumes "pos x0 \<le> pos x" "pos x < length data"
  shows "control_ok data x0 (exec_header_value_start ch x)"
  using assms
  by (auto simp: exec_header_value_start_def Let_def split: header_state.split)

lemma control_header_ws:
  assumes "pos x < length data" "group_of (p_state x) = G_Header_Ws"
  shows "control_ok data x (exec_header_ws st data ch x)"
  using assms
  by (cases "p_state x")
     (auto simp: exec_header_ws_def Let_def reexec_rank_def same_control_def
           intro!: control_intros control_header_value_start)

lemma control_header_value_end:
  assumes "pos x0 \<le> pos x" "pos x \<le> length data" "pos x0 < length data"
  shows "control_ok data x0 (header_value_end data start h x)"
  using assms by (auto simp: header_value_end_def same_control_def intro!: control_intros)

lemma header_value_char_error:
  "header_value_char ch h ps = Some (Inl e) \<Longrightarrow> e \<noteq> HPE_OK"
  by (cases h) (auto simp: header_value_char_def content_length_char_def Let_def split: if_splits sum.splits)

lemma control_header_value_loop:
  assumes "pos x0 \<le> pos x" "pos x \<le> length data" "pos x0 < length data" "p_state x0 = s_header_value"
  shows "control_ok data x0 (header_value_loop st data start h x)"
  using assms
proof (induction st data start h x rule: header_value_loop.induct)
  case (1 st data start h x)
  show ?case
  proof (cases "pos x < length data")
    case False
    then show ?thesis
      using "1.prems" by (subst header_value_loop.simps) (simp add: control_header_value_end)
  next
    case True
    let ?ch = "data ! pos x"
    have skip: "pos x \<le> skip_general data (pos x)" "skip_general data (pos x) < length data"
      if "?ch \<noteq> CR" "?ch \<noteq> LF" using skip_general_ge [OF True that] by auto
    show ?thesis
      using True "1.prems" "1.IH" skip
      by (subst header_value_loop.simps)
         (auto simp: Let_def same_control_def reexec_rank_def split: option.split sum.split
               intro!: control_intros control_header_value_end dest!: header_value_char_error)
  qed
qed

lemma control_header_value:
  assumes "pos x < length data" "p_state x = s_header_value"
  shows "control_ok data x (exec_header_value st data x)"
  using assms by (simp add: exec_header_value_def control_header_value_loop)

lemma control_headers_complete_result:
  assumes "pos x < length data" "pos x = pos x0" "p_state x = s_headers_done"
    "p_state x0 = s_headers_almost_done"
  shows "control_ok data x0 (headers_complete_result ret x)"
  using assms by (auto simp: headers_complete_result_def Let_def reexec_rank_def)

lemma control_headers_almost_done:
  assumes "pos x < length data" "p_state x = s_headers_almost_done"
  shows "control_ok data x (exec_headers_almost_done st ch x)"
  using assms
  by (auto simp: exec_headers_almost_done_def Let_def reexec_rank_def same_control_def
           split: option.split prod.split intro!: control_intros control_pause control_headers_complete_result)

lemma control_message_complete:
  assumes "\<And>y. pos y = pos x \<Longrightarrow> hp_upgrade (parser y) = hp_upgrade (parser x) \<Longrightarrow> control_ok data x0 (k y)"
    "pos x < length data"
  shows "control_ok data x0 (message_complete st k x)"
  using assms by (auto simp: message_complete_def same_control_def intro!: control_notify)

lemma control_headers_done:
  assumes "pos x < length data"
  shows "control_ok data x (exec_headers_done st ch x)"
  using assms by (auto simp: exec_headers_done_def Let_def intro!: control_message_complete)

lemma read_body_pos:
  assumes "pos x < length data" "content_length (parser x) \<noteq> 0"
  shows "pos x \<le> pos (read_body data x)" "pos (read_body data x) < length data"
  using assms by (auto simp: read_body_def Let_def)

lemma control_body:
  assumes "pos x < length data" "group_of (p_state x) = G_Body"
  shows "control_ok data x (exec_body st data x)"
  using assms read_body_pos [OF assms(1)]
  by (cases "p_state x")
     (auto simp: exec_body_def Let_def reexec_rank_def same_control_def
           intro!: control_intros control_data_to control_message_complete)

lemma control_chunk:
  assumes "pos x < length data" "group_of (p_state x) = G_Chunk"
  shows "control_ok data x (exec_chunk st data ch x)"
  using assms read_body_pos [OF assms(1)]
  by (cases "p_state x")
     (auto simp: exec_chunk_def Let_def same_control_def chunk_digit_def
           split: sum.split intro!: control_intros)

text \<open>Every state's code, for a position inside the text.\<close>

lemma control_exec_state:
  assumes "pos x < length data"
  shows "control_ok data x (exec_state st data x)"
proof -
  have "p_state x = s_headers_almost_done" if "group_of (p_state x) = G_Headers_Almost"
    using that by (cases "p_state x") simp_all
  moreover have "p_state x = s_header_value" if "group_of (p_state x) = G_Value"
    using that by (cases "p_state x") simp_all
  ultimately show ?thesis
    using assms
    by (cases "group_of (p_state x)")
       (simp_all add: exec_state_def Let_def control_start control_res_line control_req_method
          control_req_url control_req_version control_header_field_start control_header_field
          control_header_ws control_header_value control_headers_almost_done control_headers_done
          control_body control_chunk)
qed

section \<open>The loops\<close>

text \<open>
  One character: the \<open>switch\<close>, again after each \<open>goto reexecute\<close>. The position is inside the
  text, which the condition of the \<open>for\<close> loop ensures; that the other branch is never
  taken is \<open>execute_result\<close> below.
\<close>

function run_state :: "'u http_parser_settings \<Rightarrow> string \<Rightarrow> 'u exec \<Rightarrow> 'u outcome" where
  "run_state st data x =
     (if pos x < length data then
        (case exec_state st data x of
           Reexec y \<Rightarrow> run_state st data y
         | out \<Rightarrow> out)
      else Abort)"
  by pat_completeness auto
termination
  by (relation "measure (\<lambda>(st, data, x). reexec_rank (p_state x))")
     (use control_exec_state in \<open>fastforce simp: control_ok_def split: outcome.splits\<close>)+

declare run_state.simps [simp del]

definition exec_char :: "'u http_parser_settings \<Rightarrow> string \<Rightarrow> 'u exec \<Rightarrow> 'u outcome" where
  "exec_char st data x =
     (if PARSING_HEADER (p_state x) then COUNT_HEADER_SIZE 1 (run_state st data) x
      else run_state st data x)"

text \<open>The callbacks for the marks left over at the end of the text.\<close>

definition marks_set :: "'u exec \<Rightarrow> nat" where
  "marks_set x =
     length (filter (\<lambda>f. get_mark f x \<noteq> None) [Header_Field, Header_Value, Url, Body, Status])"

definition finish_chunk :: "'u http_parser_settings \<Rightarrow> string \<Rightarrow> 'u exec \<Rightarrow> 'u outcome" where
  "finish_chunk st data x =
     assert_that (marks_set x \<le> 1)
       (CALLBACK_DATA_NOADVANCE st data Header_Field
         (CALLBACK_DATA_NOADVANCE st data Header_Value
           (CALLBACK_DATA_NOADVANCE st data Url
             (CALLBACK_DATA_NOADVANCE st data Body
               (CALLBACK_DATA_NOADVANCE st data Status
                 (RETURN (length data)))))) x)"

lemma control_run_state:
  assumes "pos x < length data"
  shows "control_ok data x (run_state st data x)"
    and "run_state st data x \<noteq> Reexec y"
  using assms
proof (induction st data x rule: run_state.induct)
  case (1 st data x)
  { case 1
    show ?case
      using 1 "1.IH"(1) control_exec_state [OF 1, of st]
      by (subst run_state.simps) (auto simp: control_ok_def split: outcome.splits)
  next
    case 2
    show ?case
      using 2 "1.IH"(2) control_exec_state [OF 2, of st]
      by (subst run_state.simps) (auto simp: control_ok_def split: outcome.splits)
  }
qed

lemma control_weaken:
  "control_ok data y out \<Longrightarrow> pos x \<le> pos y \<Longrightarrow> p_state y = p_state x \<Longrightarrow> control_ok data x out"
  by (auto simp: control_ok_def split: outcome.splits)

lemma control_exec_char:
  assumes "pos x < length data"
  shows "control_ok data x (exec_char st data x)"
proof -
  have "control_ok data x (run_state st data y)" if "same_control x y" for y
    using that assms control_run_state(1) [of y data st]
    by (auto simp: same_control_def intro: control_weaken)
  then show ?thesis
    using assms by (auto simp: exec_char_def same_control_def intro!: control_count control_run_state)
qed

lemma exec_char_not_Reexec: "pos x < length data \<Longrightarrow> exec_char st data x \<noteq> Reexec y"
  by (auto simp: exec_char_def COUNT_HEADER_SIZE_def Let_def fail_def control_run_state)

lemma exec_char_Break:
  "exec_char st data x = Break y \<Longrightarrow> pos x < length data \<Longrightarrow> pos x \<le> pos y \<and> pos y < length data"
  using control_exec_char [of x data st] by simp

text \<open>The \<open>for\<close> loop; no \<open>goto reexecute\<close> is left over by \<open>run_state\<close>.\<close>

function exec_loop :: "'u http_parser_settings \<Rightarrow> string \<Rightarrow> 'u exec \<Rightarrow> 'u outcome" where
  "exec_loop st data x =
     (if pos x < length data then
        (case exec_char st data x of
           Break y \<Rightarrow> exec_loop st data (y\<lparr>pos := pos y + 1\<rparr>)
         | out \<Rightarrow> out)
      else finish_chunk st data x)"
  by pat_completeness auto
termination
  by (relation "measure (\<lambda>(st, data, x). length data - pos x)") (auto dest!: exec_char_Break)

declare exec_loop.simps [simp del]

text \<open>The two exits: the end of the text, and the label \<open>error\<close>.\<close>

definition exec_exit :: "'u outcome \<Rightarrow> (nat \<times> http_parser \<times> 'u) result" where
  "exec_exit out =
     (case out of
        Return n x \<Rightarrow> Inr (n, parser x, user x)
      | Fail x \<Rightarrow>
          (let x = (if hp_errno (parser x) = HPE_OK then SET_ERRNO HPE_UNKNOWN x else x)
           in Inr (pos x, (parser x)\<lparr>hp_state := p_state x\<rparr>, user x))
      | _ \<Rightarrow> Inl AssertFailed)"

text \<open>The marks at entry: a field, value, URL or reason phrase that the last text cut.\<close>

definition url_states :: "http_state set" where
  "url_states =
     {s_req_path, s_req_schema, s_req_schema_slash, s_req_schema_slash_slash, s_req_server_start,
      s_req_server, s_req_server_with_at, s_req_query_string_start, s_req_query_string,
      s_req_fragment_start, s_req_fragment}"

definition exec_entry :: "http_parser \<Rightarrow> 'u \<Rightarrow> 'u exec" where
  "exec_entry ps u =
     (let s = hp_state ps in
      \<lparr>parser = ps, user = u, pos = 0, p_state = s,
       header_field_mark = (if s = s_header_field then Some 0 else None),
       header_value_mark = (if s = s_header_value then Some 0 else None),
       url_mark = (if s \<in> url_states then Some 0 else None),
       body_mark = None,
       status_mark = (if s = s_res_status then Some 0 else None)\<rparr>)"

definition execute_eof ::
  "'u http_parser_settings \<Rightarrow> http_parser \<Rightarrow> 'u \<Rightarrow> (nat \<times> http_parser \<times> 'u) result" where
  "execute_eof st ps u =
     (if hp_state ps = s_body_identity_eof then
        exec_exit (CALLBACK_NOTIFY (on_message_complete st) HPE_CB_message_complete 0 (Return 0)
          (exec_entry ps u))
      else if hp_state ps \<in> {s_dead, s_start_req_or_res, s_start_res, s_start_req}
      then Inr (0, ps, u)
      else Inr (1, ps\<lparr>hp_errno := HPE_INVALID_EOF_STATE\<rparr>, u))"

definition http_parser_execute ::
  "'u http_parser_settings \<Rightarrow> http_parser \<Rightarrow> 'u \<Rightarrow> string \<Rightarrow> (nat \<times> http_parser \<times> 'u) result" where
  "http_parser_execute st ps u data =
     (if hp_errno ps \<noteq> HPE_OK then Inr (0, ps, u)
      else if data = [] then execute_eof st ps u
      else exec_exit (exec_loop st data (exec_entry ps u)))"

section \<open>The count that a run returns\<close>

text \<open>At the end of the text there is no \<open>break\<close> and no \<open>goto reexecute\<close> left.\<close>

lemma control_finish_chunk:
  "pos x = length data \<Longrightarrow> control_ok data x0 (finish_chunk st data x)"
  by (auto simp: finish_chunk_def CALLBACK_DATA_NOADVANCE_def same_control_def
           intro!: control_assert control_data_to)

lemma control_exec_loop:
  assumes "pos x \<le> length data" "pos x0 = length data"
  shows "control_ok data x0 (exec_loop st data x)"
  using assms
proof (induction st data x rule: exec_loop.induct)
  case (1 st data x)
  show ?case
  proof (cases "pos x < length data")
    case True
    then show ?thesis
      using "1.prems" "1.IH" [OF True] control_exec_char [OF True, of st] exec_char_not_Reexec [OF True, of st]
      by (subst exec_loop.simps) (auto simp: control_ok_def split: outcome.splits)
  next
    case False
    with "1.prems" show ?thesis by (subst exec_loop.simps) (simp add: control_finish_chunk)
  qed
qed

lemma exec_entry_pos [simp]: "pos (exec_entry ps u) = 0" "parser (exec_entry ps u) = ps"
  "p_state (exec_entry ps u) = hp_state ps"
  by (simp_all add: exec_entry_def Let_def)

lemma execute_exit_count:
  assumes "control_ok data x0 out" "pos x0 = length data" "exec_exit out = Inr (n, ps, u)"
  shows "n \<le> length data \<and> (n < length data \<and> hp_errno ps = HPE_OK \<longrightarrow> hp_upgrade ps)"
  using assms by (auto simp: control_ok_def exec_exit_def Let_def split: outcome.splits)

lemma execute_eof_count:
  assumes "execute_eof st ps u = Inr (n, ps', u')"
  shows "if hp_state ps \<in> {s_body_identity_eof, s_dead, s_start_req_or_res, s_start_res, s_start_req}
    then n = 0 else n = 1 \<and> hp_errno ps' = HPE_INVALID_EOF_STATE"
proof (cases "hp_state ps = s_body_identity_eof")
  case True
  let ?out = "CALLBACK_NOTIFY (on_message_complete st) HPE_CB_message_complete 0 (Return 0) (exec_entry ps u)"
  have "control_ok [] (exec_entry ps u) ?out" by (rule control_notify) (simp_all add: control_ok_def)
  moreover have "exec_exit ?out = Inr (n, ps', u')" using assms True by (simp add: execute_eof_def)
  ultimately have "n \<le> length ([] :: string)"
    using execute_exit_count [of "[]" "exec_entry ps u" ?out n ps' u'] by simp
  with True show ?thesis by simp
qed (use assms in \<open>auto simp: execute_eof_def\<close>)

text \<open>
  C24: The number of bytes that \<open>http_parser_execute\<close> reports for a piece of text that is not
  empty never exceeds the bytes it was given, and it is smaller only when an error (or a pause)
  is recorded or the message asks for another protocol, which is how the header file tells
  callers to read it. An empty piece stands for the end of the connection: it reports 0, or 1,
  which is more than it was given, exactly when the end comes in the middle of a message, and
  then with the error recorded.
\<close>
theorem execute_count:
  assumes "http_parser_execute st ps u data = Inr (n, ps', u')" "hp_errno ps = HPE_OK"
  shows "(data \<noteq> [] \<longrightarrow>
      n \<le> length data \<and> (n < length data \<and> hp_errno ps' = HPE_OK \<longrightarrow> hp_upgrade ps')) \<and>
    (data = [] \<longrightarrow>
      (if hp_state ps \<in> {s_body_identity_eof, s_dead, s_start_req_or_res, s_start_res, s_start_req}
       then n = 0 else n = 1 \<and> hp_errno ps' = HPE_INVALID_EOF_STATE))"
proof (intro conjI impI)
  assume "data \<noteq> []"
  with assms have x: "exec_exit (exec_loop st data (exec_entry ps u)) = Inr (n, ps', u')"
    by (simp add: http_parser_execute_def)
  let ?x0 = "(exec_entry ps u)\<lparr>pos := length data\<rparr>"
  have "control_ok data ?x0 (exec_loop st data (exec_entry ps u))"
    by (rule control_exec_loop) simp_all
  from execute_exit_count [OF this _ x]
  show "n \<le> length data" "n < length data \<and> hp_errno ps' = HPE_OK \<Longrightarrow> hp_upgrade ps'" by auto
next
  assume "data = []"
  with assms execute_eof_count [of st ps u n ps' u']
  show "if hp_state ps \<in> {s_body_identity_eof, s_dead, s_start_req_or_res, s_start_res, s_start_req}
       then n = 0 else n = 1 \<and> hp_errno ps' = HPE_INVALID_EOF_STATE"
    by (simp add: http_parser_execute_def)
qed

text \<open>The definitions that the simplifier runs the parser with.\<close>

lemmas run_eval =
  http_parser_execute_def exec_loop.simps exec_char_def run_state.simps exec_state_def
  exec_entry_def exec_exit_def Let_def PARSING_HEADER_def COUNT_HEADER_SIZE_def
  less_eq_http_state_def http_parser_init_def http_parser_settings_init_def HTTP_MAX_HEADER_SIZE_def
  UPDATE_STATE_def SET_ERRNO_def upd_def fail_def RETURN_def url_states_def
  CR_def LF_def SP_def TAB_def IS_ALPHA_def IS_NUM_def LOWER_def code_def

lemma execute_count_witness:
  "\<exists>ps. http_parser_execute (http_parser_settings_init :: unit http_parser_settings)
          (http_parser_init HTTP_REQUEST) () ''G!'' = Inr (1, ps, ())
        \<and> hp_errno ps = HPE_INVALID_METHOD \<and> (1 :: nat) \<le> length ''G!''
        \<and> (1 < length ''G!'' \<and> hp_errno ps = HPE_OK \<longrightarrow> hp_upgrade ps)"
proof -
  let ?st = "http_parser_settings_init :: unit http_parser_settings"
  obtain ps where run: "http_parser_execute ?st (http_parser_init HTTP_REQUEST) () ''G!'' = Inr (1, ps, ())"
    and e: "hp_errno ps = HPE_INVALID_METHOD"
    by (simp add: run_eval exec_req_method_def method_of_letter_def method_switch_def c_char_at_def
          CALLBACK_NOTIFY_def assert_that_def)
  have "hp_errno (http_parser_init HTTP_REQUEST) = HPE_OK" by (simp add: http_parser_init_def)
  from execute_count [OF run this] run e show ?thesis by (intro exI [of _ ps]) simp
qed

end
