(* ===== verification/Http_Safe.thy ===== *)
theory Http_Safe
  imports Http_Run
begin

text \<open>
  The assertions of \<open>http_parser_execute\<close> never fail. The invariant of a parser between two
  calls, \<open>parser_ok\<close>, says what each state promises about the other fields; the invariant
  of the local variables, \<open>ok_inv\<close>, adds which mark may be set in which state. Every group of
  states of the \<open>switch\<close> keeps them, whatever the callbacks answer.
\<close>

section \<open>The invariant\<close>

text \<open>The values of \<open>header_state\<close> inside a header's name.\<close>

definition field_matchers :: "header_state set" where
  "field_matchers =
     {h_general, h_C, h_CO, h_CON, h_matching_connection, h_matching_proxy_connection,
      h_matching_content_length, h_matching_transfer_encoding, h_matching_upgrade,
      h_connection, h_content_length, h_transfer_encoding, h_upgrade}"

definition chunk_states :: "http_state set" where
  "chunk_states =
     {s_chunk_size_start, s_chunk_size, s_chunk_parameters, s_chunk_size_almost_done,
      s_chunk_data, s_chunk_data_almost_done, s_chunk_data_done}"

text \<open>
  What a state promises; \<open>n\<close> is the number of header bytes counted at the start of a chunk:
  none between two characters, one inside the \<open>switch\<close>.
\<close>

definition state_inv :: "nat \<Rightarrow> http_state \<Rightarrow> http_parser \<Rightarrow> bool" where
  "state_inv n s ps \<longleftrightarrow>
     (s = s_header_field \<longrightarrow> header_state ps \<in> field_matchers) \<and>
     (s = s_header_value \<longrightarrow> header_state ps \<noteq> h_connection \<and> header_state ps \<noteq> h_transfer_encoding) \<and>
     (s \<in> chunk_states \<longrightarrow> flag_set F_CHUNKED ps) \<and>
     (s \<in> {s_body_identity, s_chunk_data} \<longrightarrow> content_length ps \<noteq> 0) \<and>
     (s \<in> {s_body_identity, s_chunk_size, s_chunk_parameters, s_chunk_size_almost_done, s_chunk_data}
        \<longrightarrow> content_length ps < ULLONG_MAX) \<and>
     (s = s_chunk_data_almost_done \<longrightarrow> content_length ps = 0) \<and>
     (s = s_chunk_size_start \<longrightarrow> hp_nread ps = n)"

text \<open>Content lengths never reach the value that stands for their absence, but by it.\<close>

definition parser_ok :: "http_parser \<Rightarrow> bool" where
  "parser_ok ps \<longleftrightarrow>
     hp_errno ps \<noteq> HPE_OK \<and> hp_errno ps \<noteq> HPE_PAUSED \<or>
     state_inv 0 (hp_state ps) ps \<and> content_length ps \<le> ULLONG_MAX"

definition mark_inv :: "'u exec \<Rightarrow> bool" where
  "mark_inv x \<longleftrightarrow>
     (\<forall>m. header_field_mark x = Some m \<longrightarrow> m \<le> pos x \<and> p_state x = s_header_field) \<and>
     (\<forall>m. header_value_mark x = Some m \<longrightarrow> m \<le> pos x \<and> p_state x = s_header_value) \<and>
     (\<forall>m. url_mark x = Some m \<longrightarrow> m \<le> pos x \<and> p_state x \<in> url_states) \<and>
     (\<forall>m. body_mark x = Some m \<longrightarrow> m \<le> pos x \<and>
        p_state x \<in> {s_body_identity, s_body_identity_eof, s_chunk_data, s_chunk_data_almost_done}) \<and>
     (\<forall>m. status_mark x = Some m \<longrightarrow> m \<le> pos x \<and> p_state x = s_res_status)"

definition ok_inv :: "nat \<Rightarrow> 'u exec \<Rightarrow> bool" where
  "ok_inv n x \<longleftrightarrow>
     hp_errno (parser x) = HPE_OK \<and> state_inv n (p_state x) (parser x) \<and>
     content_length (parser x) \<le> ULLONG_MAX \<and> mark_inv x"

definition safe :: "'u outcome \<Rightarrow> bool" where
  "safe out =
     (case out of
        Break x \<Rightarrow> ok_inv 0 x
      | Reexec x \<Rightarrow> ok_inv 1 x
      | Fail x \<Rightarrow> hp_errno (parser x) \<noteq> HPE_OK \<and> hp_errno (parser x) \<noteq> HPE_PAUSED
      | Return n x \<Rightarrow> parser_ok (parser x)
      | Abort \<Rightarrow> False)"

lemma safe_simps [simp]:
  "safe (Break x) \<longleftrightarrow> ok_inv 0 x"
  "safe (Reexec x) \<longleftrightarrow> ok_inv 1 x"
  "safe (fail e x) \<longleftrightarrow> e \<noteq> HPE_OK \<and> e \<noteq> HPE_PAUSED"
  "safe (Return n x) \<longleftrightarrow> parser_ok (parser x)"
  "\<not> safe Abort"
  by (simp_all add: safe_def fail_def)

lemma safe_assert: "b \<Longrightarrow> safe k \<Longrightarrow> safe (assert_that b k)"
  by (simp add: assert_that_def)

section \<open>Callbacks\<close>

text \<open>What a callback that lets the parser go on may have changed: its own state, and \<open>state\<close>.\<close>

definition cb_rel :: "'u exec \<Rightarrow> 'u exec \<Rightarrow> bool" where
  "cb_rel x y \<longleftrightarrow>
     (\<exists>s u. y = x\<lparr>parser := (parser x)\<lparr>hp_state := s\<rparr>, user := u\<rparr> \<and> s \<in> {hp_state (parser x), p_state x})"

lemma state_inv_upd [simp]:
  "state_inv n s (ps\<lparr>hp_state := t\<rparr>) = state_inv n s ps"
  "state_inv n s (ps\<lparr>hp_errno := e\<rparr>) = state_inv n s ps"
  by (simp_all add: state_inv_def flag_set_def)

lemma cb_rel_refl [simp]: "cb_rel x x"
proof -
  have "x = x\<lparr>parser := (parser x)\<lparr>hp_state := hp_state (parser x)\<rparr>, user := user x\<rparr>" by simp
  then show ?thesis unfolding cb_rel_def by blast
qed

lemma ok_inv_cb_rel: "cb_rel x y \<Longrightarrow> ok_inv n y = ok_inv n x"
  by (auto simp: cb_rel_def ok_inv_def mark_inv_def)

lemma parser_ok_fields:
  "parser_ok (ps\<lparr>hp_errno := HPE_PAUSED, hp_state := s\<rparr>) \<longleftrightarrow>
     state_inv 0 s ps \<and> content_length ps \<le> ULLONG_MAX"
  by (simp add: parser_ok_def)

lemma cb_pause_ok:
  "hp_errno (parser x) = HPE_OK \<Longrightarrow>
   cb_pause b k x = (if b then k (x\<lparr>parser := (parser x)\<lparr>hp_errno := HPE_PAUSED\<rparr>\<rparr>) else k x)"
  by (simp add: cb_pause_def http_parser_pause_def)

lemma safe_after_cb:
  assumes "\<And>y. cb_rel x y \<Longrightarrow> safe (k y)"
    and "hp_errno (parser x) = HPE_OK" "state_inv 0 (p_state x) (parser x)"
    and "content_length (parser x) \<le> ULLONG_MAX" "hp_state (parser x) = p_state x"
    and "e \<noteq> HPE_OK" "e \<noteq> HPE_PAUSED"
  shows "safe (after_cb e er k r x)"
proof -
  obtain ret paused u where r: "r = (ret, paused, u)" by (metis prod_cases3)
  have "cb_rel x (x\<lparr>user := u\<rparr>)"
  proof -
    have "x\<lparr>user := u\<rparr> = x\<lparr>parser := (parser x)\<lparr>hp_state := hp_state (parser x)\<rparr>, user := u\<rparr>" by simp
    then show ?thesis unfolding cb_rel_def by blast
  qed
  with assms show ?thesis
    by (auto simp: r after_cb_def cb_pause_ok Let_def SET_ERRNO_def parser_ok_def)
qed

lemma cb_rel_trans:
  assumes "cb_rel x y" "cb_rel y z"
  shows "cb_rel x z"
proof -
  obtain s u where y: "y = x\<lparr>parser := (parser x)\<lparr>hp_state := s\<rparr>, user := u\<rparr>"
    and s: "s \<in> {hp_state (parser x), p_state x}"
    using assms(1) unfolding cb_rel_def by blast
  obtain t v where z: "z = y\<lparr>parser := (parser y)\<lparr>hp_state := t\<rparr>, user := v\<rparr>"
    and t: "t \<in> {hp_state (parser y), p_state y}"
    using assms(2) unfolding cb_rel_def by blast
  have "z = x\<lparr>parser := (parser x)\<lparr>hp_state := t\<rparr>, user := v\<rparr>" by (simp add: y z)
  moreover have "t \<in> {hp_state (parser x), p_state x}" using s t by (auto simp: y)
  ultimately show ?thesis unfolding cb_rel_def by blast
qed

lemma cb_rel_save: "cb_rel x (upd (\<lambda>ps. ps\<lparr>hp_state := p_state x\<rparr>) x)"
proof -
  have "upd (\<lambda>ps. ps\<lparr>hp_state := p_state x\<rparr>) x =
      x\<lparr>parser := (parser x)\<lparr>hp_state := p_state x\<rparr>, user := user x\<rparr>"
    by (simp add: upd_def)
  then show ?thesis unfolding cb_rel_def by blast
qed

lemma safe_notify:
  assumes "\<And>y. cb_rel x y \<Longrightarrow> safe (k y)"
    and "hp_errno (parser x) = HPE_OK" "state_inv 0 (p_state x) (parser x)"
    and "content_length (parser x) \<le> ULLONG_MAX" "e \<noteq> HPE_OK" "e \<noteq> HPE_PAUSED"
  shows "safe (CALLBACK_NOTIFY cb e er k x)"
proof (cases cb)
  case (Some f)
  show ?thesis
    unfolding CALLBACK_NOTIFY_def Some option.case Let_def
    by (intro safe_assert safe_after_cb) (use assms cb_rel_trans [OF cb_rel_save] in auto)
qed (use assms in \<open>simp add: CALLBACK_NOTIFY_def assert_that_def\<close>)

lemma cb_errno_error [simp]: "cb_errno f \<noteq> HPE_OK" "cb_errno f \<noteq> HPE_PAUSED"
  by (cases f; simp)+

lemma safe_data_to:
  assumes "\<And>y. cb_rel x y \<Longrightarrow> safe (k (set_mark f None y))"
    and "hp_errno (parser x) = HPE_OK" "state_inv 0 (p_state x) (parser x)"
    and "content_length (parser x) \<le> ULLONG_MAX"
  shows "safe (CALLBACK_DATA_TO st data f to er k x)"
proof (cases "get_mark f x")
  case None
  then have "set_mark f None x = x" by (cases f) simp_all
  with assms(1) [of x] assms(2) None show ?thesis by (simp add: CALLBACK_DATA_TO_def assert_that_def)
next
  case (Some m)
  show ?thesis
  proof (cases "data_cb f st")
    case (Some cb)
    show ?thesis
      unfolding CALLBACK_DATA_TO_def Some \<open>get_mark f x = Some m\<close> option.case Let_def
      by (intro safe_assert safe_after_cb) (use assms cb_rel_trans [OF cb_rel_save] in auto)
  qed (use assms Some in \<open>simp add: CALLBACK_DATA_TO_def assert_that_def\<close>)
qed

lemma safe_data:
  assumes "\<And>y. cb_rel x y \<Longrightarrow> safe (k (set_mark f None y))"
    and "hp_errno (parser x) = HPE_OK" "state_inv 0 (p_state x) (parser x)"
    and "content_length (parser x) \<le> ULLONG_MAX"
  shows "safe (CALLBACK_DATA st data f k x)" "safe (CALLBACK_DATA_NOADVANCE st data f k x)"
  using assms by (simp_all add: CALLBACK_DATA_def CALLBACK_DATA_NOADVANCE_def safe_data_to)

lemma safe_count:
  assumes "safe (k (upd (\<lambda>ps. ps\<lparr>hp_nread := (hp_nread ps + v) mod 2 ^ 32\<rparr>) x))"
  shows "safe (COUNT_HEADER_SIZE v k x)"
  using assms by (simp add: COUNT_HEADER_SIZE_def Let_def)

lemma safe_strict: "(\<not> c \<Longrightarrow> safe k) \<Longrightarrow> safe (STRICT_CHECK c k x)"
  by (simp add: STRICT_CHECK_def)

lemma cb_relE:
  assumes "cb_rel x y"
  obtains s u where "y = x\<lparr>parser := (parser x)\<lparr>hp_state := s\<rparr>, user := u\<rparr>"
  using assms unfolding cb_rel_def by blast

lemma ok_inv_set_mark: "cb_rel x y \<Longrightarrow> ok_inv n (set_mark f m y) = ok_inv n (set_mark f m x)"
  by (elim cb_relE) (cases f; simp add: ok_inv_def mark_inv_def)

lemma ok_inv_parser:
  "ok_inv n x \<Longrightarrow> hp_errno (parser x) = HPE_OK"
  "ok_inv n x \<Longrightarrow> content_length (parser x) \<le> ULLONG_MAX"
  "ok_inv n x \<Longrightarrow> state_inv n (p_state x) (parser x)"
  by (simp_all add: ok_inv_def)

lemma ok_inv_01: "p_state x \<noteq> s_chunk_size_start \<Longrightarrow> ok_inv 1 x \<longleftrightarrow> ok_inv 0 x"
  by (simp add: ok_inv_def state_inv_def)

lemma if_split_safe: "(b \<Longrightarrow> safe x) \<Longrightarrow> (\<not> b \<Longrightarrow> safe y) \<Longrightarrow> safe (if b then x else y)"
  by simp

text \<open>The usual callbacks, followed by \<open>break\<close> or \<open>goto reexecute\<close>.\<close>

lemma safe_notify_break:
  "ok_inv 0 x \<Longrightarrow> e \<noteq> HPE_OK \<Longrightarrow> e \<noteq> HPE_PAUSED \<Longrightarrow> safe (CALLBACK_NOTIFY cb e er Break x)"
  by (rule safe_notify) (auto simp: ok_inv_cb_rel dest: ok_inv_parser)

lemma safe_data_to_break:
  assumes "ok_inv 0 (set_mark f None x)"
  shows "safe (CALLBACK_DATA_TO st data f to er Break x)"
  using assms ok_inv_parser [OF assms]
  by (intro safe_data_to) (simp_all add: ok_inv_set_mark)

lemma safe_data_to_reexec:
  assumes "ok_inv 1 (set_mark f None x)" "p_state x \<noteq> s_chunk_size_start"
  shows "safe (CALLBACK_DATA_TO st data f to er Reexec x)"
proof (rule safe_data_to)
  show "state_inv 0 (p_state x) (parser x)"
    using ok_inv_parser(3) [OF assms(1)] assms(2) by (simp add: state_inv_def)
qed (use ok_inv_parser [OF assms(1)] assms(1) in \<open>simp_all add: ok_inv_set_mark\<close>)

lemma safe_data_break:
  "ok_inv 0 (set_mark f None x) \<Longrightarrow> safe (CALLBACK_DATA st data f Break x)"
  by (simp add: CALLBACK_DATA_def safe_data_to_break)

lemma safe_data_reexec:
  "ok_inv 1 (set_mark f None x) \<Longrightarrow> p_state x \<noteq> s_chunk_size_start \<Longrightarrow>
   safe (CALLBACK_DATA_NOADVANCE st data f Reexec x)"
  by (simp add: CALLBACK_DATA_NOADVANCE_def safe_data_to_reexec)

lemma flag_set_simps [simp]:
  "flag_set f (ps\<lparr>hp_type := t\<rparr>) = flag_set f ps" "flag_set f (ps\<lparr>hp_state := s\<rparr>) = flag_set f ps"
  "flag_set f (ps\<lparr>header_state := h\<rparr>) = flag_set f ps" "flag_set f (ps\<lparr>hp_index := i\<rparr>) = flag_set f ps"
  "flag_set f (ps\<lparr>hp_nread := n\<rparr>) = flag_set f ps" "flag_set f (ps\<lparr>content_length := c\<rparr>) = flag_set f ps"
  "flag_set f (ps\<lparr>http_major := v\<rparr>) = flag_set f ps" "flag_set f (ps\<lparr>http_minor := v\<rparr>) = flag_set f ps"
  "flag_set f (ps\<lparr>status_code := v\<rparr>) = flag_set f ps" "flag_set f (ps\<lparr>hp_method := m\<rparr>) = flag_set f ps"
  "flag_set f (ps\<lparr>hp_errno := e\<rparr>) = flag_set f ps" "flag_set f (ps\<lparr>hp_upgrade := b\<rparr>) = flag_set f ps"
  by (simp_all add: flag_set_def)

lemma flag_set_set_flag [simp]: "flag_set f (set_flag g ps) \<longleftrightarrow> flag_set f ps \<or> g AND f \<noteq> 0"
  by (auto simp: flag_set_def set_flag_def bit.conj_disj_distrib2 or_eq_0_iff)

lemma set_flag_simps [simp]:
  "hp_errno (set_flag f ps) = hp_errno ps" "header_state (set_flag f ps) = header_state ps"
  "content_length (set_flag f ps) = content_length ps" "hp_nread (set_flag f ps) = hp_nread ps"
  "hp_state (set_flag f ps) = hp_state ps" "lenient_http_headers (set_flag f ps) = lenient_http_headers ps"
  by (simp_all add: set_flag_def)

lemma inc_index_simps [simp]:
  "hp_errno (inc_index ps) = hp_errno ps" "header_state (inc_index ps) = header_state ps"
  "content_length (inc_index ps) = content_length ps" "hp_nread (inc_index ps) = hp_nread ps"
  "flag_set f (inc_index ps) = flag_set f ps" "hp_state (inc_index ps) = hp_state ps"
  by (simp_all add: inc_index_def)

lemma mark_simps [simp]:
  "header_field_mark (upd f x) = header_field_mark x" "header_value_mark (upd f x) = header_value_mark x"
  "url_mark (upd f x) = url_mark x" "body_mark (upd f x) = body_mark x" "status_mark (upd f x) = status_mark x"
  "header_field_mark (UPDATE_STATE s x) = header_field_mark x"
  "header_value_mark (UPDATE_STATE s x) = header_value_mark x"
  "url_mark (UPDATE_STATE s x) = url_mark x" "body_mark (UPDATE_STATE s x) = body_mark x"
  "status_mark (UPDATE_STATE s x) = status_mark x"
  by (simp_all add: upd_def UPDATE_STATE_def)

lemmas inv_defs = ok_inv_def state_inv_def mark_inv_def chunk_states_def url_states_def

text \<open>The size limits, as numbers the simplifier compares.\<close>

lemma ULLONG_MAX_pos [simp]: "0 < ULLONG_MAX" "ULLONG_MAX \<noteq> 0" "n < 16 \<Longrightarrow> n < ULLONG_MAX"
  by (simp_all add: ULLONG_MAX_def)

section \<open>The groups of states\<close>

lemma safe_start:
  assumes "ok_inv 1 x" "group_of (p_state x) = G_Start"
  shows "safe (exec_start st ch x)"
  using assms
  by (cases "p_state x")
     (auto simp: exec_start_def Let_def inv_defs intro!: safe_notify_break)

lemma safe_res_line:
  assumes "ok_inv 1 x" "group_of (p_state x) = G_Res_Line"
  shows "safe (exec_res_line st data ch x)"
  using assms
  by (cases "p_state x")
     (auto simp: exec_res_line_def Let_def inv_defs MARK_def intro!: safe_data_break safe_strict)

lemma safe_req_method:
  assumes "ok_inv 1 x" "group_of (p_state x) = G_Method"
  shows "safe (exec_req_method st ch x)"
  using assms
  by (cases "p_state x")
     (auto simp: exec_req_method_def Let_def inv_defs split: option.splits intro!: safe_notify_break)

lemma parse_url_char_states:
  assumes "group_of s = G_Url"
  shows "parse_url_char s ch = s_dead \<or> parse_url_char s ch \<in> url_states"
  using assms by (cases s) (auto simp: parse_url_char_def url_states_def)

text \<open>A state that promises nothing but for the mark that it allows.\<close>

lemma state_inv_url: "s \<in> url_states \<Longrightarrow> state_inv n s ps"
  by (auto simp: state_inv_def url_states_def chunk_states_def)

lemma url_states_group: "group_of s = G_Url \<longleftrightarrow> s \<in> url_states \<or> s = s_req_spaces_before_url"
  by (cases s) (simp_all add: url_states_def)

lemma safe_url_char:
  assumes "group_of (p_state x) = G_Url" "hp_errno (parser x) = HPE_OK"
    and "content_length (parser x) \<le> ULLONG_MAX"
    and "header_field_mark x = None" "header_value_mark x = None" "body_mark x = None" "status_mark x = None"
    and "\<And>m. url_mark x = Some m \<Longrightarrow> m \<le> pos x"
  shows "safe (url_char ch x)"
proof -
  let ?s = "parse_url_char (p_state x) ch"
  have "state_inv 0 ?s (parser x)" if "?s \<noteq> s_dead"
    using parse_url_char_states [OF assms(1), of ch] that by (simp add: state_inv_url)
  then show ?thesis
    using assms parse_url_char_states [OF assms(1), of ch]
    by (auto simp: url_char_def Let_def ok_inv_def mark_inv_def)
qed

lemma mark_None: "(\<And>m. a = Some m \<Longrightarrow> False) \<Longrightarrow> a = None"
  by (cases a) auto

lemma mark_inv_group:
  assumes "mark_inv x"
  shows "group_of (p_state x) = G_Url \<Longrightarrow>
      header_field_mark x = None \<and> header_value_mark x = None \<and> body_mark x = None \<and> status_mark x = None"
    and "p_state x = s_header_field \<Longrightarrow>
      header_value_mark x = None \<and> url_mark x = None \<and> body_mark x = None \<and> status_mark x = None"
    and "p_state x = s_header_value \<Longrightarrow>
      header_field_mark x = None \<and> url_mark x = None \<and> body_mark x = None \<and> status_mark x = None"
  using assms by (auto simp: mark_inv_def url_states_def intro!: mark_None)

lemma safe_req_url:
  assumes "ok_inv 1 x" "group_of (p_state x) = G_Url"
  shows "safe (exec_req_url st data ch x)"
proof -
  have mi: "mark_inv x" using assms(1) by (simp add: ok_inv_def)
  have m: "header_field_mark x = None" "header_value_mark x = None" "body_mark x = None" "status_mark x = None"
    using mark_inv_group(1) [OF mi assms(2)] by auto
  have mp: "\<And>m. url_mark x = Some m \<Longrightarrow> m \<le> pos x" using mi by (simp add: mark_inv_def)
  have e: "hp_errno (parser x) = HPE_OK" "content_length (parser x) \<le> ULLONG_MAX"
    using assms(1) by (simp_all add: ok_inv_def)
  have mu: "header_field_mark (MARK Url x) = None" "header_value_mark (MARK Url x) = None"
    "body_mark (MARK Url x) = None" "status_mark (MARK Url x) = None"
    "\<And>m. url_mark (MARK Url x) = Some m \<Longrightarrow> m \<le> pos x"
    using m mp by (auto simp: MARK_def split: if_splits)
  have end_ok: "ok_inv 0 (set_mark Url None (UPDATE_STATE s x))"
    "ok_inv 0 (set_mark Url None (UPDATE_STATE s (upd (\<lambda>ps. ps\<lparr>http_major := 0, http_minor := 9\<rparr>) x)))"
    if "s \<in> {s_req_http_start, s_req_line_almost_done, s_header_field_start}" for s
    using that m e by (auto simp: inv_defs)
  have u: "safe (url_char ch x)" "safe (url_char ch (MARK Url x))"
    "safe (url_char ch (UPDATE_STATE s_req_server_start (MARK Url x)))"
    by (rule safe_url_char; use assms(2) m mp e mu in simp)+
  have d: "safe (CALLBACK_DATA st data Url Break (UPDATE_STATE s x))"
    "safe (CALLBACK_DATA st data Url Break (UPDATE_STATE s (upd (\<lambda>ps. ps\<lparr>http_major := 0, http_minor := 9\<rparr>) x)))"
    if "s \<in> {s_req_http_start, s_req_line_almost_done, s_header_field_start}" for s
    using end_ok [OF that] by (simp_all add: safe_data_break)
  have "p_state x \<noteq> s_chunk_size_start" using assms(2) by auto
  then have b: "ok_inv 0 x" using ok_inv_01 assms(1) by blast
  show ?thesis
    unfolding exec_req_url_def Let_def by (intro if_split_safe) (simp_all add: u d b)
qed

lemma safe_req_version:
  assumes "ok_inv 1 x" "group_of (p_state x) = G_Version"
  shows "safe (exec_req_version ch x)"
  using assms
  by (cases "p_state x") (auto simp: exec_req_version_def Let_def inv_defs intro!: safe_strict)

lemma safe_header_field_start:
  assumes "ok_inv 1 x" "group_of (p_state x) = G_Field_Start"
  shows "safe (exec_header_field_start ch x)"
  using assms
  by (cases "p_state x")
     (auto simp: exec_header_field_start_def Let_def inv_defs MARK_def field_matchers_def)

lemma field_matchers_simps:
  "h_general \<in> field_matchers" "h_CO \<in> field_matchers" "h_CON \<in> field_matchers"
  "h_matching_connection \<in> field_matchers" "h_matching_content_length \<in> field_matchers"
  "h_matching_proxy_connection \<in> field_matchers" "h_matching_transfer_encoding \<in> field_matchers"
  "h_matching_upgrade \<in> field_matchers" "h_connection \<in> field_matchers"
  "h_content_length \<in> field_matchers" "h_transfer_encoding \<in> field_matchers" "h_upgrade \<in> field_matchers"
  "h_matching_transfer_encoding_chunked \<notin> field_matchers" "h_matching_connection_token_start \<notin> field_matchers"
  "h_matching_connection_keep_alive \<notin> field_matchers" "h_matching_connection_close \<notin> field_matchers"
  "h_matching_connection_upgrade \<notin> field_matchers" "h_matching_connection_token \<notin> field_matchers"
  "h_transfer_encoding_chunked \<notin> field_matchers" "h_connection_keep_alive \<notin> field_matchers"
  "h_connection_close \<notin> field_matchers" "h_connection_upgrade \<notin> field_matchers"
  by (simp_all add: field_matchers_def)

definition name_step :: "http_parser \<Rightarrow> http_parser \<Rightarrow> bool" where
  "name_step ps ps' \<longleftrightarrow> (\<exists>i h. ps' = ps\<lparr>hp_index := i, header_state := h\<rparr> \<and> h \<in> field_matchers)"

lemma name_step_intros:
  "header_state ps \<in> field_matchers \<Longrightarrow> name_step ps ps"
  "h \<in> field_matchers \<Longrightarrow> name_step ps (ps\<lparr>header_state := h\<rparr>)"
  "h \<in> field_matchers \<Longrightarrow> name_step ps (inc_index ps\<lparr>header_state := h\<rparr>)"
proof -
  have "ps = ps\<lparr>hp_index := hp_index ps, header_state := header_state ps\<rparr>" by simp
  then show "header_state ps \<in> field_matchers \<Longrightarrow> name_step ps ps" unfolding name_step_def by blast
  have "ps\<lparr>header_state := h\<rparr> = ps\<lparr>hp_index := hp_index ps, header_state := h\<rparr>" by simp
  then show "h \<in> field_matchers \<Longrightarrow> name_step ps (ps\<lparr>header_state := h\<rparr>)" unfolding name_step_def by blast
  show "h \<in> field_matchers \<Longrightarrow> name_step ps (inc_index ps\<lparr>header_state := h\<rparr>)"
    unfolding name_step_def inc_index_def by auto
qed

lemma match_word_matcher:
  "h \<in> field_matchers \<Longrightarrow> d \<in> field_matchers \<Longrightarrow> match_word w h_general h d i c \<in> field_matchers"
  by (simp add: match_word_def field_matchers_simps)

lemma header_field_char_ok:
  assumes "header_state ps \<in> field_matchers"
  shows "\<exists>ps'. header_field_char ch c ps = Some ps' \<and> name_step ps ps'"
  using assms
  by (cases "header_state ps")
     (auto simp: header_field_char_def Let_def field_matchers_simps
           intro!: name_step_intros match_word_matcher)

lemma name_step_trans: "name_step a b \<Longrightarrow> name_step b c \<Longrightarrow> name_step a c"
  by (auto simp: name_step_def) blast

lemma name_step_matcher: "name_step ps ps' \<Longrightarrow> header_state ps' \<in> field_matchers"
  by (auto simp: name_step_def)

lemma header_field_loop_ok:
  "header_state ps \<in> field_matchers \<Longrightarrow>
   \<exists>p' ps'. header_field_loop s p ps = Some (p', ps') \<and> name_step ps ps' \<and> p \<le> p'"
proof (induction s arbitrary: p ps)
  case Nil
  then show ?case by (simp add: name_step_intros)
next
  case (Cons ch s)
  obtain ps1 where 1: "header_field_char ch (TOKEN ch) ps = Some ps1" "name_step ps ps1"
    using header_field_char_ok [OF Cons.prems] by blast
  obtain p2 ps2 where "header_field_loop s (p + 1) ps1 = Some (p2, ps2)" "name_step ps1 ps2" "p + 1 \<le> p2"
    using Cons.IH [OF name_step_matcher [OF 1(2)]] by blast
  then show ?case
    using 1 Cons.prems name_step_trans [OF 1(2), of ps2] by (auto simp: Let_def name_step_intros)
qed

lemma safe_header_field:
  assumes "ok_inv 1 x" "p_state x = s_header_field" "pos x < length data"
  shows "safe (exec_header_field st data x)"
proof -
  have mi: "mark_inv x" using assms(1) by (simp add: ok_inv_def)
  have m: "header_value_mark x = None" "url_mark x = None" "body_mark x = None" "status_mark x = None"
    using mark_inv_group(2) [OF mi assms(2)] by auto
  have mp: "\<And>m. header_field_mark x = Some m \<Longrightarrow> m \<le> pos x" using mi by (simp add: mark_inv_def)
  have e: "hp_errno (parser x) = HPE_OK" "content_length (parser x) \<le> ULLONG_MAX"
    "header_state (parser x) \<in> field_matchers"
    using assms by (simp_all add: ok_inv_def state_inv_def)
  obtain p i h where loop: "header_field_loop (drop (pos x) data) (pos x) (parser x) =
      Some (p, (parser x)\<lparr>hp_index := i, header_state := h\<rparr>)" "h \<in> field_matchers" "pos x \<le> p"
    using header_field_loop_ok [OF e(3)] unfolding name_step_def by blast
  have mp': "m \<le> p - 1" if "p = length data" "header_field_mark x = Some m" for m
    using mp [OF that(2)] assms(3) that(1) by simp
  have b: "safe (CALLBACK_DATA st data Header_Field Break (UPDATE_STATE s_header_value_discard_ws y))"
    if "hp_errno (parser y) = HPE_OK" "content_length (parser y) \<le> ULLONG_MAX"
      "header_value_mark y = None" "url_mark y = None" "body_mark y = None" "status_mark y = None" for y :: "'a exec"
    using that by (intro safe_data_break) (simp add: inv_defs)
  show ?thesis
    using loop(2) e(1,2) m mp' assms(2)
    by (auto simp: exec_header_field_def Let_def loop(1) inv_defs intro!: safe_count b)
qed

lemma DIGIT_le: "IS_NUM ch \<Longrightarrow> DIGIT ch \<le> 9"
  unfolding DIGIT_def IS_NUM_def by (simp add: code_def le_diff_conv)

lemma safe_header_value_start:
  assumes "hp_errno (parser x) = HPE_OK" "content_length (parser x) \<le> ULLONG_MAX"
    "header_field_mark x = None" "url_mark x = None" "body_mark x = None" "status_mark x = None"
    "header_value_mark x = None"
  shows "safe (exec_header_value_start ch x)"
proof -
  have "DIGIT ch \<le> ULLONG_MAX" if "IS_NUM ch"
    using DIGIT_le [OF that] by (simp add: ULLONG_MAX_def)
  then show ?thesis
    using assms
    by (cases "header_state (parser x)")
       (auto simp: exec_header_value_start_def Let_def inv_defs MARK_def)
qed

text \<open>The flags a finished header sets leave the rest of the parser alone.\<close>

lemma header_flag_simps [simp]:
  "hp_errno (header_flag ps) = hp_errno ps" "content_length (header_flag ps) = content_length ps"
  "header_state (header_flag ps) = header_state ps" "hp_nread (header_flag ps) = hp_nread ps"
  by (cases "header_state ps"; simp add: header_flag_def)+

lemma safe_header_ws:
  assumes "ok_inv 1 x" "group_of (p_state x) = G_Header_Ws"
  shows "safe (exec_header_ws st data ch x)"
proof -
  have mi: "mark_inv x" and e: "hp_errno (parser x) = HPE_OK" "content_length (parser x) \<le> ULLONG_MAX"
    using assms(1) by (simp_all add: ok_inv_def)
  have m: "header_field_mark x = None" "header_value_mark x = None" "url_mark x = None"
    "body_mark x = None" "status_mark x = None"
    using mi assms(2) by (auto simp: mark_inv_def url_states_def intro!: mark_None)
  show ?thesis
    using assms(2) e m
    by (cases "p_state x")
       (auto simp: exec_header_ws_def Let_def inv_defs MARK_def
             intro!: safe_strict safe_header_value_start safe_data_reexec)
qed

text \<open>The loop over a value keeps its matcher away from the two that are only heads of lists.\<close>

definition value_step :: "header_state \<Rightarrow> http_parser \<Rightarrow> bool" where
  "value_step h ps \<longleftrightarrow>
     h \<noteq> h_connection \<and> h \<noteq> h_transfer_encoding \<and> hp_errno ps = HPE_OK \<and> content_length ps \<le> ULLONG_MAX"

lemma connection_flag_simps [simp]:
  "hp_errno (connection_flag h ps) = hp_errno ps" "content_length (connection_flag h ps) = content_length ps"
  by (simp_all add: connection_flag_def)

lemma content_length_char_ok:
  assumes "content_length_char ch ps = Inr ps'" "content_length ps \<le> ULLONG_MAX"
  shows "hp_errno ps' = hp_errno ps" "content_length ps' \<le> ULLONG_MAX"
proof -
  have "a mod 2 ^ 64 \<le> ULLONG_MAX" for a :: nat
    by (simp add: ULLONG_MAX_def Suc_leI mod_less_divisor less_Suc_eq_le [symmetric])
  then show "content_length ps' \<le> ULLONG_MAX"
    using assms by (auto simp: content_length_char_def Let_def split: if_splits)
  show "hp_errno ps' = hp_errno ps"
    using assms by (auto simp: content_length_char_def Let_def split: if_splits)
qed

lemma content_length_char_error:
  "content_length_char ch ps = Inl e \<Longrightarrow> e \<noteq> HPE_OK \<and> e \<noteq> HPE_PAUSED"
  by (auto simp: content_length_char_def Let_def split: if_splits)

lemma header_value_char_ok:
  assumes "value_step h ps"
  shows "case header_value_char ch h ps of
           None \<Rightarrow> False
         | Some (Inl e) \<Rightarrow> e \<noteq> HPE_OK \<and> e \<noteq> HPE_PAUSED
         | Some (Inr (h', ps')) \<Rightarrow> value_step h' ps'"
proof -
  have word: "match_word w a b d i c \<noteq> h_connection \<and> match_word w a b d i c \<noteq> h_transfer_encoding"
    if "a \<noteq> h_connection" "b \<noteq> h_connection" "d \<noteq> h_connection"
      "a \<noteq> h_transfer_encoding" "b \<noteq> h_transfer_encoding" "d \<noteq> h_transfer_encoding" for w a b d i c
    using that by (simp add: match_word_def)
  show ?thesis
    using assms
    by (cases h)
       (auto simp: header_value_char_def Let_def value_step_def word split: sum.split
             dest: content_length_char_ok content_length_char_error)
qed

lemma safe_header_value_end:
  assumes "value_step h (parser x)" "p_state x = s_header_value \<or> p_state x = s_header_almost_done"
    "header_field_mark x = None" "url_mark x = None" "body_mark x = None" "status_mark x = None"
    "\<And>m. header_value_mark x = Some m \<Longrightarrow> m < pos x \<and> p_state x = s_header_value"
  shows "safe (header_value_end data start h x)"
  using assms
  by (auto simp: header_value_end_def value_step_def inv_defs intro!: safe_count)
     (fastforce dest!: assms(7))+

lemma safe_header_value_loop:
  assumes "value_step h (parser x)" "p_state x = s_header_value"
    "header_field_mark x = None" "url_mark x = None" "body_mark x = None" "status_mark x = None"
    "\<And>m. header_value_mark x = Some m \<Longrightarrow> m \<le> pos x" "start < pos x \<or> pos x < length data"
    "\<And>m. header_value_mark x = Some m \<Longrightarrow> m \<le> start" "start \<le> pos x"
  shows "safe (header_value_loop st data start h x)"
  using assms
proof (induction st data start h x rule: header_value_loop.induct)
  case (1 st data start h x)
  note IH = "1.IH" and prems = "1.prems"
  show ?case
  proof (cases "pos x < length data")
    case False
    have "m < pos x \<and> p_state x = s_header_value" if "header_value_mark x = Some m" for m
      using prems(2,8,10) prems(9) [OF that] False by auto
    with prems False show ?thesis
      by (subst header_value_loop.simps) (simp add: safe_header_value_end)
  next
    case True
    let ?ch = "data ! pos x"
    have e: "hp_errno (parser x) = HPE_OK" "content_length (parser x) \<le> ULLONG_MAX"
      using prems(1) by (simp_all add: value_step_def)
    have cr: "safe (CALLBACK_DATA st data Header_Value (header_value_end data start h)
        (upd (\<lambda>ps. ps\<lparr>header_state := h\<rparr>) (UPDATE_STATE s_header_almost_done x)))"
      by (rule safe_data)
         (use prems(1-6) in \<open>auto simp: cb_rel_def value_step_def state_inv_def chunk_states_def
            intro!: safe_header_value_end\<close>)
    have lf: "safe (COUNT_HEADER_SIZE (pos x - start)
        (\<lambda>x. CALLBACK_DATA_NOADVANCE st data Header_Value Reexec (upd (\<lambda>ps. ps\<lparr>header_state := h\<rparr>) x))
        (UPDATE_STATE s_header_almost_done x))"
      by (intro safe_count safe_data_reexec) (use e prems(3-6) in \<open>simp_all add: inv_defs\<close>)
    have skip: "pos x \<le> skip_general data (pos x)" if "?ch \<noteq> CR" "?ch \<noteq> LF"
      using skip_general_ge(1) [OF True that] .
    have general: "safe (header_value_loop st data start h (x\<lparr>pos := skip_general data (pos x) + 1\<rparr>))"
      if "?ch \<noteq> CR" "?ch \<noteq> LF" "\<not> (\<not> lenient_http_headers (parser x) \<and> \<not> IS_HEADER_CHAR ?ch)" "h = h_general"
    proof (rule IH(1))
      show "value_step h (parser (x\<lparr>pos := skip_general data (pos x) + 1\<rparr>))" using prems(1) by simp
      show "start < pos (x\<lparr>pos := skip_general data (pos x) + 1\<rparr>) \<or>
          pos (x\<lparr>pos := skip_general data (pos x) + 1\<rparr>) < length data"
        using skip [OF that(1,2)] prems(10) by simp
      show "start \<le> pos (x\<lparr>pos := skip_general data (pos x) + 1\<rparr>)"
        using skip [OF that(1,2)] prems(10) by simp
      show "m \<le> pos (x\<lparr>pos := skip_general data (pos x) + 1\<rparr>)"
        if "header_value_mark (x\<lparr>pos := skip_general data (pos x) + 1\<rparr>) = Some m" for m
        using that prems(9) [of m] skip [OF \<open>?ch \<noteq> CR\<close> \<open>?ch \<noteq> LF\<close>] prems(10) by simp
    qed (use True that prems in simp_all)
    have step: "safe (header_value_loop st data start h' (x\<lparr>parser := ps', pos := pos x + 1\<rparr>))"
      if c: "?ch \<noteq> CR" "?ch \<noteq> LF" "\<not> (\<not> lenient_http_headers (parser x) \<and> \<not> IS_HEADER_CHAR ?ch)" "h \<noteq> h_general"
        and v: "header_value_char ?ch h (parser x) = Some (Inr (h', ps'))" for h' ps'
    proof (rule IH(2))
      show "value_step h' (parser (x\<lparr>parser := ps', pos := pos x + 1\<rparr>))"
        using header_value_char_ok [OF prems(1), of ?ch] v by simp
    qed (use True c v prems in \<open>auto simp: le_SucI\<close>)
    show ?thesis
      using True cr lf general step header_value_char_ok [OF prems(1), of ?ch]
      by (subst header_value_loop.simps) (auto simp: Let_def split: option.splits sum.splits)
  qed
qed

lemma safe_header_value:
  assumes "ok_inv 1 x" "p_state x = s_header_value" "pos x < length data"
  shows "safe (exec_header_value st data x)"
proof -
  have mi: "mark_inv x" using assms(1) by (simp add: ok_inv_def)
  then show ?thesis
    unfolding exec_header_value_def
    using assms mark_inv_group(3) [OF mi assms(2)]
    by (intro safe_header_value_loop) (auto simp: value_step_def ok_inv_def state_inv_def mark_inv_def)
qed

text \<open>The states in which no mark may be set.\<close>

definition no_marks :: "'u exec \<Rightarrow> bool" where
  "no_marks x \<longleftrightarrow>
     header_field_mark x = None \<and> header_value_mark x = None \<and> url_mark x = None \<and>
     body_mark x = None \<and> status_mark x = None"

lemma no_marks_group:
  assumes "mark_inv x"
    and "p_state x \<notin> url_states" "p_state x \<notin> {s_header_field, s_header_value, s_res_status}"
    and "p_state x \<notin> {s_body_identity, s_body_identity_eof, s_chunk_data, s_chunk_data_almost_done}"
  shows "no_marks x"
  using assms by (auto simp: no_marks_def mark_inv_def intro!: mark_None)

lemma no_marks_simps [simp]:
  "no_marks (upd f x) = no_marks x" "no_marks (UPDATE_STATE s x) = no_marks x"
  "no_marks (SET_ERRNO e x) = no_marks x" "no_marks (x\<lparr>user := u\<rparr>) = no_marks x"
  "no_marks (x\<lparr>parser := ps\<rparr>) = no_marks x"
  by (simp_all add: no_marks_def upd_def UPDATE_STATE_def SET_ERRNO_def)

lemma ok_inv_no_marks:
  "no_marks x \<Longrightarrow> ok_inv n x \<longleftrightarrow>
     hp_errno (parser x) = HPE_OK \<and> state_inv n (p_state x) (parser x) \<and> content_length (parser x) \<le> ULLONG_MAX"
  by (auto simp: ok_inv_def mark_inv_def no_marks_def)

lemma set_upgrade_simps [simp]:
  "hp_errno (set_upgrade ps) = hp_errno ps" "content_length (set_upgrade ps) = content_length ps"
  "header_state (set_upgrade ps) = header_state ps" "hp_nread (set_upgrade ps) = hp_nread ps"
  "flag_set f (set_upgrade ps) = flag_set f ps"
  by (simp_all add: set_upgrade_def)

lemma state_inv_free:
  "s \<in> {s_headers_done, s_message_done, s_start_req, s_start_res, s_dead, s_body_identity_eof} \<Longrightarrow> state_inv n s ps"
  by (auto simp: state_inv_def chunk_states_def)

lemma safe_headers_complete_result:
  assumes "no_marks x" "p_state x = s_headers_done" "content_length (parser x) \<le> ULLONG_MAX"
    "hp_errno (parser x) = HPE_OK \<or> hp_errno (parser x) = HPE_PAUSED"
  shows "safe (headers_complete_result ret x)"
  using assms
  by (auto simp: headers_complete_result_def Let_def ok_inv_no_marks state_inv_free RETURN_def parser_ok_def)

lemma safe_headers_almost_done:
  assumes "ok_inv 1 x" "p_state x = s_headers_almost_done"
  shows "safe (exec_headers_almost_done st ch x)"
proof -
  have n: "no_marks x" by (rule no_marks_group) (use assms in \<open>simp_all add: ok_inv_def url_states_def\<close>)
  have e: "hp_errno (parser x) = HPE_OK" "content_length (parser x) \<le> ULLONG_MAX"
    using assms(1) by (simp_all add: ok_inv_def)
  have r: "safe (CALLBACK_NOTIFY (on_chunk_complete st) HPE_CB_chunk_complete (pos x) Reexec
      (UPDATE_STATE s_message_done x))"
    by (rule safe_notify) (use n e in \<open>auto simp: ok_inv_cb_rel ok_inv_no_marks state_inv_free\<close>)
  show ?thesis
    using n e r
    by (auto simp: exec_headers_almost_done_def Let_def cb_pause_ok
             split: option.split prod.split intro!: safe_headers_complete_result)
qed

lemma NEW_MESSAGE_state: "NEW_MESSAGE ps \<in> {s_start_req, s_start_res, s_dead}"
  by (simp add: NEW_MESSAGE_def start_state_def)

lemma safe_message_complete:
  assumes "\<And>y. cb_rel (UPDATE_STATE (NEW_MESSAGE (parser x)) x) y \<Longrightarrow> ok_inv 0 y \<Longrightarrow> safe (k y)"
    and "no_marks x" "hp_errno (parser x) = HPE_OK" "content_length (parser x) \<le> ULLONG_MAX"
  shows "safe (message_complete st k x)"
  unfolding message_complete_def
proof (rule safe_notify)
  let ?x = "UPDATE_STATE (NEW_MESSAGE (parser x)) x"
  have ok: "ok_inv 0 ?x"
    using assms(2-4) NEW_MESSAGE_state [of "parser x"] by (auto simp: ok_inv_no_marks state_inv_free)
  show "safe (k y)" if "cb_rel ?x y" for y
    using assms(1) [OF that] ok that by (simp add: ok_inv_cb_rel)
  show "state_inv 0 (p_state ?x) (parser ?x)" using ok by (simp add: ok_inv_def)
qed (use assms(3,4) in simp_all)

lemma safe_RETURN: "ok_inv 0 x \<Longrightarrow> safe (RETURN n x)"
  by (simp add: RETURN_def parser_ok_def ok_inv_def)

lemma safe_headers_done:
  assumes "ok_inv 1 x" "p_state x = s_headers_done"
  shows "safe (exec_headers_done st ch x)"
proof -
  have n: "no_marks x" by (rule no_marks_group) (use assms in \<open>simp_all add: ok_inv_def url_states_def\<close>)
  have e: "hp_errno (parser x) = HPE_OK" "content_length (parser x) \<le> ULLONG_MAX"
    using assms(1) by (simp_all add: ok_inv_def)
  show ?thesis
    using n e
    by (auto simp: exec_headers_done_def Let_def ok_inv_no_marks state_inv_free
             intro!: safe_message_complete safe_RETURN)
       (auto simp: state_inv_def chunk_states_def)
qed

lemma UNHEX_le: "nat (UNHEX ch) \<le> 15"
proof -
  have "\<forall>v \<in> set unhex. v \<le> 15" by (simp add: unhex_def)
  then have "nat (unhex ! i) \<le> 15" if "i < length unhex" for i using that nth_mem by fastforce
  then show ?thesis by (simp add: UNHEX_def table_at_def)
qed

lemma chunk_digit_ok:
  assumes "chunk_digit ch ps = Inr ps'"
  shows "\<exists>t. ps' = ps\<lparr>content_length := t\<rparr> \<and> t < ULLONG_MAX"
proof -
  define t where "t = (content_length ps * 16 mod 2 ^ 64 + nat (UNHEX ch)) mod 2 ^ 64"
  have c: "content_length ps \<le> (ULLONG_MAX - 16) div 16" and ps': "ps' = ps\<lparr>content_length := t\<rparr>"
    using assms by (auto simp: chunk_digit_def Let_def t_def split: if_splits)
  have "(ULLONG_MAX - 16) div 16 * 16 + 15 < ULLONG_MAX" by (simp add: ULLONG_MAX_def)
  moreover have "t \<le> content_length ps * 16 mod 2 ^ 64 + nat (UNHEX ch)"
    unfolding t_def by (rule mod_less_eq_dividend)
  moreover have "content_length ps * 16 mod 2 ^ 64 \<le> content_length ps * 16" by (rule mod_less_eq_dividend)
  moreover have "content_length ps * 16 \<le> (ULLONG_MAX - 16) div 16 * 16" using c by (rule mult_le_mono1)
  ultimately have "t < ULLONG_MAX" using UNHEX_le [of ch] by linarith
  with ps' show ?thesis by blast
qed

lemma chunk_digit_error: "chunk_digit ch ps = Inl e \<Longrightarrow> e = HPE_INVALID_CONTENT_LENGTH"
  by (auto simp: chunk_digit_def Let_def split: if_splits)

text \<open>The states with a body: no other mark.\<close>

definition body_only :: "'u exec \<Rightarrow> bool" where
  "body_only x \<longleftrightarrow>
     header_field_mark x = None \<and> header_value_mark x = None \<and> url_mark x = None \<and> status_mark x = None
     \<and> (\<forall>m. body_mark x = Some m \<longrightarrow> m \<le> pos x)"

lemma body_only_group:
  "mark_inv x \<Longrightarrow> p_state x \<in> {s_body_identity, s_body_identity_eof, s_chunk_data, s_chunk_data_almost_done} \<Longrightarrow>
   body_only x"
  by (auto simp: body_only_def mark_inv_def url_states_def intro!: mark_None)

lemma read_body_ok:
  assumes "body_only x" "pos x < length data" "content_length (parser x) \<noteq> 0"
  shows "body_only (read_body data x)" "hp_errno (parser (read_body data x)) = hp_errno (parser x)"
    "p_state (read_body data x) = p_state x" "flag_set f (parser (read_body data x)) = flag_set f (parser x)"
    "content_length (parser (read_body data x)) \<le> content_length (parser x)"
  using assms by (auto simp: read_body_def Let_def body_only_def MARK_def)

lemma ok_inv_body:
  "body_only x \<Longrightarrow> p_state x \<in> {s_body_identity, s_body_identity_eof, s_chunk_data, s_chunk_data_almost_done} \<Longrightarrow>
   ok_inv n x \<longleftrightarrow>
     hp_errno (parser x) = HPE_OK \<and> state_inv n (p_state x) (parser x) \<and> content_length (parser x) \<le> ULLONG_MAX"
  by (auto simp: ok_inv_def mark_inv_def body_only_def)

lemma no_marks_body: "body_only x \<Longrightarrow> no_marks (set_mark Body None x)"
  by (simp add: body_only_def no_marks_def)

lemma body_only_UPDATE [simp]: "body_only (UPDATE_STATE s x) = body_only x"
  by (simp add: body_only_def)

lemma safe_body_identity:
  assumes "ok_inv 1 x" "p_state x = s_body_identity" "pos x < length data"
  shows "safe (exec_body st data x)"
proof -
  have b: "body_only x" using assms body_only_group by (auto simp: ok_inv_def)
  have e: "hp_errno (parser x) = HPE_OK" "content_length (parser x) \<noteq> 0" "content_length (parser x) < ULLONG_MAX"
    using assms(1,2) by (simp_all add: ok_inv_def state_inv_def)
  note r = read_body_ok [OF b assms(3) e(2)]
  have "no_marks (set_mark Body None (UPDATE_STATE s_message_done (read_body data x)))"
    by (rule no_marks_body) (use r in simp)
  then have "safe (CALLBACK_DATA_TO st data Body n m Reexec (UPDATE_STATE s_message_done (read_body data x)))" for n m
    using r e by (intro safe_data_to_reexec) (simp_all add: ok_inv_no_marks state_inv_free)
  then show ?thesis
    using assms(2) e r by (auto simp: exec_body_def Let_def ok_inv_body state_inv_def chunk_states_def intro!: safe_assert)
qed

lemma safe_body:
  assumes "ok_inv 1 x" "group_of (p_state x) = G_Body" "pos x < length data"
  shows "safe (exec_body st data x)"
proof -
  have e: "hp_errno (parser x) = HPE_OK" "content_length (parser x) \<le> ULLONG_MAX" "mark_inv x"
    using assms(1) by (simp_all add: ok_inv_def)
  consider "p_state x = s_body_identity" | "p_state x = s_body_identity_eof" | "p_state x = s_message_done"
    using assms(2) by (cases "p_state x") simp_all
  then show ?thesis
  proof cases
    case 1
    with assms show ?thesis by (simp add: safe_body_identity)
  next
    case 2
    then have b: "body_only ((MARK Body x)\<lparr>pos := length data - 1\<rparr>)"
      using body_only_group [OF e(3)] assms(3) by (auto simp: body_only_def MARK_def)
    have "ok_inv 0 ((MARK Body x)\<lparr>pos := length data - 1\<rparr>)"
      using 2 e by (subst ok_inv_body [OF b]) (simp_all add: state_inv_free)
    with 2 show ?thesis by (simp add: exec_body_def)
  next
    case 3
    then have "no_marks x" by (intro no_marks_group) (use e in \<open>simp_all add: url_states_def\<close>)
    with 3 e show ?thesis
      by (auto simp: exec_body_def intro!: safe_message_complete safe_RETURN)
  qed
qed

lemma safe_chunk_header:
  assumes "ok_inv 1 x" "p_state x \<in> {s_chunk_size_start, s_chunk_size, s_chunk_parameters, s_chunk_size_almost_done}"
  shows "safe (exec_chunk st data ch x)"
proof -
  have e: "hp_errno (parser x) = HPE_OK" "content_length (parser x) \<le> ULLONG_MAX" "mark_inv x"
    "flag_set F_CHUNKED (parser x)"
    using assms by (auto simp: ok_inv_def state_inv_def chunk_states_def)
  have n: "no_marks x" using assms(2) e(3) by (intro no_marks_group) (auto simp: url_states_def)
  have u: "nat (UNHEX ch) < ULLONG_MAX" using UNHEX_le [of ch] by (auto simp: ULLONG_MAX_def)
  from assms(2) consider "p_state x = s_chunk_size_start" | "p_state x = s_chunk_size"
    | "p_state x = s_chunk_parameters" | "p_state x = s_chunk_size_almost_done" by auto
  then show ?thesis
  proof cases
    case 1
    with assms(1) e n u show ?thesis
      by (auto simp: exec_chunk_def ok_inv_no_marks state_inv_def chunk_states_def intro!: safe_assert)
  next
    case 2
    with assms(1) e n show ?thesis
      by (auto simp: exec_chunk_def ok_inv_no_marks state_inv_def chunk_states_def split: sum.split
               dest!: chunk_digit_ok chunk_digit_error intro!: safe_assert)
  next
    case 3
    with assms(1) e n show ?thesis
      by (auto simp: exec_chunk_def ok_inv_no_marks state_inv_def chunk_states_def intro!: safe_assert)
  next
    case 4
    with assms(1) e n show ?thesis
      by (auto simp: exec_chunk_def Let_def ok_inv_no_marks state_inv_def chunk_states_def
               intro!: safe_assert safe_strict safe_notify_break)
  qed
qed

lemma safe_chunk_data:
  assumes "ok_inv 1 x" "p_state x = s_chunk_data" "pos x < length data"
  shows "safe (exec_chunk st data ch x)"
proof -
  have b: "body_only x" using assms body_only_group by (auto simp: ok_inv_def)
  have e: "hp_errno (parser x) = HPE_OK" "content_length (parser x) \<noteq> 0" "content_length (parser x) < ULLONG_MAX"
    "flag_set F_CHUNKED (parser x)"
    using assms(1,2) by (simp_all add: ok_inv_def state_inv_def chunk_states_def)
  show ?thesis
    using assms(2) e read_body_ok [OF b assms(3) e(2)]
    by (auto simp: exec_chunk_def Let_def ok_inv_body state_inv_def chunk_states_def intro!: safe_assert)
qed

lemma safe_chunk:
  assumes "ok_inv 1 x" "group_of (p_state x) = G_Chunk" "pos x < length data"
  shows "safe (exec_chunk st data ch x)"
proof -
  have e: "hp_errno (parser x) = HPE_OK" "content_length (parser x) \<le> ULLONG_MAX" "mark_inv x"
    using assms(1) by (simp_all add: ok_inv_def)
  consider "p_state x \<in> {s_chunk_size_start, s_chunk_size, s_chunk_parameters, s_chunk_size_almost_done}"
    | "p_state x = s_chunk_data" | "p_state x = s_chunk_data_almost_done" | "p_state x = s_chunk_data_done"
    using assms(2) by (cases "p_state x") simp_all
  then show ?thesis
  proof cases
    case 3
    have "no_marks (set_mark Body None (UPDATE_STATE s_chunk_data_done x))"
      by (rule no_marks_body) (use 3 body_only_group [OF e(3)] in simp)
    with 3 assms(1) e show ?thesis
      by (auto simp: exec_chunk_def ok_inv_no_marks ok_inv_def [of "Suc 0"] state_inv_def chunk_states_def
               intro!: safe_assert safe_strict safe_data_break)
  next
    case 4
    have "no_marks x" using 4 e(3) by (intro no_marks_group) (auto simp: url_states_def)
    with 4 assms(1) e show ?thesis
      by (auto simp: exec_chunk_def ok_inv_no_marks state_inv_def chunk_states_def
               intro!: safe_assert safe_strict safe_notify_break)
  qed (use assms safe_chunk_header safe_chunk_data in auto)
qed

text \<open>The whole \<open>switch\<close>.\<close>

lemma safe_exec_state:
  assumes "ok_inv 1 x" "pos x < length data"
  shows "safe (exec_state st data x)"
proof -
  have "p_state x = s_headers_almost_done" if "group_of (p_state x) = G_Headers_Almost"
    using that by (cases "p_state x") simp_all
  moreover have "p_state x = s_headers_done" if "group_of (p_state x) = G_Headers_Done"
    using that by (cases "p_state x") simp_all
  moreover have "p_state x = s_header_value" if "group_of (p_state x) = G_Value"
    using that by (cases "p_state x") simp_all
  moreover have "p_state x = s_header_field" if "group_of (p_state x) = G_Field"
    using that by (cases "p_state x") simp_all
  ultimately show ?thesis
    using assms
    by (cases "group_of (p_state x)")
       (simp_all del: One_nat_def add: exec_state_def Let_def safe_start safe_res_line safe_req_method
          safe_req_url safe_req_version safe_header_field_start safe_header_field
          safe_header_ws safe_header_value safe_headers_almost_done safe_headers_done
          safe_body safe_chunk)
qed

section \<open>The loops\<close>

lemma safe_run_state:
  assumes "ok_inv 1 x" "pos x < length data"
  shows "safe (run_state st data x)"
  using assms
proof (induction st data x rule: run_state.induct)
  case (1 st data x)
  have "safe (exec_state st data x)" using "1.prems" by (rule safe_exec_state)
  moreover have "pos y < length data" if "exec_state st data x = Reexec y" for y
    using control_exec_state [OF "1.prems"(2), of st] that by simp
  ultimately show ?case
    using "1.IH" "1.prems"(2) by (subst run_state.simps) (auto split: outcome.split)
qed

lemma safe_exec_char:
  assumes "ok_inv 0 x" "pos x < length data"
  shows "safe (exec_char st data x)"
proof (cases "PARSING_HEADER (p_state x)")
  case True
  let ?x = "upd (\<lambda>ps. ps\<lparr>hp_nread := (hp_nread ps + 1) mod 2 ^ 32\<rparr>) x"
  have "ok_inv 1 ?x" using assms(1) by (auto simp: ok_inv_def state_inv_def mark_inv_def)
  then have "safe (run_state st data ?x)" by (rule safe_run_state) (use assms(2) in simp)
  with True show ?thesis by (simp add: exec_char_def safe_count)
next
  case False
  then have "p_state x \<noteq> s_chunk_size_start" by (auto simp: PARSING_HEADER_def less_eq_http_state_def)
  with assms(1) have "ok_inv 1 x" using ok_inv_01 by blast
  then show ?thesis using False assms(2) by (simp add: exec_char_def safe_run_state)
qed

lemma marks_at_most_one: "mark_inv x \<Longrightarrow> marks_set x \<le> 1"
  by (auto simp: marks_set_def mark_inv_def url_states_def)

lemma ok_inv_clear: "ok_inv n x \<Longrightarrow> ok_inv n (set_mark f None x)"
  by (cases f) (auto simp: ok_inv_def mark_inv_def)

lemma safe_leftover:
  assumes "ok_inv 0 x" "\<And>y. ok_inv 0 y \<Longrightarrow> safe (k y)"
  shows "safe (CALLBACK_DATA_NOADVANCE st data f k x)"
proof (rule safe_data)
  show "safe (k (set_mark f None y))" if "cb_rel x y" for y
    using assms ok_inv_cb_rel [OF that, of 0] by (simp add: ok_inv_clear)
qed (use assms(1) in \<open>simp_all add: ok_inv_parser\<close>)

lemma safe_finish_chunk: "ok_inv 0 x \<Longrightarrow> safe (finish_chunk st data x)"
  unfolding finish_chunk_def
  by (intro safe_assert safe_leftover safe_RETURN marks_at_most_one) (auto simp: ok_inv_def)

lemma safe_exec_loop:
  assumes "ok_inv 0 x" "pos x \<le> length data"
  shows "safe (exec_loop st data x)"
  using assms
proof (induction st data x rule: exec_loop.induct)
  case (1 st data x)
  show ?case
  proof (cases "pos x < length data")
    case True
    have s: "safe (exec_char st data x)" using "1.prems"(1) True by (rule safe_exec_char)
    have "safe (exec_loop st data (y\<lparr>pos := pos y + 1\<rparr>))" if y: "exec_char st data x = Break y" for y
    proof (rule "1.IH" [OF True y])
      show "ok_inv 0 (y\<lparr>pos := pos y + 1\<rparr>)" using s y by (auto simp: ok_inv_def mark_inv_def)
      show "pos (y\<lparr>pos := pos y + 1\<rparr>) \<le> length data" using exec_char_Break [OF y True] by simp
    qed
    with True s exec_char_not_Reexec [OF True, of st] show ?thesis
      by (subst exec_loop.simps) (auto split: outcome.split)
  next
    case False
    with "1.prems" show ?thesis by (subst exec_loop.simps) (simp add: safe_finish_chunk)
  qed
qed

section \<open>A run\<close>

lemma exec_entry_inv:
  assumes "parser_ok ps" "hp_errno ps = HPE_OK"
  shows "ok_inv 0 (exec_entry ps u)"
  using assms by (auto simp: parser_ok_def ok_inv_def mark_inv_def exec_entry_def Let_def)

lemma exec_exit_ok:
  assumes "control_ok data x0 out" "pos x0 = length data" "safe out"
  shows "\<exists>n ps u. exec_exit out = Inr (n, ps, u) \<and> parser_ok ps"
  using assms by (auto simp: control_ok_def safe_def exec_exit_def Let_def parser_ok_def split: outcome.splits)

lemma execute_keeps_ok:
  assumes "parser_ok ps"
  shows "\<exists>n ps' u'. http_parser_execute st ps u data = Inr (n, ps', u') \<and> parser_ok ps'"
proof (cases "hp_errno ps = HPE_OK")
  case True
  note inv = exec_entry_inv [OF assms True, of u]
  show ?thesis
  proof (cases "data = []")
    case True
    let ?out = "CALLBACK_NOTIFY (on_message_complete st) HPE_CB_message_complete 0 (Return 0) (exec_entry ps u)"
    have "control_ok [] (exec_entry ps u) ?out"
      by (rule control_notify) (auto simp: control_ok_def)
    moreover have "safe ?out"
    proof (rule safe_notify)
      show "safe (Return 0 y)" if "cb_rel (exec_entry ps u) y" for y
        using inv ok_inv_cb_rel [OF that, of 0] assms that
        by (auto simp: cb_rel_def parser_ok_def ok_inv_def)
    qed (use inv in \<open>auto simp: ok_inv_def\<close>)
    ultimately have "\<exists>n ps' u'. exec_exit ?out = Inr (n, ps', u') \<and> parser_ok ps'"
      by (intro exec_exit_ok) auto
    moreover have "parser_ok (ps\<lparr>hp_errno := HPE_INVALID_EOF_STATE\<rparr>)" by (simp add: parser_ok_def)
    ultimately show ?thesis
      using True \<open>hp_errno ps = HPE_OK\<close> assms by (auto simp: http_parser_execute_def execute_eof_def)
  next
    case False
    have "control_ok data ((exec_entry ps u)\<lparr>pos := length data\<rparr>) (exec_loop st data (exec_entry ps u))"
      by (rule control_exec_loop) simp_all
    moreover have "safe (exec_loop st data (exec_entry ps u))" using inv by (rule safe_exec_loop) simp
    ultimately show ?thesis
      using False \<open>hp_errno ps = HPE_OK\<close> exec_exit_ok
      by (fastforce simp: http_parser_execute_def)
  qed
qed (use assms in \<open>simp add: http_parser_execute_def\<close>)

text \<open>
  The life of a parser: set up once, then given pieces of text of any length and paused or
  resumed between them.
\<close>

inductive parser_reachable :: "'u http_parser_settings \<Rightarrow> http_parser \<Rightarrow> bool" for st where
  init: "parser_reachable st (http_parser_init t)"
| execute: "parser_reachable st ps \<Longrightarrow> http_parser_execute st ps u data = Inr (n, ps', u') \<Longrightarrow>
    parser_reachable st ps'"
| pause: "parser_reachable st ps \<Longrightarrow> http_parser_pause b ps = Inr ps' \<Longrightarrow> parser_reachable st ps'"

lemma reachable_ok: "parser_reachable st ps \<Longrightarrow> parser_ok ps"
proof (induction rule: parser_reachable.induct)
  case (init t)
  show ?case by (auto simp: http_parser_init_def parser_ok_def state_inv_def chunk_states_def)
next
  case (execute ps u data n ps' u')
  then show ?case using execute_keeps_ok [OF execute.IH, of st u data] by auto
next
  case (pause ps b ps')
  then show ?case by (auto simp: http_parser_pause_def parser_ok_def split: if_splits)
qed

text \<open>
  C5: No text, however it is cut into pieces, and no answer of the callbacks, which may pause
  the parser, makes \<open>http_parser_execute\<close> fail one of its assertions (that no error is recorded
  when a callback is due, those of the states, the one of \<open>http_parser_pause\<close> in a callback)
  or reach its unhandled state: each call returns, and leaves a parser that keeps what its
  state promises, with a body length below the value that stands for its absence. Between two
  calls \<open>http_parser_pause\<close> does not fail its own one either, unless an error is recorded.
\<close>
theorem parser_never_asserts:
  assumes "parser_reachable st ps"
  shows "(\<exists>n ps' u'. http_parser_execute st ps u data = Inr (n, ps', u') \<and> parser_ok ps'
           \<and> parser_reachable st ps') \<and>
    (hp_errno ps \<in> {HPE_OK, HPE_PAUSED} \<longrightarrow>
       (\<exists>ps'. http_parser_pause b ps = Inr ps' \<and> parser_reachable st ps'))"
proof (intro conjI impI)
  show "\<exists>n ps' u'. http_parser_execute st ps u data = Inr (n, ps', u') \<and> parser_ok ps'
      \<and> parser_reachable st ps'"
    using execute_keeps_ok [OF reachable_ok [OF assms], of st u data]
      parser_reachable.execute [OF assms, of u data] by blast
next
  assume "hp_errno ps \<in> {HPE_OK, HPE_PAUSED}"
  then show "\<exists>ps'. http_parser_pause b ps = Inr ps' \<and> parser_reachable st ps'"
    using parser_reachable.pause [OF assms, of b] by (auto simp: http_parser_pause_def)
qed

lemma parser_never_asserts_witness:
  "\<exists>n ps u. http_parser_execute (http_parser_settings_init :: unit http_parser_settings)
            (http_parser_init HTTP_REQUEST) () ''GET /'' = Inr (n, ps, u) \<and> parser_ok ps
          \<and> parser_reachable (http_parser_settings_init :: unit http_parser_settings) ps"
  by (rule conjunct1 [OF parser_never_asserts [OF parser_reachable.init]])

end
