(* ===== verification/Http_Request.thy ===== *)
theory Http_Request
  imports Http_Safe
begin

text \<open>
  What the parser makes of a well-formed request without a body. \<open>request_text\<close> writes a
  request line and header lines; \<open>listener\<close> are settings with callbacks for names, values and
  the end of the message. The theorem says which calls a run makes, and that it takes the
  whole text.
\<close>

section \<open>Requests\<close>

type_synonym header_line = "string \<times> string"

definition CRLF :: string where "CRLF = [CR, LF]"

definition header_text :: "header_line \<Rightarrow> string" where
  "header_text h = fst h @ '': '' @ snd h @ CRLF"

definition request_text :: "string \<Rightarrow> header_line list \<Rightarrow> string" where
  "request_text url hs = ''GET '' @ url @ '' HTTP/1.1'' @ CRLF @ concat (map header_text hs) @ CRLF"

text \<open>A path, a header name, and a value that does not start with white space.\<close>

definition url_ok :: "string \<Rightarrow> bool" where
  "url_ok url \<longleftrightarrow> (\<exists>r. url = CHR ''/'' # r \<and> (\<forall>c \<in> set r. IS_URL_CHAR c))"

definition name_ok :: "string \<Rightarrow> bool" where
  "name_ok f \<longleftrightarrow> f \<noteq> [] \<and> (\<forall>c \<in> set f. TOKEN c \<noteq> 0)
     \<and> map TOKEN f \<noteq> map code CONTENT_LENGTH \<and> map TOKEN f \<noteq> map code TRANSFER_ENCODING"

definition value_ok :: "string \<Rightarrow> bool" where
  "value_ok v \<longleftrightarrow> v \<noteq> [] \<and> hd v \<noteq> SP \<and> hd v \<noteq> TAB
     \<and> (\<forall>c \<in> set v. IS_HEADER_CHAR c \<and> c \<noteq> CR \<and> c \<noteq> LF)"

definition header_ok :: "header_line \<Rightarrow> bool" where
  "header_ok h \<longleftrightarrow> name_ok (fst h) \<and> value_ok (snd h)"

section \<open>Listeners\<close>

definition listener ::
  "(string \<Rightarrow> 'u \<Rightarrow> 'u) \<Rightarrow> (string \<Rightarrow> 'u \<Rightarrow> 'u) \<Rightarrow> ('u \<Rightarrow> 'u) \<Rightarrow> 'u http_parser_settings" where
  "listener ff fv fm = http_parser_settings_init
     \<lparr>on_header_field := Some (\<lambda>ps at n u. (0, False, ff (take n at) u)),
      on_header_value := Some (\<lambda>ps at n u. (0, False, fv (take n at) u)),
      on_message_complete := Some (\<lambda>ps u. (0, False, fm u))\<rparr>"

lemma listener_simps [simp]:
  "on_message_begin (listener ff fv fm) = None" "on_url (listener ff fv fm) = None"
  "on_status (listener ff fv fm) = None" "on_headers_complete (listener ff fv fm) = None"
  "on_body (listener ff fv fm) = None" "on_chunk_header (listener ff fv fm) = None"
  "on_chunk_complete (listener ff fv fm) = None"
  "on_header_field (listener ff fv fm) = Some (\<lambda>ps at n u. (0, False, ff (take n at) u))"
  "on_header_value (listener ff fv fm) = Some (\<lambda>ps at n u. (0, False, fv (take n at) u))"
  "on_message_complete (listener ff fv fm) = Some (\<lambda>ps u. (0, False, fm u))"
  by (simp_all add: listener_def http_parser_settings_init_def)

section \<open>The locals between two characters\<close>

definition at_pos :: "http_state \<Rightarrow> nat \<Rightarrow> http_parser \<Rightarrow> 'u \<Rightarrow> 'u exec" where
  "at_pos s p ps u =
     \<lparr>parser = ps, user = u, pos = p, p_state = s, header_field_mark = None,
      header_value_mark = None, url_mark = None, body_mark = None, status_mark = None\<rparr>"

lemma at_pos_simps [simp]:
  "parser (at_pos s p ps u) = ps" "user (at_pos s p ps u) = u" "pos (at_pos s p ps u) = p"
  "p_state (at_pos s p ps u) = s" "header_field_mark (at_pos s p ps u) = None"
  "header_value_mark (at_pos s p ps u) = None" "url_mark (at_pos s p ps u) = None"
  "body_mark (at_pos s p ps u) = None" "status_mark (at_pos s p ps u) = None"
  "(at_pos s p ps u)\<lparr>parser := ps'\<rparr> = at_pos s p ps' u" "(at_pos s p ps u)\<lparr>user := u'\<rparr> = at_pos s p ps u'"
  "(at_pos s p ps u)\<lparr>pos := p'\<rparr> = at_pos s p' ps u" "(at_pos s p ps u)\<lparr>p_state := s'\<rparr> = at_pos s' p ps u"
  "UPDATE_STATE s' (at_pos s p ps u) = at_pos s' p ps u" "upd f (at_pos s p ps u) = at_pos s p (f ps) u"
  by (simp_all add: at_pos_def UPDATE_STATE_def upd_def)

text \<open>A parser that has seen nothing that announces a body, with \<open>n\<close> header bytes counted.\<close>

definition bodyless :: "nat \<Rightarrow> http_parser \<Rightarrow> bool" where
  "bodyless n ps \<longleftrightarrow>
     hp_errno ps = HPE_OK \<and> hp_type ps = HTTP_REQUEST \<and> \<not> lenient_http_headers ps
     \<and> content_length ps = ULLONG_MAX \<and> hp_nread ps = n
     \<and> \<not> flag_set F_CHUNKED ps \<and> \<not> flag_set F_SKIPBODY ps \<and> \<not> flag_set F_TRAILING ps
     \<and> \<not> flag_set F_CONTENTLENGTH ps"

lemma drop_Cons:
  assumes "drop p data = c # r"
  shows "p < length data" "data ! p = c" "drop (Suc p) data = r"
proof -
  show l: "p < length data" using assms by (metis drop_eq_Nil leI list.distinct(1))
  from Cons_nth_drop_Suc [OF l] assms show "data ! p = c" "drop (Suc p) data = r" by simp_all
qed

text \<open>One more byte counted.\<close>

definition bump :: "http_parser \<Rightarrow> http_parser" where
  "bump ps = ps\<lparr>hp_nread := hp_nread ps + 1\<rparr>"

lemma count_ok:
  assumes "hp_nread (parser x) + v \<le> HTTP_MAX_HEADER_SIZE"
  shows "COUNT_HEADER_SIZE v k x = k (upd (\<lambda>ps. ps\<lparr>hp_nread := hp_nread ps + v\<rparr>) x)"
proof -
  have "HTTP_MAX_HEADER_SIZE < 2 ^ 32" by (simp add: HTTP_MAX_HEADER_SIZE_def)
  with assms have "hp_nread (parser x) + v < 2 ^ 32" by linarith
  then have "(hp_nread (parser x) + v) mod 2 ^ 32 = hp_nread (parser x) + v" by (rule mod_less)
  with assms show ?thesis by (simp add: COUNT_HEADER_SIZE_def upd_def)
qed

lemma bump_simps [simp]:
  "hp_type (bump ps) = hp_type ps" "hp_errno (bump ps) = hp_errno ps" "hp_method (bump ps) = hp_method ps"
  "hp_index (bump ps) = hp_index ps" "header_state (bump ps) = header_state ps"
  "content_length (bump ps) = content_length ps" "hp_nread (bump ps) = hp_nread ps + 1"
  "flag_set f (bump ps) = flag_set f ps" "lenient_http_headers (bump ps) = lenient_http_headers ps"
  by (simp_all add: bump_def)

lemma bodyless_bump: "bodyless n ps \<Longrightarrow> bodyless (Suc n) (bump ps)"
  by (simp add: bodyless_def)

lemma exec_char_header:
  assumes "pos x < length data" "length data \<le> HTTP_MAX_HEADER_SIZE" "hp_nread (parser x) = pos x"
    and "PARSING_HEADER (p_state x)"
  shows "exec_char st data x = run_state st data (upd bump x)"
proof -
  have "upd (\<lambda>ps. ps\<lparr>hp_nread := hp_nread ps + 1\<rparr>) x = upd bump x" by (simp add: upd_def bump_def)
  then show ?thesis using assms by (simp add: exec_char_def count_ok)
qed

text \<open>A step of the loop that breaks, directly or after one \<open>goto reexecute\<close>.\<close>

lemma loop_break:
  assumes "pos x < length data" "length data \<le> HTTP_MAX_HEADER_SIZE" "hp_nread (parser x) = pos x"
    and "PARSING_HEADER (p_state x)" "exec_state st data (upd bump x) = Break y"
  shows "exec_loop st data x = exec_loop st data (y\<lparr>pos := pos y + 1\<rparr>)"
  using assms exec_char_header [OF assms(1-4), of st]
  by (subst exec_loop.simps) (simp add: run_state.simps [of st data "upd bump x"])

lemma run_reexec:
  assumes "pos x < length data" "exec_state st data x = Reexec y"
  shows "run_state st data x = run_state st data y"
  using assms by (subst run_state.simps) simp

lemma step:
  assumes "drop p data = c # r" "length data \<le> HTTP_MAX_HEADER_SIZE" "hp_nread ps = p" "PARSING_HEADER s"
    and "data ! p = c \<Longrightarrow> exec_state st data (at_pos s p (bump ps) u) = Break (at_pos s' p ps' u')"
  shows "exec_loop st data (at_pos s p ps u) = exec_loop st data (at_pos s' (Suc p) ps' u')"
  using loop_break [of "at_pos s p ps u" data st "at_pos s' p ps' u'"] assms drop_Cons [OF assms(1)] by simp

lemmas parsing_simps = PARSING_HEADER_def less_eq_http_state_def

section \<open>The request line\<close>

lemmas char_defs = CR_def LF_def SP_def TAB_def IS_ALPHA_def IS_NUM_def LOWER_def code_def DIGIT_def

lemma flag_set_cleared [simp]: "\<not> flag_set f (ps\<lparr>hp_flags := 0\<rparr>)"
  by (simp add: flag_set_def)

lemma method_char:
  assumes "drop p data = c # r" "length data \<le> HTTP_MAX_HEADER_SIZE" "hp_nread ps = p"
    and "hp_method ps = HTTP_GET" "hp_index ps = i" "c \<noteq> CHR 0x00"
    and "s' = (if c = SP \<and> i = 3 then s_req_spaces_before_url else s_req_method)"
    and "c = SP \<and> i = 3 \<or> c = c_char_at ''GET'' i"
  shows "exec_loop st data (at_pos s_req_method p ps u) =
    exec_loop st data (at_pos s' (Suc p) (inc_index (bump ps)) u)"
  by (rule step [OF assms(1-3)])
     (use assms(4-8) in \<open>auto simp: parsing_simps exec_state_def exec_req_method_def c_char_at_def SP_def Let_def
        split: if_splits\<close>)

lemma GET_chars: "c_char_at ''GET'' 1 = CHR ''E''" "c_char_at ''GET'' 2 = CHR ''T''"
  by (simp_all add: c_char_at_def)

lemma run_method:
  assumes d: "drop 0 data = ''GET '' @ r" and l: "length data \<le> HTTP_MAX_HEADER_SIZE"
  shows "\<exists>ps. exec_loop (listener ff fv fm) data (at_pos s_start_req 0 (http_parser_init HTTP_REQUEST) u) =
      exec_loop (listener ff fv fm) data (at_pos s_req_spaces_before_url 4 ps u)
    \<and> bodyless 4 ps \<and> hp_method ps = HTTP_GET"
proof -
  let ?st = "listener ff fv fm"
  define ps0 where "ps0 = http_parser_init HTTP_REQUEST"
  define ps1 where "ps1 = (bump ps0)\<lparr>hp_flags := 0, content_length := ULLONG_MAX, hp_method := HTTP_GET, hp_index := 1\<rparr>"
  define ps2 where "ps2 = inc_index (bump ps1)"
  define ps3 where "ps3 = inc_index (bump ps2)"
  define ps4 where "ps4 = inc_index (bump ps3)"
  note ps_defs = ps0_def ps1_def ps2_def ps3_def ps4_def
  have d0: "drop 0 data = CHR ''G'' # ''ET '' @ r" and d1: "drop (Suc 0) data = CHR ''E'' # ''T '' @ r"
    and d2: "drop (Suc (Suc 0)) data = CHR ''T'' # '' '' @ r"
    and d3: "drop (Suc (Suc (Suc 0))) data = CHR '' '' # r"
    using d by simp_all
  have p: "hp_nread ps0 = 0" "hp_nread ps1 = 1" "hp_index ps1 = 1" "hp_method ps1 = HTTP_GET"
    "hp_nread ps2 = 2" "hp_index ps2 = 2" "hp_method ps2 = HTTP_GET"
    "hp_nread ps3 = 3" "hp_index ps3 = 3" "hp_method ps3 = HTTP_GET"
    "bodyless 4 ps4" "hp_method ps4 = HTTP_GET"
    by (simp_all add: ps_defs inc_index_def bump_def http_parser_init_def bodyless_def flag_set_def)
  have "exec_loop ?st data (at_pos s_start_req 0 ps0 u) = exec_loop ?st data (at_pos s_req_method (Suc 0) ps1 u)"
    by (rule step [OF d0 l p(1)])
       (simp_all add: parsing_simps exec_state_def exec_req_method_def char_defs method_of_letter_def
          CALLBACK_NOTIFY_def assert_that_def bump_def ps0_def ps1_def http_parser_init_def)
  also have "\<dots> = exec_loop ?st data (at_pos s_req_method (Suc (Suc 0)) ps2 u)"
    unfolding ps2_def by (rule method_char [OF d1 l, where i = 1]) (use p in \<open>simp_all add: SP_def GET_chars [unfolded One_nat_def]\<close>)
  also have "\<dots> = exec_loop ?st data (at_pos s_req_method (Suc (Suc (Suc 0))) ps3 u)"
    unfolding ps3_def by (rule method_char [OF d2 l, where i = 2]) (use p in \<open>simp_all add: SP_def GET_chars\<close>)
  also have "\<dots> = exec_loop ?st data (at_pos s_req_spaces_before_url (Suc (Suc (Suc (Suc 0)))) ps4 u)"
    unfolding ps4_def by (rule method_char [OF d3 l, where i = 3]) (use p in \<open>simp_all add: SP_def GET_chars\<close>)
  finally show ?thesis using p(11,12) unfolding ps0_def by (auto simp: numeral_eq_Suc)
qed

text \<open>The path.\<close>

lemma path_char: "IS_URL_CHAR c \<Longrightarrow> c \<noteq> SP \<and> c \<noteq> CR \<and> c \<noteq> LF \<and> c \<noteq> TAB \<and> c \<noteq> CHR 0x0C"
  by (auto simp: IS_URL_CHAR_def table_at_def normal_url_char_def char_defs bit_0)

lemma path_step:
  assumes "drop p data = c # r" "length data \<le> HTTP_MAX_HEADER_SIZE" "hp_nread ps = p" "IS_URL_CHAR c"
  shows "exec_loop st data ((at_pos s_req_path p ps u)\<lparr>url_mark := Some m\<rparr>) =
    exec_loop st data ((at_pos s_req_path (Suc p) (bump ps) u)\<lparr>url_mark := Some m\<rparr>)"
proof -
  let ?x = "(at_pos s_req_path p ps u)\<lparr>url_mark := Some m\<rparr>"
  have "exec_state st data (upd bump ?x) = Break ((at_pos s_req_path p (bump ps) u)\<lparr>url_mark := Some m\<rparr>)"
    using path_char [OF assms(4)] assms(4) drop_Cons [OF assms(1)]
    by (simp add: exec_state_def exec_req_url_def url_char_def parse_url_char_def Let_def upd_def
          UPDATE_STATE_def at_pos_def)
  from loop_break [OF _ assms(2) _ _ this] drop_Cons [OF assms(1)] assms(3) show ?thesis
    by (simp add: parsing_simps at_pos_def)
qed

lemma path_end:
  assumes "drop p data = SP # r" "length data \<le> HTTP_MAX_HEADER_SIZE" "bodyless p ps"
  shows "exec_loop (listener ff fv fm) data ((at_pos s_req_path p ps u)\<lparr>url_mark := Some m\<rparr>) =
    exec_loop (listener ff fv fm) data (at_pos s_req_http_start (Suc p) (bump ps) u)"
proof -
  let ?x = "(at_pos s_req_path p ps u)\<lparr>url_mark := Some m\<rparr>"
  have "exec_state (listener ff fv fm) data (upd bump ?x) = Break (at_pos s_req_http_start p (bump ps) u)"
    using drop_Cons [OF assms(1)] bodyless_bump [OF assms(3)]
    by (simp add: exec_state_def exec_req_url_def Let_def upd_def UPDATE_STATE_def at_pos_def
          CALLBACK_DATA_def CALLBACK_DATA_TO_def assert_that_def bodyless_def)
  from loop_break [OF _ assms(2) _ _ this] drop_Cons [OF assms(1)] assms(3) show ?thesis
    by (simp add: parsing_simps at_pos_def bodyless_def)
qed

lemma run_path:
  assumes "drop p data = cs @ SP # r" "length data \<le> HTTP_MAX_HEADER_SIZE" "bodyless p ps"
    and "\<forall>c \<in> set cs. IS_URL_CHAR c"
  shows "\<exists>ps'. exec_loop (listener ff fv fm) data ((at_pos s_req_path p ps u)\<lparr>url_mark := Some m\<rparr>) =
      exec_loop (listener ff fv fm) data (at_pos s_req_http_start (Suc (p + length cs)) ps' u)
    \<and> bodyless (Suc (p + length cs)) ps'"
  using assms
proof (induction cs arbitrary: p ps)
  case Nil
  then show ?case
    using path_end [of p data r ps, where u = u and m = m and ff = ff and fv = fv and fm = fm] bodyless_bump by (fastforce simp: bodyless_def)
next
  case (Cons c cs)
  have d: "drop p data = c # cs @ SP # r" using Cons.prems(1) by simp
  note d' = drop_Cons(3) [OF d]
  from Cons.IH [OF d' Cons.prems(2) bodyless_bump [OF Cons.prems(3)]] Cons.prems(4)
    path_step [OF d Cons.prems(2), where ps = ps and st = "listener ff fv fm" and u = u and m = m] Cons.prems(3)
  show ?case by (auto simp: bodyless_def)
qed

lemma run_url:
  assumes "drop p data = url @ SP # r" "length data \<le> HTTP_MAX_HEADER_SIZE" "bodyless p ps" "url_ok url"
    and "hp_method ps = HTTP_GET"
  shows "\<exists>ps'. exec_loop (listener ff fv fm) data (at_pos s_req_spaces_before_url p ps u) =
      exec_loop (listener ff fv fm) data (at_pos s_req_http_start (Suc (p + length url)) ps' u)
    \<and> bodyless (Suc (p + length url)) ps'"
proof -
  let ?st = "listener ff fv fm"
  obtain cs where url: "url = CHR ''/'' # cs" "\<forall>c \<in> set cs. IS_URL_CHAR c"
    using assms(4) by (auto simp: url_ok_def)
  have d: "drop p data = CHR ''/'' # cs @ SP # r" using assms(1) url(1) by simp
  let ?x = "at_pos s_req_spaces_before_url p ps u"
  have "exec_state ?st data (upd bump ?x) = Break ((at_pos s_req_path p (bump ps) u)\<lparr>url_mark := Some p\<rparr>)"
    using drop_Cons [OF d] assms(5)
    by (simp add: exec_state_def exec_req_url_def url_char_def parse_url_char_def Let_def MARK_def char_defs
          at_pos_def UPDATE_STATE_def upd_def)
  from loop_break [OF _ assms(2) _ _ this] drop_Cons [OF d] assms(3)
  have "exec_loop ?st data ?x = exec_loop ?st data ((at_pos s_req_path (Suc p) (bump ps) u)\<lparr>url_mark := Some p\<rparr>)"
    by (simp add: parsing_simps bodyless_def at_pos_def)
  with run_path [OF drop_Cons(3) [OF d] assms(2) bodyless_bump [OF assms(3)] url(2), where ff = ff and fv = fv and fm = fm and u = u and m = p]
  show ?thesis by (simp add: url(1))
qed

text \<open>The version and the end of the line.\<close>

lemma version_step:
  assumes "drop p data = c # r" "length data \<le> HTTP_MAX_HEADER_SIZE" "bodyless p ps"
    and "group_of s = G_Version" "PARSING_HEADER s"
    and "exec_req_version c (at_pos s p (bump ps) u) = Break (at_pos s' p ps' u)"
  shows "exec_loop st data (at_pos s p ps u) = exec_loop st data (at_pos s' (Suc p) ps' u)"
  by (rule step [OF assms(1,2) _ assms(5)]) (use assms(3,4,6) in \<open>simp_all add: bodyless_def exec_state_def\<close>)

lemma bodyless_simps [simp]:
  "bodyless n (ps\<lparr>http_major := v\<rparr>) = bodyless n ps" "bodyless n (ps\<lparr>http_minor := v\<rparr>) = bodyless n ps"
  "bodyless n (ps\<lparr>hp_index := i\<rparr>) = bodyless n ps" "bodyless n (ps\<lparr>header_state := h\<rparr>) = bodyless n ps"
  by (simp_all add: bodyless_def)

lemma run_version:
  assumes d: "drop p data = ''HTTP/1.1'' @ CRLF @ r" and l: "length data \<le> HTTP_MAX_HEADER_SIZE"
    and b: "bodyless p ps"
  shows "\<exists>ps'. exec_loop st data (at_pos s_req_http_start p ps u) =
      exec_loop st data (at_pos s_header_field_start (p + 10) ps' u) \<and> bodyless (p + 10) ps'"
proof -
  note e = exec_req_version_def char_defs STRICT_CHECK_def parsing_simps
  let ?L = "\<lambda>s p ps. exec_loop st data (at_pos s p ps u)"
  define q1 where "q1 = (\<lambda>ps. bump (bump (bump (bump (bump ps)))))"
  define q2 where "q2 = (\<lambda>ps. (bump ps)\<lparr>http_major := 1\<rparr>)"
  define q3 where "q3 = (\<lambda>ps. (bump ps)\<lparr>http_minor := 1\<rparr>)"
  have d0: "drop p data = CHR ''H'' # ''TTP/1.1'' @ CRLF @ r" using d by simp
  note d1 = drop_Cons(3) [OF d0, unfolded append.simps]
  note d2 = drop_Cons(3) [OF d1, unfolded append.simps]
  note d3 = drop_Cons(3) [OF d2, unfolded append.simps]
  note d4 = drop_Cons(3) [OF d3, unfolded append.simps]
  note d5 = drop_Cons(3) [OF d4, unfolded append.simps]
  note d6 = drop_Cons(3) [OF d5, unfolded append.simps]
  note d7 = drop_Cons(3) [OF d6, unfolded append.simps]
  note d8 = drop_Cons(3) [OF d7, unfolded append.simps CRLF_def]
  note d9 = drop_Cons(3) [OF d8, unfolded append.simps]
  note b1 = bodyless_bump [OF b] note b2 = bodyless_bump [OF b1] note b3 = bodyless_bump [OF b2]
  note b4 = bodyless_bump [OF b3] note b5 = bodyless_bump [OF b4]
  have b5': "bodyless (Suc (Suc (Suc (Suc (Suc p))))) (q1 ps)" using b5 by (simp add: q1_def)
  have b6: "bodyless (Suc (Suc (Suc (Suc (Suc (Suc p)))))) (q2 (q1 ps))"
    using bodyless_bump [OF b5] by (simp add: q1_def q2_def)
  note b7 = bodyless_bump [OF b6]
  have b8: "bodyless (Suc (Suc (Suc (Suc (Suc (Suc (Suc (Suc p)))))))) (q3 (bump (q2 (q1 ps))))"
    using bodyless_bump [OF b7] by (simp add: q3_def)
  note b9 = bodyless_bump [OF b8]
  have "?L s_req_http_start p ps = ?L s_req_http_H (Suc p) (bump ps)"
    by (rule version_step [OF d0 l b]) (simp_all add: e)
  also have "\<dots> = ?L s_req_http_HT (Suc (Suc p)) (bump (bump ps))"
    by (rule version_step [OF d1 l b1]) (simp_all add: e)
  also have "\<dots> = ?L s_req_http_HTT (Suc (Suc (Suc p))) (bump (bump (bump ps)))"
    by (rule version_step [OF d2 l b2]) (simp_all add: e)
  also have "\<dots> = ?L s_req_http_HTTP (Suc (Suc (Suc (Suc p)))) (bump (bump (bump (bump ps))))"
    by (rule version_step [OF d3 l b3]) (simp_all add: e)
  also have "\<dots> = ?L s_req_first_http_major (Suc (Suc (Suc (Suc (Suc p))))) (q1 ps)"
    by (rule version_step [OF d4 l b4]) (simp_all add: e q1_def)
  also have "\<dots> = ?L s_req_http_major (Suc (Suc (Suc (Suc (Suc (Suc p)))))) (q2 (q1 ps))"
    by (rule version_step [OF d5 l b5'] ) (simp_all add: e q2_def)
  also have "\<dots> = ?L s_req_first_http_minor (Suc (Suc (Suc (Suc (Suc (Suc (Suc p))))))) (bump (q2 (q1 ps)))"
    by (rule version_step [OF d6 l b6]) (simp_all add: e)
  also have "\<dots> = ?L s_req_http_minor (Suc (Suc (Suc (Suc (Suc (Suc (Suc (Suc p)))))))) (q3 (bump (q2 (q1 ps))))"
    by (rule version_step [OF d7 l b7]) (simp_all add: e q3_def)
  also have "\<dots> = ?L s_req_line_almost_done (Suc (Suc (Suc (Suc (Suc (Suc (Suc (Suc (Suc p)))))))))
      (bump (q3 (bump (q2 (q1 ps)))))"
    by (rule version_step [OF d8 l b8]) (simp_all add: e)
  also have "\<dots> = ?L s_header_field_start (Suc (Suc (Suc (Suc (Suc (Suc (Suc (Suc (Suc (Suc p))))))))))
      (bump (bump (q3 (bump (q2 (q1 ps))))))"
    by (rule version_step [OF d9 l b9]) (simp_all add: e)
  finally show ?thesis using bodyless_bump [OF b9] by (auto simp: numeral_eq_Suc)
qed

section \<open>Header names\<close>

text \<open>
  What the matcher knows of the name read so far: the two names that announce a body are
  recognised only after all their letters.
\<close>

definition matcher_inv :: "nat list \<Rightarrow> http_parser \<Rightarrow> bool" where
  "matcher_inv w ps \<longleftrightarrow>
     (case header_state ps of
        h_C \<Rightarrow> w = map code ''c'' \<and> hp_index ps = 0
      | h_CO \<Rightarrow> w = map code ''co'' \<and> hp_index ps = 1
      | h_CON \<Rightarrow> w = map code ''con'' \<and> hp_index ps = 2
      | h_matching_content_length \<Rightarrow>
          w = take (Suc (hp_index ps)) (map code CONTENT_LENGTH) \<and> Suc (hp_index ps) < length CONTENT_LENGTH
      | h_matching_transfer_encoding \<Rightarrow>
          w = take (Suc (hp_index ps)) (map code TRANSFER_ENCODING) \<and> Suc (hp_index ps) < length TRANSFER_ENCODING
      | h_content_length \<Rightarrow> w = map code CONTENT_LENGTH
      | h_transfer_encoding \<Rightarrow> w = map code TRANSFER_ENCODING
      | _ \<Rightarrow> True)"

lemma words_length: "length CONTENT_LENGTH = 14" "length TRANSFER_ENCODING = 17"
  by (simp_all add: CONTENT_LENGTH_def TRANSFER_ENCODING_def)

lemma matching_step:
  assumes "v = take (Suc i) (map code w)" "Suc i < length w"
    and "match_word w h_general m d (Suc i) c = h" "h \<noteq> h_general"
  shows "h = m \<and> v @ [c] = take (Suc (Suc i)) (map code w) \<and> Suc (Suc i) < length w \<or>
         h = d \<and> v @ [c] = map code w"
proof -
  have c: "c = map code w ! Suc i" and h: "h = (if Suc i = length w - 1 then d else m)"
    using assms(2-4) by (auto simp: match_word_def c_char_at_def split: if_splits)
  have v: "v @ [c] = take (Suc (Suc i)) (map code w)"
    using assms(1,2) c by (simp add: take_Suc_conv_app_nth)
  show ?thesis using h v assms(2) by (cases "Suc i = length w - 1") auto
qed

lemma inc_index_small: "hp_index ps < 127 \<Longrightarrow> hp_index (inc_index ps) = Suc (hp_index ps)"
  by (simp add: inc_index_def)

lemma matcher_inv_general [simp]: "header_state ps = h_general \<Longrightarrow> matcher_inv w ps"
  by (simp add: matcher_inv_def)

lemma take_words:
  "map code ''cont'' = take 4 (map code CONTENT_LENGTH)"
  by (simp add: CONTENT_LENGTH_def)

lemma matcher_char:
  assumes m: "matcher_inv w ps" and "header_state ps \<in> field_matchers" and t: "ch \<noteq> SP"
    and f: "header_field_char ch c ps = Some ps'"
  shows "matcher_inv (w @ [c]) ps'"
proof (cases "header_state ps'")
  case h_CO
  with f have "header_state ps = h_C \<and> c = code CHR ''o'' \<and> ps' = inc_index ps\<lparr>header_state := h_CO\<rparr>"
    by (cases "header_state ps")
       (auto simp: header_field_char_def Let_def match_word_def split: if_splits)
  with m show ?thesis by (auto simp: matcher_inv_def inc_index_small)
next
  case h_CON
  with f have "header_state ps = h_CO \<and> c = code CHR ''n'' \<and> ps' = inc_index ps\<lparr>header_state := h_CON\<rparr>"
    by (cases "header_state ps")
       (auto simp: header_field_char_def Let_def match_word_def split: if_splits)
  with m show ?thesis by (auto simp: matcher_inv_def inc_index_small)
next
  case h_matching_content_length
  with f consider "header_state ps = h_CON" "c = code CHR ''t''"
      "ps' = inc_index ps\<lparr>header_state := h_matching_content_length\<rparr>"
    | "header_state ps = h_matching_content_length"
      "ps' = inc_index ps\<lparr>header_state := match_word CONTENT_LENGTH h_general h_matching_content_length
          h_content_length (hp_index (inc_index ps)) c\<rparr>"
    by (cases "header_state ps")
       (auto simp: header_field_char_def Let_def match_word_def split: if_splits)
  then show ?thesis
  proof cases
    case 1
    with m show ?thesis
      using take_words by (simp add: matcher_inv_def inc_index_small words_length numeral_eq_Suc)
  next
    case 2
    with m h_matching_content_length show ?thesis
      using matching_step [of w "hp_index ps" CONTENT_LENGTH h_matching_content_length h_content_length c]
      by (auto simp: matcher_inv_def inc_index_small words_length)
  qed
next
  case h_matching_transfer_encoding
  with f have "header_state ps = h_matching_transfer_encoding"
    "ps' = inc_index ps\<lparr>header_state := match_word TRANSFER_ENCODING h_general h_matching_transfer_encoding
        h_transfer_encoding (hp_index (inc_index ps)) c\<rparr>"
    by (cases "header_state ps";
        auto simp: header_field_char_def Let_def match_word_def split: if_splits)+
  with m h_matching_transfer_encoding show ?thesis
    using matching_step [of w "hp_index ps" TRANSFER_ENCODING h_matching_transfer_encoding h_transfer_encoding c]
    by (auto simp: matcher_inv_def inc_index_small words_length)
next
  case h_content_length
  with f t have "header_state ps = h_matching_content_length"
    "ps' = inc_index ps\<lparr>header_state := match_word CONTENT_LENGTH h_general h_matching_content_length
        h_content_length (hp_index (inc_index ps)) c\<rparr>"
    by (cases "header_state ps";
        auto simp: header_field_char_def Let_def match_word_def split: if_splits)+
  with m h_content_length show ?thesis
    using matching_step [of w "hp_index ps" CONTENT_LENGTH h_matching_content_length h_content_length c]
    by (auto simp: matcher_inv_def inc_index_small words_length)
next
  case h_transfer_encoding
  with f t have "header_state ps = h_matching_transfer_encoding"
    "ps' = inc_index ps\<lparr>header_state := match_word TRANSFER_ENCODING h_general h_matching_transfer_encoding
        h_transfer_encoding (hp_index (inc_index ps)) c\<rparr>"
    by (cases "header_state ps";
        auto simp: header_field_char_def Let_def match_word_def split: if_splits)+
  with m h_transfer_encoding show ?thesis
    using matching_step [of w "hp_index ps" TRANSFER_ENCODING h_matching_transfer_encoding h_transfer_encoding c]
    by (auto simp: matcher_inv_def inc_index_small words_length)
next
  case h_C
  with f show ?thesis
    by (cases "header_state ps") (auto simp: header_field_char_def Let_def match_word_def split: if_splits)
qed (simp_all add: matcher_inv_def)

lemma TOKEN_separators: "TOKEN SP = 0" "TOKEN CHR '':'' = 0" "TOKEN CR = 0" "TOKEN LF = 0" "TOKEN TAB = 0"
  by (simp_all add: TOKEN_def table_at_def tokens_def char_defs)

lemma name_loop:
  assumes "\<forall>c \<in> set cs. TOKEN c \<noteq> 0" "matcher_inv w ps" "header_state ps \<in> field_matchers"
  shows "\<exists>ps'. header_field_loop (cs @ CHR '':'' # r) p ps = Some (p + length cs, ps')
    \<and> matcher_inv (w @ map TOKEN cs) ps' \<and> name_step ps ps'"
  using assms
proof (induction cs arbitrary: w p ps)
  case Nil
  then show ?case by (simp add: TOKEN_separators name_step_intros)
next
  case (Cons c cs)
  obtain ps1 where 1: "header_field_char c (TOKEN c) ps = Some ps1" "name_step ps ps1"
    using header_field_char_ok [OF Cons.prems(3)] by blast
  have "c \<noteq> SP" using Cons.prems(1) TOKEN_separators(1) by auto
  from matcher_char [OF Cons.prems(2,3) this 1(1)] have m: "matcher_inv (w @ [TOKEN c]) ps1" .
  obtain ps2 where 2: "header_field_loop (cs @ CHR '':'' # r) (p + 1) ps1 = Some (p + 1 + length cs, ps2)"
    "matcher_inv ((w @ [TOKEN c]) @ map TOKEN cs) ps2" "name_step ps1 ps2"
    using Cons.IH [OF _ m name_step_matcher [OF 1(2)], of "p + 1"] Cons.prems(1) by auto
  have "name_step ps ps2" using name_step_trans [OF 1(2) 2(3)] .
  with 1 2 Cons.prems(1) show ?case by (auto simp: Let_def)
qed

lemma name_step_bodyless: "name_step ps ps' \<Longrightarrow> bodyless n ps \<Longrightarrow> bodyless n ps'"
  by (auto simp: name_step_def)

text \<open>The end of a header line, and the start of the next.\<close>

definition boundary :: "http_state \<Rightarrow> nat \<Rightarrow> http_parser \<Rightarrow> bool" where
  "boundary s p ps \<longleftrightarrow> bodyless p ps \<and>
     (s = s_header_field_start \<or> s = s_header_value_lws \<and> header_state ps \<noteq> h_transfer_encoding_chunked)"

lemma flag_masks:
  "F_CONNECTION_KEEP_ALIVE AND F_CHUNKED = 0" "F_CONNECTION_CLOSE AND F_CHUNKED = 0"
  "F_CONNECTION_UPGRADE AND F_CHUNKED = 0" "F_UPGRADE AND F_CHUNKED = 0"
  "F_CONNECTION_KEEP_ALIVE AND F_SKIPBODY = 0" "F_CONNECTION_CLOSE AND F_SKIPBODY = 0"
  "F_CONNECTION_UPGRADE AND F_SKIPBODY = 0" "F_UPGRADE AND F_SKIPBODY = 0"
  "F_CONNECTION_KEEP_ALIVE AND F_TRAILING = 0" "F_CONNECTION_CLOSE AND F_TRAILING = 0"
  "F_CONNECTION_UPGRADE AND F_TRAILING = 0" "F_UPGRADE AND F_TRAILING = 0"
  "F_CONNECTION_KEEP_ALIVE AND F_CONTENTLENGTH = 0" "F_CONNECTION_CLOSE AND F_CONTENTLENGTH = 0"
  "F_CONNECTION_UPGRADE AND F_CONTENTLENGTH = 0" "F_UPGRADE AND F_CONTENTLENGTH = 0"
  by (simp_all add: F_CHUNKED_def F_SKIPBODY_def F_TRAILING_def F_CONTENTLENGTH_def F_UPGRADE_def
      F_CONNECTION_KEEP_ALIVE_def F_CONNECTION_CLOSE_def F_CONNECTION_UPGRADE_def)

lemma bodyless_set_flag:
  "f \<in> {F_CONNECTION_KEEP_ALIVE, F_CONNECTION_CLOSE, F_CONNECTION_UPGRADE, F_UPGRADE} \<Longrightarrow>
   bodyless n (set_flag f ps) = bodyless n ps"
  by (auto simp: bodyless_def flag_masks) (simp_all add: set_flag_def)

lemma bodyless_header_flag:
  "header_state ps \<noteq> h_transfer_encoding_chunked \<Longrightarrow> bodyless n (header_flag ps) = bodyless n ps"
  by (cases "header_state ps") (simp_all add: header_flag_def bodyless_set_flag)

lemma boundary_run:
  assumes "boundary s p ps" "drop p data = c # r" "c \<noteq> SP" "c \<noteq> TAB"
  shows "\<exists>ps'. run_state st data (at_pos s p (bump ps) u) = run_state st data (at_pos s_header_field_start p ps' u)
    \<and> bodyless (Suc p) ps'"
proof (cases "s = s_header_field_start")
  case True
  with assms(1) show ?thesis using bodyless_bump by (auto simp: boundary_def)
next
  case False
  with assms(1) have s: "s = s_header_value_lws" "bodyless p ps" "header_state ps \<noteq> h_transfer_encoding_chunked"
    by (auto simp: boundary_def)
  note d = drop_Cons [OF assms(2)]
  have "exec_state st data (at_pos s p (bump ps) u) = Reexec (at_pos s_header_field_start p (header_flag (bump ps)) u)"
    using s(1) d assms(3,4) by (simp add: exec_state_def exec_header_ws_def)
  then have "run_state st data (at_pos s p (bump ps) u) =
      run_state st data (at_pos s_header_field_start p (header_flag (bump ps)) u)"
    by (rule run_reexec [rotated]) (simp add: d)
  moreover have "bodyless (Suc p) (header_flag (bump ps))"
    using s(2,3) bodyless_bump by (simp add: bodyless_header_flag)
  ultimately show ?thesis by blast
qed

lemma run_break: "pos x < length data \<Longrightarrow> exec_state st data x = Break y \<Longrightarrow> run_state st data x = Break y"
  by (subst run_state.simps) simp

lemma exec_loop_char:
  "pos x < length data \<Longrightarrow> exec_char st data x = Break y \<Longrightarrow>
   exec_loop st data x = exec_loop st data (y\<lparr>pos := pos y + 1\<rparr>)"
  by (subst exec_loop.simps) simp

text \<open>The first letter of a name: the mark is set, and the matcher starts.\<close>

lemma name_start:
  assumes "boundary s p ps" "drop p data = c # r" "TOKEN c \<noteq> 0" "length data \<le> HTTP_MAX_HEADER_SIZE"
  shows "\<exists>ps'. exec_loop st data (at_pos s p ps u) =
      exec_loop st data ((at_pos s_header_field (Suc p) ps' u)\<lparr>header_field_mark := Some p\<rparr>)
    \<and> bodyless (Suc p) ps' \<and> matcher_inv [TOKEN c] ps' \<and> header_state ps' \<in> field_matchers"
proof -
  have c: "c \<noteq> SP" "c \<noteq> TAB" "c \<noteq> CR" "c \<noteq> LF" using assms(3) TOKEN_separators by auto
  note d = drop_Cons [OF assms(2)]
  have b: "bodyless p ps" "PARSING_HEADER s" using assms(1) by (auto simp: boundary_def parsing_simps)
  obtain ps1 where 1: "run_state st data (at_pos s p (bump ps) u) =
      run_state st data (at_pos s_header_field_start p ps1 u)" "bodyless (Suc p) ps1"
    using boundary_run [OF assms(1,2) c(1,2), where st = st and u = u] by (elim exE conjE)
  define h where "h = (if TOKEN c = code CHR ''c'' then h_C
                         else if TOKEN c = code CHR ''p'' then h_matching_proxy_connection
                         else if TOKEN c = code CHR ''t'' then h_matching_transfer_encoding
                         else if TOKEN c = code CHR ''u'' then h_matching_upgrade
                         else h_general)"
  define ps2 where "ps2 = ps1\<lparr>hp_index := 0, header_state := h\<rparr>"
  let ?y = "(at_pos s_header_field p ps2 u)\<lparr>header_field_mark := Some p\<rparr>"
  have "exec_state st data (at_pos s_header_field_start p ps1 u) = Break ?y"
    using d c assms(3)
    by (simp only: exec_state_def exec_header_field_start_def Let_def at_pos_simps group_of.simps state_group.simps
          h_def [symmetric] simp_thms if_False)
       (simp add: MARK_def ps2_def at_pos_def UPDATE_STATE_def upd_def)
  then have "run_state st data (at_pos s_header_field_start p ps1 u) = Break ?y"
    by (rule run_break [rotated]) (simp add: d)
  then have "exec_char st data (at_pos s p ps u) = Break ?y"
    using exec_char_header [of "at_pos s p ps u" data st] d assms(4) b 1(1) by (simp add: bodyless_def)
  then have "exec_loop st data (at_pos s p ps u) =
      exec_loop st data ((at_pos s_header_field (Suc p) ps2 u)\<lparr>header_field_mark := Some p\<rparr>)"
    using exec_loop_char [of "at_pos s p ps u" data st] d by (simp add: at_pos_def)
  moreover have "bodyless (Suc p) ps2" using 1(2) by (simp add: ps2_def)
  moreover have "matcher_inv [TOKEN c] ps2"
    by (auto simp: matcher_inv_def ps2_def h_def TRANSFER_ENCODING_def)
  moreover have "header_state ps2 \<in> field_matchers" by (simp add: ps2_def h_def field_matchers_def)
  ultimately show ?thesis by blast
qed

end
