(* ===== verification/Http_Listen.thy ===== *)
theory Http_Listen
  imports Http_Request
begin

text \<open>
  The header lines and the end of a request without a body: the name and the value of every
  line reach their callbacks, in the order of the text, and the blank line completes the
  message.
\<close>

section \<open>Callbacks\<close>

lemmas callback_simps =
  CALLBACK_DATA_def CALLBACK_DATA_TO_def after_cb_def cb_pause_def assert_that_def Let_def

lemma flag_set_state [simp]: "flag_set f (ps\<lparr>hp_state := s\<rparr>) = flag_set f ps"
  "flag_set f (ps\<lparr>hp_nread := n\<rparr>) = flag_set f ps"
  by (simp_all add: flag_set_def)

lemma bodyless_state [simp]:
  "bodyless n (ps\<lparr>hp_state := s\<rparr>) = bodyless n ps" "bodyless n (ps\<lparr>hp_upgrade := b\<rparr>) = bodyless n ps"
  by (simp_all add: bodyless_def flag_set_def)

lemma bodyless_count: "bodyless n ps \<Longrightarrow> bodyless (n + k) (ps\<lparr>hp_nread := n + k\<rparr>)"
  by (simp add: bodyless_def)

lemma matcher_inv_state [simp]:
  "matcher_inv w (ps\<lparr>hp_state := s\<rparr>) = matcher_inv w ps"
  "matcher_inv w (ps\<lparr>hp_nread := n\<rparr>) = matcher_inv w ps" "matcher_inv w (bump ps) = matcher_inv w ps"
  by (simp_all add: matcher_inv_def bump_def split: header_state.split)

section \<open>The end of a name\<close>

lemma name_end:
  assumes "drop p data = cs @ CHR '':'' # r" "\<forall>c \<in> set cs. TOKEN c \<noteq> 0"
    and "length data \<le> HTTP_MAX_HEADER_SIZE" "bodyless p ps"
    and "matcher_inv w ps" "header_state ps \<in> field_matchers"
  shows "\<exists>ps'. exec_loop (listener ff fv fm) data ((at_pos s_header_field p ps u)\<lparr>header_field_mark := Some m\<rparr>) =
      exec_loop (listener ff fv fm) data (at_pos s_header_value_discard_ws (Suc (p + length cs)) ps'
        (ff (take (p + length cs - m) (drop m data)) u))
    \<and> bodyless (Suc (p + length cs)) ps' \<and> matcher_inv (w @ map TOKEN cs) ps' \<and> header_state ps' \<in> field_matchers"
proof -
  let ?st = "listener ff fv fm" and ?q = "p + length cs"
  let ?x = "(at_pos s_header_field p ps u)\<lparr>header_field_mark := Some m\<rparr>"
  let ?u = "ff (take (?q - m) (drop m data)) u"
  have dq: "drop ?q data = CHR '':'' # r" using assms(1) by (metis add.commute append_eq_conv_conj drop_drop)
  note q = drop_Cons [OF dq]
  obtain ps2 where 2: "header_field_loop (cs @ CHR '':'' # r) p (bump ps) = Some (?q, ps2)"
    "matcher_inv (w @ map TOKEN cs) ps2" "name_step (bump ps) ps2"
    using name_loop [OF assms(2), of w "bump ps" r p] assms(5,6) by auto
  define ps3 where "ps3 = ps2\<lparr>hp_nread := Suc p + length cs, hp_state := s_header_value_discard_ws\<rparr>"
  have b2: "bodyless (Suc p) ps2" using name_step_bodyless [OF 2(3) bodyless_bump [OF assms(4)]] .
  then have b: "bodyless (Suc p + length cs) ps3" by (simp add: ps3_def bodyless_def)
  have "exec_header_field ?st data (upd bump ?x) =
      COUNT_HEADER_SIZE (length cs)
        (\<lambda>x. CALLBACK_DATA ?st data Header_Field Break (UPDATE_STATE s_header_value_discard_ws x))
        ((upd bump ?x)\<lparr>pos := ?q, parser := ps2\<rparr>)"
    using 2(1) assms(1) q by (simp add: exec_header_field_def Let_def at_pos_def upd_def)
  also have "\<dots> = Break (at_pos s_header_value_discard_ws ?q ps3 ?u)"
    using b2 assms(3) q(1)
    by (subst count_ok) (simp_all add: bodyless_def callback_simps at_pos_def upd_def UPDATE_STATE_def ps3_def)
  finally have "exec_state ?st data (upd bump ?x) = Break (at_pos s_header_value_discard_ws ?q ps3 ?u)"
    by (simp add: exec_state_def at_pos_def)
  from loop_break [OF _ assms(3) _ _ this] q(1) assms(4)
  have "exec_loop ?st data ?x = exec_loop ?st data (at_pos s_header_value_discard_ws (Suc ?q) ps3 ?u)"
    by (simp add: parsing_simps bodyless_def at_pos_def)
  moreover have "matcher_inv (w @ map TOKEN cs) ps3" using 2(2) by (simp add: ps3_def)
  moreover have "header_state ps3 \<in> field_matchers"
    using name_step_matcher [OF 2(3)] by (simp add: ps3_def)
  ultimately show ?thesis using b by auto
qed

section \<open>Values\<close>

text \<open>The matcher states of a value that does not announce a chunked body.\<close>

definition value_matchers :: "header_state set" where
  "value_matchers =
     {h_general, h_matching_connection_token_start, h_matching_connection_token,
      h_matching_connection_keep_alive, h_matching_connection_close, h_matching_connection_upgrade,
      h_connection_keep_alive, h_connection_close, h_connection_upgrade}"

lemma value_start:
  assumes "drop p data = c # r" "length data \<le> HTTP_MAX_HEADER_SIZE" "bodyless p ps"
    and "c \<noteq> SP" "c \<noteq> TAB" "c \<noteq> CR" "c \<noteq> LF"
    and "header_state ps \<in> field_matchers" "header_state ps \<noteq> h_content_length" "header_state ps \<noteq> h_transfer_encoding"
  shows "\<exists>ps'. exec_loop st data (at_pos s_header_value_discard_ws p ps u) =
      exec_loop st data ((at_pos s_header_value (Suc p) ps' u)\<lparr>header_value_mark := Some p\<rparr>)
    \<and> bodyless (Suc p) ps' \<and> header_state ps' \<in> value_matchers"
proof -
  note d = drop_Cons [OF assms(1)]
  define ps1 where "ps1 = (bump ps)\<lparr>hp_index := 0\<rparr>"
  have h: "header_state ps1 \<in> field_matchers" "header_state ps1 \<noteq> h_content_length"
    "header_state ps1 \<noteq> h_transfer_encoding"
    using assms(8-10) by (simp_all add: ps1_def)
  have b: "bodyless (Suc p) ps1" using bodyless_bump [OF assms(3)] by (simp add: ps1_def)
  let ?x1 = "(at_pos s_header_value p ps1 u)\<lparr>header_value_mark := Some p\<rparr>"
  have "exec_state st data (at_pos s_header_value_discard_ws p (bump ps) u) =
      exec_header_value_start c (at_pos s_header_value_discard_ws p (bump ps) u)"
    using d assms(4-7) by (simp add: exec_state_def exec_header_ws_def)
  also have "\<exists>ps'. \<dots> = Break (?x1\<lparr>parser := ps'\<rparr>) \<and> bodyless (Suc p) ps' \<and> header_state ps' \<in> value_matchers"
    using h b
    by (cases "header_state ps1")
       (simp_all add: exec_header_value_start_def field_matchers_simps MARK_def at_pos_def UPDATE_STATE_def
          upd_def ps1_def value_matchers_def bodyless_set_flag Let_def)
  finally obtain ps' where e: "exec_state st data (at_pos s_header_value_discard_ws p (bump ps) u) = Break (?x1\<lparr>parser := ps'\<rparr>)"
    and g: "bodyless (Suc p) ps'" "header_state ps' \<in> value_matchers" by blast
  let ?x = "at_pos s_header_value_discard_ws p ps u"
  have "exec_state st data (upd bump ?x) = Break (?x1\<lparr>parser := ps'\<rparr>)" using e by simp
  from loop_break [OF _ assms(2) _ _ this] d assms(3)
  have "exec_loop st data ?x = exec_loop st data ((at_pos s_header_value (Suc p) ps' u)\<lparr>header_value_mark := Some p\<rparr>)"
    by (simp add: parsing_simps bodyless_def at_pos_def)
  with g show ?thesis by blast
qed

lemma value_char:
  assumes "h \<in> value_matchers" "h \<noteq> h_general" "bodyless n ps"
  shows "\<exists>h' ps'. header_value_char c h ps = Some (Inr (h', ps')) \<and> h' \<in> value_matchers \<and> bodyless n ps'"
proof -
  have i: "bodyless n (inc_index ps)" using assms(3) by (simp add: inc_index_def)
  show ?thesis
    using assms i
    by (cases h) (simp_all add: value_matchers_def header_value_char_def connection_flag_def Let_def
          match_word_def bodyless_set_flag)
qed

text \<open>The jump over the rest of a value that is not compared with anything.\<close>

lemma memchr_found:
  assumes "drop p data = cs @ c # r" "c \<notin> set cs" "length cs < limit"
  shows "memchr data p c limit = Some (p + length cs)"
proof -
  obtain k where k: "limit - length cs = Suc k" using assms(3) by (cases "limit - length cs") auto
  have "take limit (drop p data) = cs @ c # take k r" using assms k by simp
  moreover have "takeWhile (\<lambda>d. d \<noteq> c) (cs @ c # take k r) = cs"
    using assms(2) by (induction cs) auto
  ultimately show ?thesis by (simp add: memchr_def)
qed

lemma memchr_after:
  assumes "drop p data = cs @ r" "c \<notin> set cs" "memchr data p c limit = Some k"
  shows "p + length cs \<le> k"
proof (rule ccontr)
  assume "\<not> p + length cs \<le> k"
  with memchr_Some [OF assms(3)] have k: "p \<le> k" "k - p < length cs" "data ! k = c" by auto
  have "data ! k = drop p data ! (k - p)" using k memchr_Some [OF assms(3)] by simp
  with k assms(1) have "cs ! (k - p) = c" by (simp add: nth_append)
  with k(2) assms(2) show False by auto
qed

lemma skip_to_CR:
  assumes "drop p data = cs @ CR # r" "CR \<notin> set cs" "LF \<notin> set cs" "cs \<noteq> []"
    and "length data \<le> HTTP_MAX_HEADER_SIZE"
  shows "skip_general data p + 1 = p + length cs"
proof -
  let ?l = "min (length data - p) HTTP_MAX_HEADER_SIZE"
  have len: "length data - p = length cs + Suc (length r)" using assms(1) by (metis length_append length_Cons length_drop)
  then have "length cs < ?l" using assms(5) by simp
  then have cr: "memchr data p CR ?l = Some (p + length cs)" by (rule memchr_found [OF assms(1,2)])
  have "p + length cs < lf" if "memchr data p LF ?l = Some lf" for lf
  proof -
    have "drop p data = (cs @ [CR]) @ r" using assms(1) by simp
    from memchr_after [OF this _ that] assms(3) show ?thesis by (simp add: CR_def LF_def)
  qed
  moreover have "0 < length cs" using assms(4) by simp
  ultimately show ?thesis using cr by (fastforce simp: skip_general_def Let_def split: option.split)
qed

text \<open>The loop over a value reaches the end of the line.\<close>

lemma exec_update_swap: "(x :: 'u exec)\<lparr>parser := ps, pos := p\<rparr> = x\<lparr>pos := p, parser := ps\<rparr>"
  by (cases x) simp

lemma value_loop:
  assumes "drop p data = cs @ CR # r" "\<forall>c \<in> set cs. IS_HEADER_CHAR c \<and> c \<noteq> CR \<and> c \<noteq> LF"
    and "length data \<le> HTTP_MAX_HEADER_SIZE" "bodyless n ps" "h \<in> value_matchers"
  shows "\<exists>h' ps'. header_value_loop st data start h (x\<lparr>pos := p, parser := ps\<rparr>) =
      header_value_loop st data start h' (x\<lparr>pos := p + length cs, parser := ps'\<rparr>)
    \<and> h' \<in> value_matchers \<and> bodyless n ps'"
  using assms
proof (induction cs arbitrary: p ps h)
  case Nil
  then show ?case by auto
next
  case (Cons c cs)
  have d: "drop p data = c # cs @ CR # r" using Cons.prems(1) by simp
  note d' = drop_Cons [OF d]
  have c: "IS_HEADER_CHAR c" "c \<noteq> CR" "c \<noteq> LF" using Cons.prems(2) by auto
  have ps: "\<not> lenient_http_headers ps" using Cons.prems(4) by (simp add: bodyless_def)
  show ?case
  proof (cases "h = h_general")
    case True
    have "skip_general data p + 1 = p + length (c # cs)"
      by (rule skip_to_CR [OF Cons.prems(1)]) (use Cons.prems in auto)
    then have "header_value_loop st data start h (x\<lparr>pos := p, parser := ps\<rparr>) =
        header_value_loop st data start h (x\<lparr>pos := p + length (c # cs), parser := ps\<rparr>)"
      using True d' c by (subst header_value_loop.simps) (simp add: exec_update_swap)
    with Cons.prems show ?thesis by blast
  next
    case False
    from value_char [OF Cons.prems(5) this Cons.prems(4)] obtain h1 ps1 where
      1: "header_value_char c h ps = Some (Inr (h1, ps1))" "h1 \<in> value_matchers" "bodyless n ps1" by blast
    have "header_value_loop st data start h (x\<lparr>pos := p, parser := ps\<rparr>) =
        header_value_loop st data start h1 (x\<lparr>pos := Suc p, parser := ps1\<rparr>)"
      using False d' c 1(1) by (subst header_value_loop.simps) (simp add: exec_update_swap)
    moreover have "\<forall>c \<in> set cs. IS_HEADER_CHAR c \<and> c \<noteq> CR \<and> c \<noteq> LF" using Cons.prems(2) by simp
    from Cons.IH [OF d'(3) this Cons.prems(3) 1(3,2)] obtain h' ps' where
      "header_value_loop st data start h1 (x\<lparr>pos := Suc p, parser := ps1\<rparr>) =
        header_value_loop st data start h' (x\<lparr>pos := Suc p + length cs, parser := ps'\<rparr>)"
      "h' \<in> value_matchers" "bodyless n ps'" by blast
    ultimately show ?thesis by auto
  qed
qed

lemma value_CR:
  assumes "data ! q = CR" "q < length data" "bodyless (Suc p) ps" "p \<le> q" "length data \<le> HTTP_MAX_HEADER_SIZE"
    and "h \<in> value_matchers"
  shows "\<exists>ps'. header_value_loop (listener ff fv fm) data p h ((at_pos s_header_value q ps u)\<lparr>header_value_mark := Some m\<rparr>) =
      Break (at_pos s_header_almost_done q ps' (fv (take (q - m) (drop m data)) u))
    \<and> bodyless (Suc q) ps' \<and> header_state ps' = h"
proof -
  let ?ps = "ps\<lparr>header_state := h, hp_state := s_header_almost_done, hp_nread := Suc q\<rparr>"
  have "header_value_loop (listener ff fv fm) data p h ((at_pos s_header_value q ps u)\<lparr>header_value_mark := Some m\<rparr>) =
      header_value_end data p h (at_pos s_header_almost_done q
        (ps\<lparr>header_state := h, hp_state := s_header_almost_done\<rparr>) (fv (take (q - m) (drop m data)) u))"
    using assms
    by (subst header_value_loop.simps)
       (simp add: callback_simps at_pos_def upd_def UPDATE_STATE_def bodyless_def)
  also have "\<dots> = Break (at_pos s_header_almost_done q ?ps (fv (take (q - m) (drop m data)) u))"
    using assms unfolding header_value_end_def by (subst count_ok) (auto simp: bodyless_def)
  finally show ?thesis using assms(3) by (intro exI [of _ ?ps]) (simp add: bodyless_def flag_set_def)
qed

lemma value_line:
  assumes "drop p data = cs @ CR # r" "\<forall>c \<in> set cs. IS_HEADER_CHAR c \<and> c \<noteq> CR \<and> c \<noteq> LF"
    and "length data \<le> HTTP_MAX_HEADER_SIZE" "bodyless p ps" "header_state ps \<in> value_matchers"
  shows "\<exists>ps'. exec_loop (listener ff fv fm) data ((at_pos s_header_value p ps u)\<lparr>header_value_mark := Some m\<rparr>) =
      exec_loop (listener ff fv fm) data (at_pos s_header_almost_done (Suc (p + length cs)) ps'
        (fv (take (p + length cs - m) (drop m data)) u))
    \<and> bodyless (Suc (p + length cs)) ps' \<and> header_state ps' \<in> value_matchers"
proof -
  let ?st = "listener ff fv fm" and ?q = "p + length cs"
  let ?x = "(at_pos s_header_value p ps u)\<lparr>header_value_mark := Some m\<rparr>"
  have dq: "drop ?q data = CR # r" using assms(1) by (metis add.commute append_eq_conv_conj drop_drop)
  note q = drop_Cons [OF dq]
  have x: "upd bump ?x = ?x\<lparr>pos := p, parser := bump ps\<rparr>"
    by (simp add: upd_def at_pos_def)
  from value_loop [OF assms(1-3) bodyless_bump [OF assms(4)] assms(5), of ?st p ?x]
  obtain h ps1 where 1: "header_value_loop ?st data p (header_state ps) (upd bump ?x) =
      header_value_loop ?st data p h (?x\<lparr>pos := ?q, parser := ps1\<rparr>)"
    "h \<in> value_matchers" "bodyless (Suc p) ps1" unfolding x by blast
  from value_CR [OF q(2,1) 1(3) _ assms(3) 1(2), where ff = ff and fv = fv and fm = fm and u = u and m = m] obtain ps2 where
    2: "header_value_loop ?st data p h ((at_pos s_header_value ?q ps1 u)\<lparr>header_value_mark := Some m\<rparr>) =
      Break (at_pos s_header_almost_done ?q ps2 (fv (take (?q - m) (drop m data)) u))"
    "bodyless (Suc ?q) ps2" "header_state ps2 = h" by auto
  have "exec_state ?st data (upd bump ?x) = Break (at_pos s_header_almost_done ?q ps2 (fv (take (?q - m) (drop m data)) u))"
    using 1(1) 2(1) by (simp add: exec_state_def exec_header_value_def at_pos_def upd_def)
  from loop_break [OF _ assms(3) _ _ this] q(1) assms(4)
  have "exec_loop ?st data ?x = exec_loop ?st data (at_pos s_header_almost_done (Suc ?q) ps2 (fv (take (?q - m) (drop m data)) u))"
    by (simp add: parsing_simps bodyless_def at_pos_def)
  with 1(2) 2(2,3) show ?thesis by blast
qed

section \<open>Header lines\<close>

lemma drop_append: "drop p data = xs @ ys \<Longrightarrow> drop (p + length xs) data = ys"
  by (metis add.commute append_eq_conv_conj drop_drop)

lemma header_line:
  assumes "boundary s p ps" "drop p data = header_text (f, v) @ r" "header_ok (f, v)"
    and "length data \<le> HTTP_MAX_HEADER_SIZE"
  shows "\<exists>ps'. exec_loop (listener ff fv fm) data (at_pos s p ps u) =
      exec_loop (listener ff fv fm) data (at_pos s_header_value_lws (p + length (header_text (f, v))) ps' (fv v (ff f u)))
    \<and> boundary s_header_value_lws (p + length (header_text (f, v))) ps'"
proof -
  let ?st = "listener ff fv fm"
  obtain c cs where f: "f = c # cs" "TOKEN c \<noteq> 0" "\<forall>c \<in> set cs. TOKEN c \<noteq> 0"
    using assms(3) by (auto simp: header_ok_def name_ok_def neq_Nil_conv)
  obtain b bs where v: "v = b # bs" "b \<noteq> SP" "b \<noteq> TAB" "b \<noteq> CR" "b \<noteq> LF"
    "\<forall>c \<in> set bs. IS_HEADER_CHAR c \<and> c \<noteq> CR \<and> c \<noteq> LF"
    using assms(3) by (auto simp: header_ok_def value_ok_def neq_Nil_conv)
  let ?q1 = "p + length f" and ?q2 = "Suc (p + length f)" and ?q3 = "Suc (Suc (p + length f))"
  let ?q4 = "?q3 + length v"
  have d0: "drop p data = c # cs @ CHR '':'' # SP # b # bs @ CR # LF # r"
    using assms(2) f v by (simp add: header_text_def CRLF_def SP_def)
  have d1: "drop (Suc p) data = cs @ CHR '':'' # SP # b # bs @ CR # LF # r" using drop_Cons(3) [OF d0] .
  have "drop ?q1 data = CHR '':'' # SP # b # bs @ CR # LF # r"
    using drop_append [of "Suc p" data cs] d1 f(1) by simp
  then have d2: "drop ?q2 data = SP # b # bs @ CR # LF # r" by (rule drop_Cons(3))
  then have d3: "drop ?q3 data = b # bs @ CR # LF # r" by (rule drop_Cons(3))
  then have d4: "drop (Suc ?q3) data = bs @ CR # LF # r" by (rule drop_Cons(3))
  have d5: "drop (Suc ?q4) data = LF # r"
    using drop_append [of "Suc ?q3" data "bs @ [CR]"] d4 v(1) by simp
  have name: "take (?q1 - p) (drop p data) = f" using d0 f(1) by simp
  have val: "take (?q4 - ?q3) (drop ?q3 data) = v" using d3 v(1) by simp
  obtain ps1 where 1: "exec_loop ?st data (at_pos s p ps u) =
      exec_loop ?st data ((at_pos s_header_field (Suc p) ps1 u)\<lparr>header_field_mark := Some p\<rparr>)"
    "bodyless (Suc p) ps1" "matcher_inv [TOKEN c] ps1" "header_state ps1 \<in> field_matchers"
    using name_start [OF assms(1) d0 f(2) assms(4), where st = ?st and u = u] by blast
  obtain ps2 where 2: "exec_loop ?st data ((at_pos s_header_field (Suc p) ps1 u)\<lparr>header_field_mark := Some p\<rparr>) =
      exec_loop ?st data (at_pos s_header_value_discard_ws ?q2 ps2 (ff f u))"
    "bodyless ?q2 ps2" "matcher_inv (map TOKEN f) ps2" "header_state ps2 \<in> field_matchers"
    using name_end [OF d1 f(3) assms(4) 1(2-4), where ff = ff and fv = fv and fm = fm and u = u and m = p] name f(1) by auto
  have h: "header_state ps2 \<noteq> h_content_length" "header_state ps2 \<noteq> h_transfer_encoding"
    using 2(3) assms(3) by (auto simp: matcher_inv_def header_ok_def name_ok_def)
  have 3: "exec_loop ?st data (at_pos s_header_value_discard_ws ?q2 ps2 (ff f u)) =
      exec_loop ?st data (at_pos s_header_value_discard_ws ?q3 (bump ps2) (ff f u))"
    by (rule step [OF d2 assms(4)])
       (use 2(2) in \<open>simp_all add: bodyless_def parsing_simps exec_state_def exec_header_ws_def\<close>)
  obtain ps3 where 4: "exec_loop ?st data (at_pos s_header_value_discard_ws ?q3 (bump ps2) (ff f u)) =
      exec_loop ?st data ((at_pos s_header_value (Suc ?q3) ps3 (ff f u))\<lparr>header_value_mark := Some ?q3\<rparr>)"
    "bodyless (Suc ?q3) ps3" "header_state ps3 \<in> value_matchers"
    using value_start [OF d3 assms(4) bodyless_bump [OF 2(2)] v(2-5), where st = ?st and u = "ff f u"] 2(4) h by auto
  obtain ps4 where 5: "exec_loop ?st data ((at_pos s_header_value (Suc ?q3) ps3 (ff f u))\<lparr>header_value_mark := Some ?q3\<rparr>) =
      exec_loop ?st data (at_pos s_header_almost_done (Suc ?q4) ps4 (fv v (ff f u)))"
    "bodyless (Suc ?q4) ps4" "header_state ps4 \<in> value_matchers"
    using value_line [OF d4 v(6) assms(4) 4(2,3), where ff = ff and fv = fv and fm = fm and u = "ff f u" and m = ?q3] val v(1) by auto
  have 6: "exec_loop ?st data (at_pos s_header_almost_done (Suc ?q4) ps4 (fv v (ff f u))) =
      exec_loop ?st data (at_pos s_header_value_lws (Suc (Suc ?q4)) (bump ps4) (fv v (ff f u)))"
    by (rule step [OF d5 assms(4)])
       (use 5(2) in \<open>simp_all add: bodyless_def parsing_simps exec_state_def exec_header_ws_def\<close>)
  have "boundary s_header_value_lws (Suc (Suc ?q4)) (bump ps4)"
    using bodyless_bump [OF 5(2)] 5(3) by (auto simp: boundary_def value_matchers_def)
  moreover have l: "p + length (header_text (f, v)) = Suc (Suc ?q4)" by (simp add: header_text_def CRLF_def)
  ultimately show ?thesis unfolding l 1(1) 2(1) 3 4(1) 5(1) 6 by blast
qed

definition heard :: "(string \<Rightarrow> 'u \<Rightarrow> 'u) \<Rightarrow> (string \<Rightarrow> 'u \<Rightarrow> 'u) \<Rightarrow> header_line list \<Rightarrow> 'u \<Rightarrow> 'u" where
  "heard ff fv hs u = fold (\<lambda>(f, v) u. fv v (ff f u)) hs u"

lemma header_lines:
  assumes "boundary s p ps" "drop p data = concat (map header_text hs) @ r" "\<forall>h \<in> set hs. header_ok h"
    and "length data \<le> HTTP_MAX_HEADER_SIZE"
  shows "\<exists>s' ps' p'. exec_loop (listener ff fv fm) data (at_pos s p ps u) =
      exec_loop (listener ff fv fm) data (at_pos s' p' ps' (heard ff fv hs u)) \<and> boundary s' p' ps'
    \<and> drop p' data = r"
  using assms
proof (induction hs arbitrary: s p ps u)
  case Nil
  then show ?case by (auto simp: heard_def)
next
  case (Cons h hs)
  obtain f v where h: "h = (f, v)" by fastforce
  have d: "drop p data = header_text (f, v) @ concat (map header_text hs) @ r" using Cons.prems(2) h by simp
  obtain ps1 where 1: "exec_loop (listener ff fv fm) data (at_pos s p ps u) =
      exec_loop (listener ff fv fm) data (at_pos s_header_value_lws (p + length (header_text (f, v))) ps1 (fv v (ff f u)))"
    "boundary s_header_value_lws (p + length (header_text (f, v))) ps1"
    using header_line [OF Cons.prems(1) d _ Cons.prems(4), where ff = ff and fv = fv and fm = fm and u = u] Cons.prems(3) h by auto
  from Cons.IH [OF 1(2) drop_append [OF d] _ Cons.prems(4), where u = "fv v (ff f u)"] Cons.prems(3) 1(1) h
  show ?case by (simp add: heard_def)
qed

section \<open>The end of the message\<close>

lemma message_end:
  assumes "boundary s p ps" "drop p data = CRLF" "length data \<le> HTTP_MAX_HEADER_SIZE"
  shows "\<exists>ps'. exec_exit (exec_loop (listener ff fv fm) data (at_pos s p ps u)) = Inr (length data, ps', fm u)
    \<and> hp_errno ps' = HPE_OK"
proof -
  let ?st = "listener ff fv fm"
  have d: "drop p data = CR # [LF]" using assms(2) by (simp add: CRLF_def)
  note d1 = drop_Cons [OF d]
  note d2 = drop_Cons [OF d1(3)]
  have len: "length data = Suc (Suc p)" using d by (metis d2(1,3) drop_eq_Nil le_antisym Suc_leI)
  have b: "bodyless p ps" "PARSING_HEADER s" using assms(1) by (auto simp: boundary_def parsing_simps)
  have "CR \<noteq> SP" "CR \<noteq> TAB" by (simp_all add: CR_def SP_def TAB_def)
  from boundary_run [OF assms(1) d this, where st = ?st and u = u]
  obtain ps1 where 1: "run_state ?st data (at_pos s p (bump ps) u) =
      run_state ?st data (at_pos s_header_field_start p ps1 u)" "bodyless (Suc p) ps1" by (elim exE conjE)
  have "exec_state ?st data (at_pos s_header_field_start p ps1 u) = Break (at_pos s_headers_almost_done p ps1 u)"
    using d1 by (simp add: exec_state_def exec_header_field_start_def)
  then have "run_state ?st data (at_pos s_header_field_start p ps1 u) = Break (at_pos s_headers_almost_done p ps1 u)"
    by (rule run_break [rotated]) (simp add: d1)
  then have "exec_char ?st data (at_pos s p ps u) = Break (at_pos s_headers_almost_done p ps1 u)"
    using exec_char_header [of "at_pos s p ps u" data ?st] d1 assms(3) b 1(1) by (simp add: bodyless_def)
  then have 2: "exec_loop ?st data (at_pos s p ps u) = exec_loop ?st data (at_pos s_headers_almost_done (Suc p) ps1 u)"
    using exec_loop_char [of "at_pos s p ps u" data ?st] d1 by simp
  define ps2 where "ps2 = set_upgrade (bump ps1)"
  have b2: "bodyless (Suc (Suc p)) ps2"
    using bodyless_bump [OF 1(2)] by (simp add: ps2_def set_upgrade_def)
  let ?x = "at_pos s_headers_almost_done (Suc p) ps1 u"
  have "exec_state ?st data (upd bump ?x) = Reexec (at_pos s_headers_done (Suc p) ps2 u)"
    using d2 1(2) b2
    by (simp add: exec_state_def exec_headers_almost_done_def headers_complete_result_def ps2_def bodyless_def Let_def)
  then have "run_state ?st data (upd bump ?x) = run_state ?st data (at_pos s_headers_done (Suc p) ps2 u)"
    by (rule run_reexec [rotated]) (simp add: d2)
  then have 3: "exec_char ?st data ?x = run_state ?st data (at_pos s_headers_done (Suc p) ps2 u)"
    using exec_char_header [of ?x data ?st] d2 assms(3) 1(2) by (simp add: bodyless_def parsing_simps)
  define n where "n = NEW_MESSAGE (ps2\<lparr>hp_nread := 0\<rparr>)"
  define ps3 where "ps3 = ps2\<lparr>hp_nread := 0, hp_state := n\<rparr>"
  have e: "hp_errno ps3 = HPE_OK" using b2 by (simp add: ps3_def bodyless_def)
  have "exec_state ?st data (at_pos s_headers_done (Suc p) ps2 u) =
      (if hp_upgrade ps2 then RETURN (Suc (Suc p)) (at_pos n (Suc p) ps3 (fm u))
       else Break (at_pos n (Suc p) ps3 (fm u)))"
    using d2 b2
    by (simp add: exec_state_def exec_headers_done_def message_complete_def CALLBACK_NOTIFY_def after_cb_def
          cb_pause_def assert_that_def
          Let_def bodyless_def ULLONG_MAX_def http_message_needs_eof_def n_def ps3_def)
  then have 4: "exec_char ?st data ?x =
      (if hp_upgrade ps2 then RETURN (Suc (Suc p)) (at_pos n (Suc p) ps3 (fm u))
       else Break (at_pos n (Suc p) ps3 (fm u)))"
    using 3 d2 by (subst (asm) run_state.simps) (auto simp: RETURN_def)
  have fin: "exec_loop ?st data (at_pos n (Suc (Suc p)) ps3 (fm u)) = RETURN (length data) (at_pos n (Suc (Suc p)) ps3 (fm u))"
    using e
    by (subst exec_loop.simps)
       (simp add: len finish_chunk_def marks_set_def assert_that_def CALLBACK_DATA_NOADVANCE_def CALLBACK_DATA_TO_def)
  have "\<exists>ps'. exec_exit (exec_loop ?st data ?x) = Inr (length data, ps', fm u) \<and> hp_errno ps' = HPE_OK"
    using 4 d2 len e fin by (subst exec_loop.simps) (simp add: RETURN_def exec_exit_def)
  then show ?thesis using 2 by simp
qed

section \<open>The request\<close>

lemma request_run:
  assumes "url_ok url" "\<forall>h \<in> set hs. header_ok h" "length (request_text url hs) \<le> HTTP_MAX_HEADER_SIZE"
  shows "\<exists>ps. http_parser_execute (listener ff fv fm) (http_parser_init HTTP_REQUEST) u (request_text url hs) =
      Inr (length (request_text url hs), ps, fm (heard ff fv hs u)) \<and> hp_errno ps = HPE_OK"
proof -
  let ?st = "listener ff fv fm" and ?data = "request_text url hs" and ?ps0 = "http_parser_init HTTP_REQUEST"
  let ?r = "concat (map header_text hs) @ CRLF"
  have d0: "drop 0 ?data = ''GET '' @ url @ SP # ''HTTP/1.1'' @ CRLF @ ?r"
    by (simp add: request_text_def SP_def)
  have entry: "exec_entry ?ps0 u = at_pos s_start_req 0 ?ps0 u"
    by (simp add: exec_entry_def at_pos_def http_parser_init_def url_states_def)
  obtain ps1 where 1: "exec_loop ?st ?data (at_pos s_start_req 0 ?ps0 u) =
      exec_loop ?st ?data (at_pos s_req_spaces_before_url 4 ps1 u)" "bodyless 4 ps1" "hp_method ps1 = HTTP_GET"
    using run_method [OF d0 assms(3), of ff fv fm u] by blast
  have d1: "drop 4 ?data = url @ SP # ''HTTP/1.1'' @ CRLF @ ?r"
    using drop_append [OF d0] by (simp add: eval_nat_numeral)
  obtain ps2 where 2: "exec_loop ?st ?data (at_pos s_req_spaces_before_url 4 ps1 u) =
      exec_loop ?st ?data (at_pos s_req_http_start (Suc (4 + length url)) ps2 u)" "bodyless (Suc (4 + length url)) ps2"
    using run_url [OF d1 assms(3) 1(2) assms(1) 1(3), of ff fv fm u] by blast
  let ?p = "Suc (4 + length url)"
  have d2: "drop ?p ?data = ''HTTP/1.1'' @ CRLF @ ?r"
    using drop_append [of 4 ?data "url @ [SP]"] d1 by simp
  obtain ps3 where 3: "exec_loop ?st ?data (at_pos s_req_http_start ?p ps2 u) =
      exec_loop ?st ?data (at_pos s_header_field_start (?p + 10) ps3 u)" "bodyless (?p + 10) ps3"
    using run_version [OF d2 assms(3) 2(2), of ?st u] by blast
  have d3: "drop (?p + 10) ?data = ?r"
    using drop_append [of ?p ?data "''HTTP/1.1'' @ CRLF"] d2 by (simp add: CRLF_def)
  have "boundary s_header_field_start (?p + 10) ps3" using 3(2) by (simp add: boundary_def)
  from header_lines [OF this d3 assms(2,3), of ff fv fm u] obtain s' ps4 p' where
    4: "exec_loop ?st ?data (at_pos s_header_field_start (?p + 10) ps3 u) =
      exec_loop ?st ?data (at_pos s' p' ps4 (heard ff fv hs u))" "boundary s' p' ps4" "drop p' ?data = CRLF" by blast
  obtain ps5 where 5: "exec_exit (exec_loop ?st ?data (at_pos s' p' ps4 (heard ff fv hs u))) =
      Inr (length ?data, ps5, fm (heard ff fv hs u))" "hp_errno ps5 = HPE_OK"
    using message_end [OF 4(2,3) assms(3), of ff fv fm "heard ff fv hs u"] by blast
  have "?data \<noteq> []" "hp_errno ?ps0 = HPE_OK" by (simp_all add: request_text_def http_parser_init_def)
  then show ?thesis using 1(1) 2(1) 3(1) 4(1) 5 entry by (simp add: http_parser_execute_def)
qed

text \<open>
  C17: A well-formed request without a body, given to a fresh parser in one piece, is taken to its
  last byte without an error, and the listener hears every header name and every value, in the
  order of the text, and then the end of the message, once.
\<close>
theorem request_heard:
  assumes "url_ok url" "\<forall>h \<in> set hs. header_ok h" "length (request_text url hs) \<le> HTTP_MAX_HEADER_SIZE"
  shows "\<exists>ps. http_parser_execute (listener ff fv fm) (http_parser_init HTTP_REQUEST) u (request_text url hs) =
      Inr (length (request_text url hs), ps, fm (heard ff fv hs u)) \<and> hp_errno ps = HPE_OK"
  using assms by (rule request_run)

lemma request_heard_witness:
  "\<exists>ps. http_parser_execute (listener (\<lambda>f u. u @ [f]) (\<lambda>v u. u @ [v]) (\<lambda>u. u @ [''end'']))
      (http_parser_init HTTP_REQUEST) [] (request_text ''/ws'' [(''Host'', ''a''), (''Upgrade'', ''websocket'')]) =
    Inr (49, ps, [''Host'', ''a'', ''Upgrade'', ''websocket'', ''end'']) \<and> hp_errno ps = HPE_OK"
proof -
  let ?hs = "[(''Host'', ''a''), (''Upgrade'', ''websocket'')]"
  have "url_ok ''/ws''" by (simp add: url_ok_def IS_URL_CHAR_def table_at_def normal_url_char_def code_def bit_0)
  moreover have "\<forall>h \<in> set ?hs. header_ok h"
    by (simp add: header_ok_def name_ok_def value_ok_def TOKEN_def table_at_def tokens_def IS_HEADER_CHAR_def
          CONTENT_LENGTH_def TRANSFER_ENCODING_def char_defs)
  moreover have "length (request_text ''/ws'' ?hs) = 49" by (simp add: request_text_def header_text_def CRLF_def)
  ultimately show ?thesis
    using request_heard [of "''/ws''" ?hs "\<lambda>f u. u @ [f]" "\<lambda>v u. u @ [v]" "\<lambda>u. u @ [''end'']" "[]"]
    by (simp add: HTTP_MAX_HEADER_SIZE_def heard_def)
qed

end
