(* ===== verification/Base64.thy ===== *)
theory Base64
  imports Tp_Protocol
begin

text \<open>
  Base64, \<open>3rd/crypto/base64_encoder.c\<close> and \<open>base64_decoder.c\<close>. The loops over an index of
  the text are recursions over what is left of it; the output buffer is the list of what was
  written to it, compared in the end with the room that was allocated for it. The sizes are
  \<open>int\<close>s and \<open>size_t\<close>s of 32 bits: the encoder's size overflows from 1610612734 bytes on.
\<close>

section \<open>Encoding\<close>

definition encoding :: string where
  "encoding = ''ABCDEFGHIJKLMNOPQRSTUVWXYZabcdefghijklmnopqrstuvwxyz0123456789+/''"

text \<open>The main loop, with what it leaves: the last zero to two bytes.\<close>

fun base64_encode_loop :: "byte list \<Rightarrow> string \<times> byte list" where
  "base64_encode_loop (t0 # t1 # t2 # ts) =
     (let v = push_bit 16 (ucast t0) OR push_bit 8 (ucast t1) OR ucast t2 :: u32;
          (buffer, rest) = base64_encode_loop ts
      in (encoding ! unat (drop_bit 18 v) # encoding ! unat (drop_bit 12 v AND 0x3f)
          # encoding ! unat (drop_bit 6 v AND 0x3f) # encoding ! unat (v AND 0x3f) # buffer, rest))"
| "base64_encode_loop ts = ([], ts)"

definition base64_encode_tail :: "byte list \<Rightarrow> string" where
  "base64_encode_tail ts =
     (case ts of
        [t0] \<Rightarrow>
          (let v = ucast t0 :: u32
           in [encoding ! unat (drop_bit 2 v), encoding ! unat (push_bit 4 (v AND 3)), CHR ''='', CHR ''=''])
      | [t0, t1] \<Rightarrow>
          (let v = push_bit 8 (ucast t0) OR ucast t1 :: u32
           in [encoding ! unat (drop_bit 10 v), encoding ! unat (drop_bit 4 v AND 0x3f),
               encoding ! unat (push_bit 2 (v AND 0xf)), CHR ''=''])
      | _ \<Rightarrow> [])"

definition base64_text :: "byte list \<Rightarrow> string" where
  "base64_text text = (let (buffer, rest) = base64_encode_loop text in buffer @ base64_encode_tail rest)"

definition SMALL_CHUNK :: int where
  "SMALL_CHUNK = 256"

text \<open>\<open>(sz + 2) / 3 * 4\<close>, in \<open>int\<close>.\<close>

definition base64_encode_size :: "int \<Rightarrow> int result" where
  "base64_encode_size sz = rbind (c_int (sz + 2)) (\<lambda>a. c_int (a div 3 * 4))"

text \<open>The buffer, as a C string, and \<open>*out_esz\<close>; \<open>room\<close> is the size given to \<open>malloc\<close>.\<close>

definition base64_encode :: "byte list \<Rightarrow> (string \<times> int) result" where
  "base64_encode text =
     rbind (base64_encode_size (int (length text))) (\<lambda>encode_sz.
       let room = (if encode_sz \<ge> SMALL_CHUNK then encode_sz + 1 else SMALL_CHUNK);
           buffer = base64_text text
       in if room < int (length buffer) + 1 then Inl OutOfBounds else Inr (buffer, encode_sz))"

section \<open>Decoding\<close>

definition b64_decoding :: "int list" where
  "b64_decoding =
     [62, -1, -1, -1, 63, 52, 53, 54, 55, 56, 57, 58, 59, 60, 61, -1, -1, -1, -2, -1, -1, -1,
      0, 1, 2, 3, 4, 5, 6, 7, 8, 9, 10, 11, 12, 13, 14, 15, 16, 17, 18, 19, 20, 21, 22, 23, 24, 25,
      -1, -1, -1, -1, -1, -1, 26, 27, 28, 29, 30, 31, 32, 33, 34, 35, 36, 37, 38, 39, 40, 41, 42,
      43, 44, 45, 46, 47, 48, 49, 50, 51]"

definition b64index :: "byte \<Rightarrow> int" where
  "b64index c =
     (if unat c < 43 then -1
      else if unat c - 43 \<ge> length b64_decoding then -1
      else b64_decoding ! (unat c - 43))"

text \<open>The inner loop: the next four characters that belong to the alphabet or are padding.\<close>

fun b64_quad :: "nat \<Rightarrow> byte list \<Rightarrow> (int list \<times> byte list) option" where
  "b64_quad 0 text = Some ([], text)"
| "b64_quad (Suc j) [] = None"
| "b64_quad (Suc j) (t # ts) =
     (let c = b64index t in
      if c = -1 then b64_quad (Suc j) ts
      else case b64_quad j ts of None \<Rightarrow> None | Some (cs, rest) \<Rightarrow> Some (c # cs, rest))"

definition b64_emit :: "int list \<Rightarrow> byte list option" where
  "b64_emit c =
     (let padding = length (filter (\<lambda>x. x = -2) c);
          w = (\<lambda>k. word_of_int (c ! k) :: u32)
      in if padding = 0 then
           (let v = push_bit 18 (w 0) OR push_bit 12 (w 1) OR push_bit 6 (w 2) OR w 3
            in Some [ucast (drop_bit 16 v), ucast (drop_bit 8 v AND 0xff), ucast (v AND 0xff)])
         else if padding = 1 then
           (if c ! 3 \<noteq> -2 \<or> w 2 AND 3 \<noteq> 0 then None
            else let v = push_bit 10 (w 0) OR push_bit 4 (w 1) OR drop_bit 2 (w 2)
                 in Some [ucast (drop_bit 8 v), ucast (v AND 0xff)])
         else if padding = 2 then
           (if c ! 3 \<noteq> -2 \<or> c ! 2 \<noteq> -2 \<or> w 1 AND 0xf \<noteq> 0 then None
            else let v = push_bit 2 (w 0) OR drop_bit 4 (w 1) in Some [ucast v])
         else None)"

lemma b64_quad_shorter: "b64_quad (Suc j) text = Some (cs, rest) \<Longrightarrow> length rest < length text"
proof (induction "Suc j" "text" arbitrary: j cs rule: b64_quad.induct)
  case (3 j t ts)
  show ?case
  proof (cases "b64index t = -1")
    case True
    with 3 show ?thesis by (fastforce simp: Let_def)
  next
    case False
    with 3(3) obtain cs' where q: "b64_quad j ts = Some (cs', rest)"
      by (auto simp: Let_def split: option.splits)
    show ?thesis
    proof (cases j)
      case 0
      with q show ?thesis by simp
    next
      case (Suc k)
      with 3(2) [OF refl False Suc] q show ?thesis by fastforce
    qed
  qed
qed simp

text \<open>The outer loop.\<close>

function base64_decode_loop :: "byte list \<Rightarrow> byte list option" where
  "base64_decode_loop text =
     (if text = [] then Some []
      else case b64_quad 4 text of
        None \<Rightarrow> None
      | Some (c, rest) \<Rightarrow>
          (case b64_emit c of
             None \<Rightarrow> None
           | Some out \<Rightarrow>
               (case base64_decode_loop rest of None \<Rightarrow> None | Some more \<Rightarrow> Some (out @ more))))"
  by pat_completeness auto
termination
  by (relation "measure length") (auto simp: eval_nat_numeral intro: b64_quad_shorter)

declare base64_decode_loop.simps [simp del]

text \<open>
  \<open>None\<close> is the null pointer; otherwise the buffer up to \<open>*out_size\<close>. The loop runs to
  \<open>(int)sz\<close>, which is negative for a text of 2 GB or more.
\<close>

definition base64_decode :: "byte list \<Rightarrow> byte list option result" where
  "base64_decode text =
     (let sz = word_of_nat (length text) :: u32;
          decode_sz = sint ((sz + 3) div 4 * 3 + 1);
          room = (if decode_sz > SMALL_CHUNK then decode_sz else SMALL_CHUNK)
      in case base64_decode_loop (take (nat (sint sz)) text) of
           None \<Rightarrow> Inr None
         | Some buffer \<Rightarrow>
             if room < int (length buffer) + 1 then Inl OutOfBounds else Inr (Some buffer))"

section \<open>The alphabet\<close>

lemma mask_words: "(0x3f :: u32) = mask 6" "(0xff :: u32) = mask 8" "(3 :: u32) = mask 2"
  "(0xf :: u32) = mask 4"
  by (simp_all add: mask_numeral)

definition char_index :: "char \<Rightarrow> int" where
  "char_index c =
     (let k = of_char c :: nat
      in if k < 43 \<or> k \<ge> 123 then -1 else b64_decoding ! (k - 43))"

lemma b64index_char: "b64index (byte_of_char c) = char_index c"
  by (auto simp: b64index_def char_index_def unat_byte_of_char b64_decoding_def Let_def)

lemma alphabet_index_all: "map char_index encoding = map int [0..<64]"
  by code_simp

lemma alphabet_index:
  assumes "k < 64"
  shows "b64index (byte_of_char (encoding ! k)) = int k"
proof -
  have "length encoding = 64" using arg_cong [OF alphabet_index_all, of length] by simp
  then show ?thesis
    using arg_cong [OF alphabet_index_all, of "\<lambda>xs. xs ! k"] assms by (simp add: b64index_char)
qed

lemma pad_index: "b64index (byte_of_char CHR ''='') = -2"
  unfolding b64index_char by code_simp

lemma unat_lt64: "unat (w AND 0x3f :: u32) < 64"
proof -
  have "unat (take_bit 6 w) < 2 ^ 6" by (simp only: unsigned_take_bit_eq take_bit_nat_less_exp)
  then show ?thesis by (simp add: mask_words take_bit_eq_mask)
qed

lemma lt64_if:
  assumes "(w :: u32) AND 0x3f = w"
  shows "unat w < 64"
  using unat_lt64 [of w] assms by simp

lemma quad_alphabet:
  assumes "i < 64"
  shows "b64_quad (Suc j) (byte_of_char (encoding ! i) # ts) =
    map_option (\<lambda>(cs, rest). (int i # cs, rest)) (b64_quad j ts)"
  using assms by (auto simp: alphabet_index Let_def split: option.splits)

lemma quad_pad:
  "b64_quad (Suc j) (byte_of_char CHR ''='' # ts) =
    map_option (\<lambda>(cs, rest). (-2 # cs, rest)) (b64_quad j ts)"
  by (auto simp: pad_index Let_def split: option.splits)

section \<open>One group\<close>

definition group24 :: "byte \<Rightarrow> byte \<Rightarrow> byte \<Rightarrow> u32" where
  "group24 a b c = push_bit 16 (ucast a) OR push_bit 8 (ucast b) OR ucast c"

lemma group24_bits:
  "drop_bit 18 (group24 a b c) AND 0x3f = drop_bit 18 (group24 a b c)"
  "ucast (drop_bit 16 (group24 a b c)) = a" "ucast (drop_bit 8 (group24 a b c) AND 0xff) = b"
  "ucast (group24 a b c AND 0xff) = c"
  by (rule bit_word_eqI; auto simp: group24_def mask_words bit_simps dest: bit_imp_le_length)+

lemma reassemble24:
  "push_bit 18 (drop_bit 18 v) OR push_bit 12 (drop_bit 12 v AND 0x3f)
     OR push_bit 6 (drop_bit 6 v AND 0x3f) OR (v AND 0x3f) = (v :: u32)"
proof (rule bit_word_eqI)
  fix n
  show "bit (push_bit 18 (drop_bit 18 v) OR push_bit 12 (drop_bit 12 v AND 0x3f)
     OR push_bit 6 (drop_bit 6 v AND 0x3f) OR (v AND 0x3f)) n = bit v n" if "n < LENGTH(32)"
    using that by (cases "n < 6"; cases "n < 12"; cases "n < 18") (auto simp: mask_words bit_simps)
qed

definition group16 :: "byte \<Rightarrow> byte \<Rightarrow> u32" where
  "group16 a b = push_bit 8 (ucast a) OR ucast b"

lemma group16_bits:
  "drop_bit 10 (group16 a b) AND 0x3f = drop_bit 10 (group16 a b)"
  "push_bit 2 (group16 a b AND 0xf) AND 0x3f = push_bit 2 (group16 a b AND 0xf)"
  "push_bit 2 (group16 a b AND 0xf) AND 3 = 0"
  "ucast (drop_bit 8 (group16 a b)) = a" "ucast (group16 a b AND 0xff) = b"
  by (rule bit_word_eqI; auto simp: group16_def mask_words bit_simps dest: bit_imp_le_length)+

lemma reassemble16:
  "push_bit 10 (drop_bit 10 v) OR push_bit 4 (drop_bit 4 v AND 0x3f)
     OR drop_bit 2 (push_bit 2 (v AND 0xf)) = (v :: u32)"
proof (rule bit_word_eqI)
  fix n
  have "2 \<le> n \<Longrightarrow> Suc (Suc (n - 2)) = n" by simp
  then show "bit (push_bit 10 (drop_bit 10 v) OR push_bit 4 (drop_bit 4 v AND 0x3f)
     OR drop_bit 2 (push_bit 2 (v AND 0xf))) n = bit v n" if "n < LENGTH(32)"
    using that by (cases "n < 4"; cases "n < 10") (auto simp: mask_words bit_simps)
qed

lemma group8_bits:
  "drop_bit 2 (ucast (a :: byte) :: u32) AND 0x3f = drop_bit 2 (ucast a)"
  "push_bit 4 ((ucast a :: u32) AND 3) AND 0x3f = push_bit 4 (ucast a AND 3)"
  "push_bit 4 ((ucast a :: u32) AND 3) AND 0xf = 0"
  by (rule bit_word_eqI; auto simp: mask_words bit_simps dest: bit_imp_le_length)+

lemma reassemble8:
  "push_bit 2 (drop_bit 2 v) OR drop_bit 4 (push_bit 4 (v AND 3)) = (v :: u32)"
proof (rule bit_word_eqI)
  fix n
  have "2 \<le> n \<Longrightarrow> Suc (Suc (n - 2)) = n" by simp
  then show "bit (push_bit 2 (drop_bit 2 v) OR drop_bit 4 (push_bit 4 (v AND 3))) n = bit v n" if "n < LENGTH(32)"
    using that by (cases "n < 2") (auto simp: mask_words bit_simps)
qed

section \<open>Round trip\<close>

lemma word_int_unat [simp]: "(word_of_int (int (unat (w :: u32))) :: u32) = w"
  by simp

lemma decode_loop_eq:
  assumes "b64_quad 4 ts = Some (c, rest)" "b64_emit c = Some out"
  shows "base64_decode_loop ts = map_option (\<lambda>more. out @ more) (base64_decode_loop rest)"
proof -
  have "ts \<noteq> []" using assms(1) by (auto simp: eval_nat_numeral)
  with assms show ?thesis by (subst base64_decode_loop.simps) (simp split: option.splits)
qed

lemma b64_quad_two:
  assumes "a < 64" "b < 64"
  shows "b64_quad (Suc (Suc j)) (byte_of_char (encoding ! a) # byte_of_char (encoding ! b) # ts) =
      map_option (\<lambda>(cs, rest). (int a # int b # cs, rest)) (b64_quad j ts)"
    "b64_quad (Suc (Suc j)) (byte_of_char (encoding ! a) # byte_of_char CHR ''='' # ts) =
      map_option (\<lambda>(cs, rest). (int a # -2 # cs, rest)) (b64_quad j ts)"
    "b64_quad (Suc (Suc j)) (byte_of_char CHR ''='' # byte_of_char CHR ''='' # ts) =
      map_option (\<lambda>(cs, rest). (-2 # -2 # cs, rest)) (b64_quad j ts)"
  using assms
  by (simp_all add: quad_alphabet quad_pad option.map_comp comp_def case_prod_unfold del: b64_quad.simps)

lemma b64_quad_0: "b64_quad 0 ts = Some ([], ts)"
  by simp

lemma four: "b64_quad 4 = b64_quad (Suc (Suc (Suc (Suc 0))))"
  by (rule arg_cong [where f = b64_quad]) simp

lemma uint_neq_m2 [simp]: "uint (w :: u32) \<noteq> - 2"
  using uint_ge_0 [of w] by linarith

lemma ucast_back: "ucast (ucast (a :: byte) :: u32) = a"
  by (rule bit_word_eqI) (auto simp: bit_simps)

lemma emit_group24:
  "b64_emit [int (unat (drop_bit 18 (group24 a b c))), int (unat (drop_bit 12 (group24 a b c) AND 0x3f)),
     int (unat (drop_bit 6 (group24 a b c) AND 0x3f)), int (unat (group24 a b c AND 0x3f))] = Some [a, b, c]"
  using reassemble24 [of "group24 a b c"] by (simp add: b64_emit_def Let_def group24_bits)

lemma emit_group16:
  "b64_emit [int (unat (drop_bit 10 (group16 a b))), int (unat (drop_bit 4 (group16 a b) AND 0x3f)),
     int (unat (push_bit 2 (group16 a b AND 0xf))), -2] = Some [a, b]"
  using reassemble16 [of "group16 a b"] by (simp add: b64_emit_def Let_def group16_bits del: push_bit_and)

lemma emit_group8:
  "b64_emit [int (unat (drop_bit 2 (ucast (a :: byte) :: u32))), int (unat (push_bit 4 ((ucast a :: u32) AND 3))),
     -2, -2] = Some [a]"
  using reassemble8 [of "ucast a"] by (simp add: b64_emit_def Let_def group8_bits ucast_back del: push_bit_and)

lemma decode_encode_loop:
  "base64_decode_loop (map byte_of_char (fst (base64_encode_loop ts) @ base64_encode_tail (snd (base64_encode_loop ts))))
     = Some ts"
proof (induction ts rule: base64_encode_loop.induct [case_names Three Nil One Two])
  case (Three a b c ts)
  let ?v = "group24 a b c"
  let ?more = "map byte_of_char (fst (base64_encode_loop ts) @ base64_encode_tail (snd (base64_encode_loop ts)))"
  have t: "map byte_of_char (fst (base64_encode_loop (a # b # c # ts)) @
      base64_encode_tail (snd (base64_encode_loop (a # b # c # ts)))) =
    byte_of_char (encoding ! unat (drop_bit 18 ?v)) # byte_of_char (encoding ! unat (drop_bit 12 ?v AND 0x3f))
    # byte_of_char (encoding ! unat (drop_bit 6 ?v AND 0x3f)) # byte_of_char (encoding ! unat (?v AND 0x3f))
    # ?more"
    by (simp add: group24_def Let_def case_prod_unfold)
  have q: "b64_quad 4 (byte_of_char (encoding ! unat (drop_bit 18 ?v)) # byte_of_char (encoding ! unat (drop_bit 12 ?v AND 0x3f))
    # byte_of_char (encoding ! unat (drop_bit 6 ?v AND 0x3f)) # byte_of_char (encoding ! unat (?v AND 0x3f))
    # ?more) = Some ([int (unat (drop_bit 18 ?v)), int (unat (drop_bit 12 ?v AND 0x3f)),
      int (unat (drop_bit 6 ?v AND 0x3f)), int (unat (?v AND 0x3f))], ?more)"
    by (simp only: four b64_quad_two(1) [OF lt64_if [OF group24_bits(1)] unat_lt64]
        b64_quad_two(1) [OF unat_lt64 unat_lt64] b64_quad_0 option.map prod.case)
  have IH: "base64_decode_loop ?more = Some ts" by (rule Three) simp
  show ?case unfolding t decode_loop_eq [OF q emit_group24] IH by simp
next
  case Nil
  then show ?case by (simp add: base64_encode_tail_def base64_decode_loop.simps)
next
  case (One a)
  let ?v = "ucast a :: u32"
  have t: "map byte_of_char (fst (base64_encode_loop [a]) @ base64_encode_tail (snd (base64_encode_loop [a]))) =
    [byte_of_char (encoding ! unat (drop_bit 2 ?v)), byte_of_char (encoding ! unat (push_bit 4 (?v AND 3))),
     byte_of_char CHR ''='', byte_of_char CHR ''='']"
    by (simp add: base64_encode_tail_def Let_def)
  have q: "b64_quad 4 [byte_of_char (encoding ! unat (drop_bit 2 ?v)), byte_of_char (encoding ! unat (push_bit 4 (?v AND 3))),
     byte_of_char CHR ''='', byte_of_char CHR ''=''] =
     Some ([int (unat (drop_bit 2 ?v)), int (unat (push_bit 4 (?v AND 3))), -2, -2], [])"
    by (simp only: four b64_quad_two(1) [OF lt64_if [OF group8_bits(1)] lt64_if [OF group8_bits(2)]]
        b64_quad_two(3) [OF lt64_if [OF group8_bits(1)] lt64_if [OF group8_bits(2)]]
        b64_quad_0 option.map prod.case)
  show ?case unfolding t decode_loop_eq [OF q emit_group8] by (simp add: base64_decode_loop.simps)
next
  case (Two a b)
  let ?v = "group16 a b"
  have t: "map byte_of_char (fst (base64_encode_loop [a, b]) @ base64_encode_tail (snd (base64_encode_loop [a, b]))) =
    [byte_of_char (encoding ! unat (drop_bit 10 ?v)), byte_of_char (encoding ! unat (drop_bit 4 ?v AND 0x3f)),
     byte_of_char (encoding ! unat (push_bit 2 (?v AND 0xf))), byte_of_char CHR ''='']"
    by (simp add: base64_encode_tail_def Let_def group16_def)
  have q: "b64_quad 4 [byte_of_char (encoding ! unat (drop_bit 10 ?v)), byte_of_char (encoding ! unat (drop_bit 4 ?v AND 0x3f)),
     byte_of_char (encoding ! unat (push_bit 2 (?v AND 0xf))), byte_of_char CHR ''=''] =
     Some ([int (unat (drop_bit 10 ?v)), int (unat (drop_bit 4 ?v AND 0x3f)), int (unat (push_bit 2 (?v AND 0xf))), -2], [])"
    by (simp only: four b64_quad_two(1) [OF lt64_if [OF group16_bits(1)] unat_lt64]
        b64_quad_two(2) [OF lt64_if [OF group16_bits(2)] unat_lt64]
        b64_quad_0 option.map prod.case)
  show ?case unfolding t decode_loop_eq [OF q emit_group16] by (simp add: base64_decode_loop.simps)
qed

lemma length_encode_loop:
  "length (fst (base64_encode_loop ts)) + length (base64_encode_tail (snd (base64_encode_loop ts)))
     = (length ts + 2) div 3 * 4"
proof (induction ts rule: base64_encode_loop.induct)
  case (1 a b c ts)
  have "(length (a # b # c # ts) + 2) div 3 = Suc ((length ts + 2) div 3)" by simp
  moreover have "length (fst (base64_encode_loop (a # b # c # ts))) = 4 + length (fst (base64_encode_loop ts))"
    "snd (base64_encode_loop (a # b # c # ts)) = snd (base64_encode_loop ts)"
    by (simp_all add: Let_def case_prod_unfold)
  moreover note 1 [OF refl]
  ultimately show ?case by (simp only: mult_Suc add.assoc)
qed (simp_all add: Let_def base64_encode_tail_def)

lemma decode_loop_text: "base64_decode_loop (map byte_of_char (base64_text bs)) = Some bs"
  using decode_encode_loop [of bs] by (simp only: base64_text_def case_prod_unfold Let_def)

lemma length_base64_text: "length (base64_text bs) = (length bs + 2) div 3 * 4"
  using length_encode_loop [of bs] by (simp add: base64_text_def case_prod_unfold Let_def)

section \<open>Sizes\<close>

text \<open>The longest text whose encoding the \<open>int\<close> that holds its size can count.\<close>

definition BASE64_MAX :: nat where
  "BASE64_MAX = 1610612733"

lemma encode_size_eq:
  "base64_encode_size (int n) =
     (if n \<le> BASE64_MAX then Inr (int ((n + 2) div 3 * 4)) else Inl IntOverflow)"
proof (cases "n \<le> BASE64_MAX")
  case True
  then have "(int n + 2) div 3 \<le> 536870911" "0 \<le> (int n + 2) div 3"
    by (simp_all add: BASE64_MAX_def)
  with True show ?thesis
    by (simp add: base64_encode_size_def c_int_def INT_MAX_def BASE64_MAX_def zdiv_int ac_simps)
next
  case False
  then have "536870912 \<le> (int n + 2) div 3" by (simp add: BASE64_MAX_def)
  with False show ?thesis
    by (simp add: base64_encode_size_def c_int_def INT_MAX_def rbind_def)
qed

lemma base64_encode_eq:
  "base64_encode bs =
     (if length bs \<le> BASE64_MAX then Inr (base64_text bs, int (length (base64_text bs)))
      else Inl IntOverflow)"
proof (cases "length bs \<le> BASE64_MAX")
  case True
  then have "base64_encode_size (int (length bs)) = Inr (int (length (base64_text bs)))"
    by (simp only: encode_size_eq if_True length_base64_text)
  with True show ?thesis by (simp add: base64_encode_def Let_def SMALL_CHUNK_def)
qed (simp add: base64_encode_def encode_size_eq)

text \<open>A group takes four characters or more and gives three bytes or fewer.\<close>

lemma b64_quad_length: "b64_quad j ts = Some (cs, rest) \<Longrightarrow> length rest + j \<le> length ts"
  by (induction j ts arbitrary: cs rule: b64_quad.induct)
    (fastforce simp: Let_def split: if_splits option.splits)+

lemma b64_emit_length: "b64_emit c = Some out \<Longrightarrow> length out \<le> 3"
  by (auto simp: b64_emit_def Let_def split: if_splits)

lemma decode_loop_length:
  "base64_decode_loop ts = Some out \<Longrightarrow> 4 * length out \<le> 3 * length ts"
proof (induction ts arbitrary: out rule: base64_decode_loop.induct)
  case (1 ts)
  show ?case
  proof (cases "ts = []")
    case False
    with 1(2) obtain c rest out1 more where q: "b64_quad 4 ts = Some (c, rest)"
      and e: "b64_emit c = Some out1" and m: "base64_decode_loop rest = Some more" and o: "out = out1 @ more"
      by (subst (asm) base64_decode_loop.simps) (auto split: option.splits)
    from 1(1) [OF False q refl e m] b64_quad_length [OF q] b64_emit_length [OF e] o
    show ?thesis by simp
  qed (use 1(2) in \<open>simp add: base64_decode_loop.simps\<close>)
qed

lemma decode_sizes:
  assumes "n < 2 ^ 31"
  shows "sint (word_of_nat n :: u32) = int n"
    and "sint (((word_of_nat n :: u32) + 3) div 4 * 3 + 1) = int ((n + 3) div 4 * 3 + 1)"
proof -
  have u: "unat (word_of_nat k :: u32) = k" if "k < 2 ^ 32" for k
    using that by (simp add: unsigned_of_nat take_bit_nat_eq_self)
  then have "unat (word_of_nat n :: u32) = n" using assms by simp
  then show "sint (word_of_nat n :: u32) = int n" using assms sint_u32_small [of "word_of_nat n"] by simp
  have d: "(n + 3) div 4 * 3 + 1 < 2 ^ 31" using assms by simp
  have "(word_of_nat n :: u32) + 3 = word_of_nat (n + 3)" by simp
  moreover have "(word_of_nat (n + 3) :: u32) div 4 = word_of_nat ((n + 3) div 4)"
    using assms by (intro word_unat_eq_iff [THEN iffD2]) (simp add: unat_div u del: of_nat_add)
  ultimately have "((word_of_nat n :: u32) + 3) div 4 * 3 + 1 = word_of_nat ((n + 3) div 4 * 3 + 1)"
    by simp
  moreover have "unat (word_of_nat ((n + 3) div 4 * 3 + 1) :: u32) = (n + 3) div 4 * 3 + 1"
    using d by (intro u) simp
  ultimately show "sint (((word_of_nat n :: u32) + 3) div 4 * 3 + 1) = int ((n + 3) div 4 * 3 + 1)"
    using d sint_u32_small [of "word_of_nat ((n + 3) div 4 * 3 + 1)"] by (simp only:)
qed

text \<open>Below 2 GB the decoder reads the whole text, and what it writes fits.\<close>

lemma base64_decode_eq:
  assumes "length ts < 2 ^ 31"
  shows "base64_decode ts = Inr (base64_decode_loop ts)"
proof (cases "base64_decode_loop ts")
  case (Some out)
  from decode_loop_length [OF this] have "int (length out) + 1 \<le> int ((length ts + 3) div 4 * 3 + 1)"
    by simp
  with Some assms show ?thesis by (simp add: base64_decode_def Let_def decode_sizes)
qed (use assms in \<open>simp add: base64_decode_def Let_def decode_sizes\<close>)

definition encoded_bytes :: "byte list \<Rightarrow> byte list" where
  "encoded_bytes bs = (case base64_encode bs of Inl e \<Rightarrow> [] | Inr (buffer, sz) \<Rightarrow> map byte_of_char buffer)"

definition decoded_bytes :: "byte list \<Rightarrow> byte list option" where
  "decoded_bytes ts = (case base64_decode ts of Inl e \<Rightarrow> None | Inr r \<Rightarrow> r)"

lemma decode_encoded_text:
  assumes "length bs \<le> BASE64_MAX"
  shows "base64_decode (map byte_of_char (base64_text bs)) = Inr (Some bs)"
proof -
  have "length (map byte_of_char (base64_text bs)) < 2 ^ 31"
    using assms by (simp add: length_base64_text BASE64_MAX_def)
  from base64_decode_eq [OF this] show ?thesis by (simp only: decode_loop_text)
qed

interpretation base64: codec encoded_bytes decoded_bytes "\<lambda>bs. length bs \<le> BASE64_MAX"
  by unfold_locales (simp add: encoded_bytes_def decoded_bytes_def base64_encode_eq decode_encoded_text)

section \<open>What the decoder skips\<close>

text \<open>A character the decoder knows: of the alphabet, or padding.\<close>

definition b64_known :: "byte \<Rightarrow> bool" where
  "b64_known c \<longleftrightarrow> b64index c \<noteq> -1"

lemma b64_quad_filter:
  "b64_quad j ts = Some (cs, rest) \<Longrightarrow>
   b64_quad j (filter b64_known ts) = Some (cs, filter b64_known rest)"
  by (induction j ts arbitrary: cs rule: b64_quad.induct)
    (auto simp: b64_known_def Let_def split: option.splits if_splits)

lemma b64_quad_filter_None:
  "b64_quad j ts = None \<Longrightarrow> b64_quad j (filter b64_known ts) = None"
proof (induction j ts rule: b64_quad.induct)
  case (3 j t ts)
  then show ?case by (auto simp: b64_known_def Let_def split: option.splits if_splits)
qed simp_all

text \<open>The last character a group takes is a known one.\<close>

lemma b64_quad_split:
  "b64_quad (Suc j) ts = Some (cs, rest) \<Longrightarrow> \<exists>pre x. ts = pre @ x # rest \<and> b64_known x"
proof (induction "Suc j" ts arbitrary: j cs rule: b64_quad.induct)
  case (3 j t ts)
  show ?case
  proof (cases "b64index t = -1")
    case True
    with 3(1,3) obtain pre x where "ts = pre @ x # rest" "b64_known x"
      by (fastforce simp: Let_def)
    then show ?thesis by (intro exI [of _ "t # pre"]) simp
  next
    case False
    with 3(3) obtain cs' where q: "b64_quad j ts = Some (cs', rest)"
      by (auto simp: Let_def split: option.splits)
    show ?thesis
    proof (cases j)
      case 0
      with q False show ?thesis by (intro exI [of _ "[]"] exI [of _ t]) (simp add: b64_known_def)
    next
      case (Suc k)
      with 3(2) [OF refl False Suc] q obtain pre x where "ts = pre @ x # rest" "b64_known x" by blast
      then show ?thesis by (intro exI [of _ "t # pre"]) simp
    qed
  qed
qed simp

lemma decode_loop_unfold:
  "ts \<noteq> [] \<Longrightarrow> base64_decode_loop ts =
    (case b64_quad 4 ts of None \<Rightarrow> None | Some (c, rest) \<Rightarrow>
       (case b64_emit c of None \<Rightarrow> None | Some out \<Rightarrow>
          map_option (\<lambda>more. out @ more) (base64_decode_loop rest)))"
  by (subst base64_decode_loop.simps) (auto split: option.splits)

lemma decode_filter:
  "base64_decode_loop ts =
     (if ts \<noteq> [] \<and> \<not> b64_known (last ts) then None else base64_decode_loop (filter b64_known ts))"
proof (induction ts rule: length_induct)
  case (1 ts)
  show ?case
  proof (cases "ts = []")
    case False
    show ?thesis
    proof (cases "b64_quad 4 ts")
      case None
      then have "b64_quad 4 (filter b64_known ts) = None" by (rule b64_quad_filter_None)
      with None False show ?thesis
        by (cases "filter b64_known ts = []")
          (auto simp: decode_loop_unfold filter_empty_conv)
    next
      case (Some cr)
      obtain c rest where cr: "cr = (c, rest)" by fastforce
      have q: "b64_quad (Suc 3) ts = Some (c, rest)" using Some cr by (simp add: eval_nat_numeral)
      obtain pre x where ts: "ts = pre @ x # rest" "b64_known x" using b64_quad_split [OF q] by blast
      have f: "b64_quad 4 (filter b64_known ts) = Some (c, filter b64_known rest)"
        using b64_quad_filter Some cr by blast
      have "filter b64_known ts \<noteq> []" using ts by (auto simp: filter_empty_conv)
      moreover have "last ts = (if rest = [] then x else last rest)" using ts by simp
      moreover have "length rest < length ts" using ts by simp
      ultimately show ?thesis
        using False Some cr f ts(2) 1 [rule_format, of rest]
        by (auto simp: decode_loop_unfold split: option.splits)
    qed
  qed simp
qed

section \<open>Properties\<close>

text \<open>
  C15: For every sequence of at most 1610612733 bytes, decoding what the encoder wrote gives the
  bytes back; the text has exactly the announced length, four characters for every three bytes
  or part of three, and fits the buffer; and no two such sequences have the same text. From
  1610612734 bytes on the computation of the size overflows the range of \<open>int\<close>.
\<close>

theorem base64_roundtrip:
  "if length bs \<le> 1610612733
   then \<exists>buffer. base64_encode bs = Inr (buffer, int (length buffer)) \<and>
     length buffer = (length bs + 2) div 3 * 4 \<and>
     base64_decode (map byte_of_char buffer) = Inr (Some bs) \<and>
     inj_on base64_encode {bs. length bs \<le> 1610612733}
   else base64_encode bs = Inl IntOverflow"
proof (cases "length bs \<le> BASE64_MAX")
  case True
  have "inj_on base64_encode {bs. length bs \<le> BASE64_MAX}"
    using base64.encode_inj_on by (auto simp: inj_on_def encoded_bytes_def)
  with True decode_encoded_text [OF True] show ?thesis
    by (simp add: base64_encode_eq length_base64_text BASE64_MAX_def)
qed (simp add: base64_encode_eq BASE64_MAX_def)

text \<open>
  The decoder skips characters outside the alphabet wherever they stand, except after the
  last group: a text that ends in one (a final newline, say) is refused, whatever comes before;
  any other text decodes like the text without them.
\<close>

theorem base64_decode_foreign:
  assumes "length ts < 2 ^ 31"
  shows "base64_decode ts =
     (if ts \<noteq> [] \<and> \<not> b64_known (last ts) then Inr None else base64_decode (filter b64_known ts))"
proof -
  have "length (filter b64_known ts) < 2 ^ 31" using assms length_filter_le order_le_less_trans by blast
  with assms decode_filter [of ts] show ?thesis by (simp add: base64_decode_eq)
qed

end
