(* ===== verification/Sha1.thy ===== *)
theory Sha1
  imports Hyxd_Base
begin

text \<open>
  SHA-1, \<open>3rd/crypto/sha1.c\<close>: the compression function with its 16-word circular message
  schedule and rotating variables, the buffering of partial blocks, the padding. The reference
  is the standard's definition (FIPS 180): the padded message, cut into 64-byte blocks, each
  with an 80-word schedule. \<open>size_t\<close> is taken with 32 bits, as in the project's build.
\<close>

section \<open>The code\<close>

record sha1_ctx =
  sha1_state :: "u32 list"
  sha1_count0 :: u32
  sha1_count1 :: u32
  sha1_buffer :: "byte list"

definition rol :: "u32 \<Rightarrow> nat \<Rightarrow> u32" where
  "rol value bits = push_bit bits value OR drop_bit (32 - bits) value"

text \<open>
  The union: word \<open>i\<close> of the 64 bytes, in the byte order of the machine (little-endian).
\<close>

definition block_words :: "byte list \<Rightarrow> u32 list" where
  "block_words c = map (\<lambda>i. le32 (c ! (4 * i)) (c ! (4 * i + 1)) (c ! (4 * i + 2)) (c ! (4 * i + 3))) [0..<16]"

definition blk0 :: "u32 list \<Rightarrow> nat \<Rightarrow> u32 list" where
  "blk0 l i = l[i := (rol (l ! i) 24 AND 0xFF00FF00) OR (rol (l ! i) 8 AND 0x00FF00FF)]"

definition blk :: "u32 list \<Rightarrow> nat \<Rightarrow> u32 list" where
  "blk l i = l[i mod 16 := rol (l ! ((i + 13) mod 16) XOR l ! ((i + 8) mod 16)
                                XOR l ! ((i + 2) mod 16) XOR l ! (i mod 16)) 1]"

text \<open>
  One line \<open>R(v, w, x, y, z, i)\<close>. Each of the five macros adds its function of \<open>w\<close>, \<open>x\<close>,
  \<open>y\<close>, the schedule's word and its constant to \<open>z\<close>, and rotates \<open>w\<close>; the next line of the
  unrolled code names the variables one place further.
\<close>

type_synonym sha1_vars = "u32 \<times> u32 \<times> u32 \<times> u32 \<times> u32"

definition sha1_f :: "nat \<Rightarrow> u32 \<Rightarrow> u32 \<Rightarrow> u32 \<Rightarrow> u32" where
  "sha1_f i w x y =
     (if i < 20 then (w AND (x XOR y)) XOR y
      else if i < 40 then w XOR x XOR y
      else if i < 60 then ((w OR x) AND y) OR (w AND x)
      else w XOR x XOR y)"

definition sha1_k :: "nat \<Rightarrow> u32" where
  "sha1_k i = (if i < 20 then 0x5A827999 else if i < 40 then 0x6ED9EBA1
               else if i < 60 then 0x8F1BBCDC else 0xCA62C1D6)"

definition sha1_R :: "nat \<Rightarrow> sha1_vars \<times> u32 list \<Rightarrow> sha1_vars \<times> u32 list" where
  "sha1_R i = (\<lambda>((v, w, x, y, z), l).
     let l = (if i < 16 then blk0 l i else blk l i);
         z = z + (sha1_f i w x y + l ! (i mod 16) + sha1_k i + rol v 5);
         w = rol w 30
     in ((z, v, w, x, y), l))"

definition SHA1_Transform :: "u32 list \<Rightarrow> byte list \<Rightarrow> u32 list" where
  "SHA1_Transform state buffer =
     (let ((a, b, c, d, e), l) = fold sha1_R [0..<80]
            ((state ! 0, state ! 1, state ! 2, state ! 3, state ! 4), block_words buffer)
      in [state ! 0 + a, state ! 1 + b, state ! 2 + c, state ! 3 + d, state ! 4 + e])"

definition sat_SHA1_Init :: "byte list \<Rightarrow> sha1_ctx" where
  "sat_SHA1_Init stack_buf =
     \<lparr>sha1_state = [0x67452301, 0xEFCDAB89, 0x98BADCFE, 0x10325476, 0xC3D2E1F0],
      sha1_count0 = 0, sha1_count1 = 0, sha1_buffer = stack_buf\<rparr>"

text \<open>The loop over the whole blocks of \<open>data\<close> from index \<open>i\<close> on.\<close>

function sha1_blocks :: "u32 list \<Rightarrow> byte list \<Rightarrow> nat \<Rightarrow> u32 list \<times> nat" where
  "sha1_blocks st data i =
     (if i + 63 < length data then sha1_blocks (SHA1_Transform st (slice i 64 data)) data (i + 64)
      else (st, i))"
  by pat_completeness auto
termination
  by (relation "measure (\<lambda>(st, data, i). length data - i)") auto

declare sha1_blocks.simps [simp del]

definition sat_SHA1_Update :: "sha1_ctx \<Rightarrow> byte list \<Rightarrow> sha1_ctx" where
  "sat_SHA1_Update ctx data =
     (let len = length data; len3 = word_of_nat (len * 8) :: u32;
          j = unat (drop_bit 3 (sha1_count0 ctx) AND 63);
          count0 = sha1_count0 ctx + len3;
          count1 = (if count0 < len3 then sha1_count1 ctx + 1 else sha1_count1 ctx)
                   + word_of_nat (len div 2 ^ 29);
          (st, i, j, buf) =
            (if j + len > 63
             then let buf = blit (sha1_buffer ctx) j (take (64 - j) data);
                      (st, i) = sha1_blocks (SHA1_Transform (sha1_state ctx) buf) data (64 - j)
                  in (st, i, 0, buf)
             else (sha1_state ctx, 0, j, sha1_buffer ctx))
      in \<lparr>sha1_state = st, sha1_count0 = count0, sha1_count1 = count1,
          sha1_buffer = blit buf j (drop i data)\<rparr>)"

lemma update_count0: "sha1_count0 (sat_SHA1_Update ctx data) = sha1_count0 ctx + word_of_nat (length data * 8)"
  by (simp add: sat_SHA1_Update_def Let_def case_prod_unfold)

lemma and_504: "unat (w AND 504 :: u32) = unat w div 8 mod 64 * 8"
proof -
  have m: "(504 :: u32) = push_bit 3 (mask 6)" by (simp add: mask_numeral)
  have a: "w AND 504 = push_bit 3 (take_bit 6 (drop_bit 3 w))"
  proof (rule bit_word_eqI)
    fix n :: nat
    have "3 \<le> n \<Longrightarrow> 3 + (n - 3) = n" by simp
    then show "bit (w AND 504) n = bit (push_bit 3 (take_bit 6 (drop_bit 3 w))) n" if "n < LENGTH(32)"
      unfolding m using that by (cases "3 \<le> n") (auto simp: bit_simps)
  qed
  have t: "unat (take_bit 6 (drop_bit 3 w)) = unat w div 8 mod 64"
    by (simp only: unsigned_take_bit_eq unat_drop_bit_eq) (simp add: take_bit_eq_mod drop_bit_eq_div)
  have "unat (take_bit 6 (drop_bit 3 w)) * 2 ^ 3 < 2 ^ 32"
  proof -
    have "unat w div 8 mod 64 < 64" by simp
    then show ?thesis unfolding t by simp
  qed
  from unat_push_bit_small [OF this] show ?thesis unfolding a t by simp
qed

lemma and_63: "unat (drop_bit 3 w AND 63 :: u32) = unat w div 8 mod 64"
proof -
  have "drop_bit 3 w AND 63 = take_bit 6 (drop_bit 3 w)" by (simp add: take_bit_eq_mask mask_numeral)
  then show ?thesis
    by (simp only: unsigned_take_bit_eq unat_drop_bit_eq) (simp add: take_bit_eq_mod drop_bit_eq_div)
qed

lemma mod32_div8: "(x :: nat) mod 2 ^ 32 div 8 mod 64 = x div 8 mod 64"
proof -
  have "x mod 2 ^ 32 = 8 * (x div 8 mod 2 ^ 29) + x mod 8"
    using mod_mult2_eq [of x 8 "2 ^ 29"] by simp
  then have "x mod 2 ^ 32 div 8 = x div 8 mod 2 ^ 29" by simp
  then show ?thesis by (simp only:) (rule mod_mod_cancel, simp)
qed

lemma unat_plus_8: "unat (w + 8 :: u32) div 8 mod 64 = (unat w div 8 + 1) mod 64"
proof -
  have "unat (w + 8) = (unat w + 8) mod 2 ^ 32" by (simp add: unat_word_ariths)
  moreover have "(unat w + 8) div 8 = unat w div 8 + 1" by simp
  ultimately show ?thesis by (simp only: mod32_div8)
qed

text \<open>The padding: zero bytes until the count stands at 56 bytes of a block.\<close>

function sha1_pad :: "sha1_ctx \<Rightarrow> sha1_ctx" where
  "sha1_pad ctx =
     (if sha1_count0 ctx AND 504 \<noteq> 448 then sha1_pad (sat_SHA1_Update ctx [0]) else ctx)"
  by pat_completeness auto
termination
proof (relation "measure (\<lambda>ctx. (56 + 64 - unat (sha1_count0 ctx) div 8 mod 64) mod 64)")
  fix ctx :: sha1_ctx
  let ?q = "unat (sha1_count0 ctx) div 8 mod 64"
  assume "sha1_count0 ctx AND 504 \<noteq> 448"
  then have "unat (sha1_count0 ctx AND 504) \<noteq> 448"
    by (auto simp: word_unat_eq_iff)
  then have "?q \<noteq> 56" "?q < 64" by (simp_all add: and_504)
  moreover have "unat (sha1_count0 (sat_SHA1_Update ctx [0])) div 8 mod 64 = (?q + 1) mod 64"
    by (simp add: update_count0 unat_plus_8 mod_Suc_eq)
  moreover have "(56 + 64 - (q + 1) mod 64) mod 64 < (56 + 64 - q) mod 64"
    if "q \<noteq> 56" "q < 64" for q :: nat
    using that by (cases "q < 56"; cases "q = 63") (auto simp: mod_if)
  ultimately show "(sat_SHA1_Update ctx [0], ctx)
      \<in> measure (\<lambda>ctx. (56 + 64 - unat (sha1_count0 ctx) div 8 mod 64) mod 64)"
    by simp
qed simp

declare sha1_pad.simps [simp del]

text \<open>\<open>x >> ((3 - (i & 3)) * 8)\<close> for the bytes of a word, highest first.\<close>

definition sha1_byte :: "u32 \<Rightarrow> nat \<Rightarrow> byte" where
  "sha1_byte w i = ucast (drop_bit ((3 - i mod 4) * 8) w AND 255)"

definition sat_SHA1_Final :: "sha1_ctx \<Rightarrow> byte list" where
  "sat_SHA1_Final ctx =
     (let finalcount = map (\<lambda>i. sha1_byte (if i \<ge> 4 then sha1_count0 ctx else sha1_count1 ctx) i) [0..<8];
          ctx = sat_SHA1_Update ctx [128];
          ctx = sha1_pad ctx;
          ctx = sat_SHA1_Update ctx finalcount
      in map (\<lambda>i. sha1_byte (sha1_state ctx ! (i div 4)) i) [0..<20])"

text \<open>The digest; \<open>*e_sz\<close> is its length.\<close>

definition crypt_sha1 :: "byte list \<Rightarrow> byte list \<Rightarrow> byte list" where
  "crypt_sha1 stack_buf buffer = sat_SHA1_Final (sat_SHA1_Update (sat_SHA1_Init stack_buf) buffer)"

section \<open>FIPS 180\<close>

definition be32_at :: "byte list \<Rightarrow> nat \<Rightarrow> u32" where
  "be32_at c k = le32 (c ! (k + 3)) (c ! (k + 2)) (c ! (k + 1)) (c ! k)"

fun fips_W :: "byte list \<Rightarrow> nat \<Rightarrow> u32" where
  "fips_W c t =
     (if t < 16 then be32_at c (4 * t)
      else rol (fips_W c (t - 3) XOR fips_W c (t - 8) XOR fips_W c (t - 14) XOR fips_W c (t - 16)) 1)"

declare fips_W.simps [simp del]

definition fips_f :: "nat \<Rightarrow> u32 \<Rightarrow> u32 \<Rightarrow> u32 \<Rightarrow> u32" where
  "fips_f t x y z =
     (if t < 20 then (x AND y) XOR (NOT x AND z)
      else if t < 40 then x XOR y XOR z
      else if t < 60 then (x AND y) XOR (x AND z) XOR (y AND z)
      else x XOR y XOR z)"

definition fips_round :: "byte list \<Rightarrow> nat \<Rightarrow> sha1_vars \<Rightarrow> sha1_vars" where
  "fips_round c t = (\<lambda>(a, b, c', d, e).
     (rol a 5 + fips_f t b c' d + e + sha1_k t + fips_W c t, a, rol b 30, c', d))"

definition fips_compress :: "u32 list \<Rightarrow> byte list \<Rightarrow> u32 list" where
  "fips_compress H c =
     (let (a, b, c', d, e) = fold (fips_round c) [0..<80] (H ! 0, H ! 1, H ! 2, H ! 3, H ! 4)
      in [H ! 0 + a, H ! 1 + b, H ! 2 + c', H ! 3 + d, H ! 4 + e])"

definition be64_bytes :: "nat \<Rightarrow> byte list" where
  "be64_bytes n = map (\<lambda>i. word_of_nat (n div 256 ^ (7 - i))) [0..<8]"

definition fips_pad :: "byte list \<Rightarrow> byte list" where
  "fips_pad m = m @ 0x80 # replicate ((119 - length m mod 64) mod 64) 0 @ be64_bytes (8 * length m)"

function chunks64 :: "byte list \<Rightarrow> byte list list" where
  "chunks64 m = (if length m < 64 then [] else take 64 m # chunks64 (drop 64 m))"
  by pat_completeness auto
termination by (relation "measure length") auto

declare chunks64.simps [simp del]

definition fips_H0 :: "u32 list" where
  "fips_H0 = [0x67452301, 0xEFCDAB89, 0x98BADCFE, 0x10325476, 0xC3D2E1F0]"

definition be_bytes :: "u32 \<Rightarrow> byte list" where
  "be_bytes w = map (\<lambda>i. ucast (drop_bit ((3 - i) * 8) w)) [0..<4]"

definition fips_sha1 :: "byte list \<Rightarrow> byte list" where
  "fips_sha1 m = concat (map be_bytes (fold (\<lambda>c H. fips_compress H c) (chunks64 (fips_pad m)) fips_H0))"

section \<open>One block\<close>

lemma sha1_f_eq: "sha1_f i w x y = fips_f i w x y"
proof -
  have "((w AND (x XOR y)) XOR y) = (w AND x) XOR (NOT w AND y)"
    "((w OR x) AND y) OR (w AND x) = (w AND x) XOR (w AND y) XOR (x AND y)"
    by (rule bit_word_eqI; auto simp: bit_simps)+
  then show ?thesis by (simp add: sha1_f_def fips_f_def)
qed

lemma byte_swap:
  "(rol (le32 a b c d) 24 AND 0xFF00FF00) OR (rol (le32 a b c d) 8 AND 0x00FF00FF) = le32 d c b a"
proof (rule bit_word_eqI)
  have m: "(0xFF00FF00 :: u32) = push_bit 8 (mask 8) OR push_bit 24 (mask 8)"
    "(0x00FF00FF :: u32) = mask 8 OR push_bit 16 (mask 8)"
    by (simp_all add: mask_numeral)
  fix n :: nat
  assume "n < LENGTH(32)"
  then show "bit ((rol (le32 a b c d) 24 AND 0xFF00FF00) OR (rol (le32 a b c d) 8 AND 0x00FF00FF)) n
      = bit (le32 d c b a) n"
    unfolding m le32_def rol_def
    by (cases "n < 8"; cases "n < 16"; cases "n < 24")
      (auto simp: bit_simps dest: bit_imp_le_length)
qed

definition schedule_inv :: "byte list \<Rightarrow> nat \<Rightarrow> u32 list \<Rightarrow> bool" where
  "schedule_inv c i l \<longleftrightarrow> length l = 16 \<and>
     (\<forall>t. t < i \<longrightarrow> i \<le> t + 16 \<longrightarrow> l ! (t mod 16) = fips_W c t) \<and>
     (\<forall>k. i \<le> k \<longrightarrow> k < 16 \<longrightarrow>
        l ! k = le32 (c ! (4 * k)) (c ! (4 * k + 1)) (c ! (4 * k + 2)) (c ! (4 * k + 3)))"

lemma schedule_init: "schedule_inv c 0 (block_words c)"
  by (simp add: schedule_inv_def block_words_def)

lemma schedule_step:
  assumes "schedule_inv c i l"
  shows "schedule_inv c (Suc i) (if i < 16 then blk0 l i else blk l i)"
    "(if i < 16 then blk0 l i else blk l i) ! (i mod 16) = fips_W c i"
proof -
  let ?l = "if i < 16 then blk0 l i else blk l i"
  have len: "length ?l = 16" using assms by (simp add: schedule_inv_def blk0_def blk_def)
  have keep: "k \<noteq> i mod 16 \<Longrightarrow> ?l ! k = l ! k" for k
    by (auto simp: blk0_def blk_def)
  have new: "?l ! (i mod 16) = fips_W c i"
  proof (cases "i < 16")
    case True
    then have "?l ! (i mod 16) = (rol (l ! i) 24 AND 0xFF00FF00) OR (rol (l ! i) 8 AND 0x00FF00FF)"
      using assms by (simp add: blk0_def schedule_inv_def)
    also have "l ! i = le32 (c ! (4 * i)) (c ! (4 * i + 1)) (c ! (4 * i + 2)) (c ! (4 * i + 3))"
      using assms True by (simp add: schedule_inv_def)
    finally show ?thesis using True by (subst fips_W.simps) (simp add: byte_swap be32_at_def)
  next
    case False
    have m: "(i + 13) mod 16 = (i - 3) mod 16" "(i + 8) mod 16 = (i - 8) mod 16"
      "(i + 2) mod 16 = (i - 14) mod 16" "i mod 16 = (i - 16) mod 16"
      using False by (simp_all add: mod_nat_eqI le_mod_geq mod_if)
    have w: "t < i \<Longrightarrow> i \<le> t + 16 \<Longrightarrow> l ! (t mod 16) = fips_W c t" for t
      using assms by (simp add: schedule_inv_def)
    have "?l ! (i mod 16) = rol (l ! ((i + 13) mod 16) XOR l ! ((i + 8) mod 16)
        XOR l ! ((i + 2) mod 16) XOR l ! (i mod 16)) 1"
      using assms False by (simp add: blk_def schedule_inv_def)
    also have "\<dots> = rol (fips_W c (i - 3) XOR fips_W c (i - 8) XOR fips_W c (i - 14) XOR fips_W c (i - 16)) 1"
      unfolding m using False w [of "i - 3"] w [of "i - 8"] w [of "i - 14"] w [of "i - 16"] by simp
    finally show ?thesis using False by (subst fips_W.simps) simp
  qed
  then show "?l ! (i mod 16) = fips_W c i" .
  have "t mod 16 \<noteq> i mod 16" if "t < i" "Suc i \<le> t + 16" for t
  proof
    assume "t mod 16 = i mod 16"
    then have "16 dvd i - t" using that mod_eq_dvd_iff_nat [of t i 16] by simp
    then show False using that by (auto dest: dvd_imp_le)
  qed
  then show "schedule_inv c (Suc i) ?l"
    using assms len keep new by (auto simp: schedule_inv_def less_Suc_eq)
qed

lemma transform_rounds:
  assumes "schedule_inv c i l"
  shows "fst (fold sha1_R [i..<n] (vs, l)) = fold (fips_round c) [i..<n] vs"
  using assms
proof (induction "n - i" arbitrary: i vs l)
  case 0
  then show ?case by simp
next
  case (Suc k)
  obtain a b d e f where vs: "vs = (a, b, d, e, f)" by (metis prod_cases5)
  let ?l = "if i < 16 then blk0 l i else blk l i"
  note st = schedule_step [OF Suc.prems]
  have "sha1_R i (vs, l) = (fips_round c i vs, ?l)"
    using st(2) by (simp add: vs sha1_R_def fips_round_def Let_def sha1_f_eq ac_simps)
  moreover have "[i..<n] = i # [Suc i..<n]" using Suc.hyps(2) by (simp add: upt_conv_Cons)
  moreover have "fst (fold sha1_R [Suc i..<n] (fips_round c i vs, ?l)) =
      fold (fips_round c) [Suc i..<n] (fips_round c i vs)"
    by (rule Suc.hyps(1) [OF _ st(1)]) (use Suc.hyps(2) in simp)
  ultimately show ?case by simp
qed

lemma transform_eq: "SHA1_Transform H c = fips_compress H c"
  using transform_rounds [OF schedule_init, of 80 "(H ! 0, H ! 1, H ! 2, H ! 3, H ! 4)" c]
  by (simp add: SHA1_Transform_def fips_compress_def case_prod_unfold Let_def)

section \<open>Streaming\<close>

text \<open>The state after all whole blocks of a message.\<close>

definition absorb :: "u32 list \<Rightarrow> byte list \<Rightarrow> u32 list" where
  "absorb H m = fold (\<lambda>c H. fips_compress H c) (chunks64 m) H"

lemma absorb_short: "length m < 64 \<Longrightarrow> absorb H m = H"
  by (simp add: absorb_def chunks64.simps)

lemma absorb_block:
  "64 \<le> length m \<Longrightarrow> absorb H m = absorb (fips_compress H (take 64 m)) (drop 64 m)"
  by (simp add: absorb_def chunks64.simps [of m])

definition tail_of :: "byte list \<Rightarrow> byte list" where
  "tail_of m = drop (length m div 64 * 64) m"

lemma absorb_append: "absorb H (m @ d) = absorb (absorb H m) (tail_of m @ d)"
proof (induction m arbitrary: H rule: chunks64.induct)
  case (1 m)
  show ?case
  proof (cases "length m < 64")
    case True
    then show ?thesis by (simp add: absorb_short tail_of_def)
  next
    case False
    then have "tail_of m = tail_of (drop 64 m)"
      by (simp add: tail_of_def algebra_simps le_div_geq)
    with False 1 show ?thesis
      using absorb_block [of "m @ d" H] absorb_block [of m H] by simp
  qed
qed

lemma sha1_blocks_absorb:
  "i \<le> length data \<Longrightarrow>
   sha1_blocks st data i = (absorb st (drop i data), i + (length data - i) div 64 * 64)"
proof (induction st data i rule: sha1_blocks.induct)
  case (1 st data i)
  show ?case
  proof (cases "i + 63 < length data")
    case True
    have "sha1_blocks st data i = sha1_blocks (fips_compress st (slice i 64 data)) data (i + 64)"
      using True by (subst sha1_blocks.simps) (simp add: transform_eq)
    also have "\<dots> = (absorb (fips_compress st (slice i 64 data)) (drop (i + 64) data),
        i + 64 + (length data - (i + 64)) div 64 * 64)"
      using 1(1) [OF True] True by (simp add: transform_eq)
    also have "absorb (fips_compress st (slice i 64 data)) (drop (i + 64) data) = absorb st (drop i data)"
      using True absorb_block [of "drop i data" st] by (simp add: slice_def add.commute)
    also have "i + 64 + (length data - (i + 64)) div 64 * 64 = i + (length data - i) div 64 * 64"
      using True by (simp add: le_div_geq [of 64 "length data - i"])
    finally show ?thesis .
  next
    case False
    then show ?thesis using 1(2) by (subst sha1_blocks.simps) (simp add: absorb_short)
  qed
qed

text \<open>A context that has been given the message \<open>m\<close>.\<close>

definition sha1_rep :: "byte list \<Rightarrow> sha1_ctx \<Rightarrow> bool" where
  "sha1_rep m ctx \<longleftrightarrow> sha1_state ctx = absorb fips_H0 m \<and> sha1_count0 ctx = word_of_nat (8 * length m) \<and>
     length (sha1_buffer ctx) = 64 \<and> take (length m mod 64) (sha1_buffer ctx) = tail_of m"

lemma count_pos: "unat (drop_bit 3 (word_of_nat (8 * n) :: u32) AND 63) = n mod 64"
proof -
  have "unat (word_of_nat (8 * n) :: u32) = 8 * n mod 2 ^ 32"
    by (simp only: unsigned_of_nat take_bit_eq_mod) simp
  then have "unat (drop_bit 3 (word_of_nat (8 * n) :: u32) AND 63) = 8 * n div 8 mod 64"
    by (simp only: and_63 mod32_div8)
  then show ?thesis by simp
qed

lemma length_tail_of: "length (tail_of m) = length m mod 64"
  by (simp add: tail_of_def minus_div_mult_eq_mod)

lemma tail_append: "tail_of (m @ d) = tail_of (tail_of m @ d)"
proof -
  let ?k = "length m div 64 * 64"
  have k: "length (m @ d) div 64 * 64 = ?k + length (tail_of m @ d) div 64 * 64"
  proof -
    have "length (m @ d) = ?k + length (tail_of m @ d)" by (simp add: length_tail_of)
    then have "length (m @ d) div 64 = length m div 64 + length (tail_of m @ d) div 64"
      by (simp only: div_mult_self3)
    then show ?thesis by (simp only: add_mult_distrib)
  qed
  have "drop ?k (m @ d) = tail_of m @ d" by (simp add: tail_of_def)
  then have "drop (?k + n) (m @ d) = drop n (tail_of m @ d)" for n
    by (metis add.commute drop_drop)
  then show ?thesis unfolding tail_of_def [of "m @ d"] k tail_of_def [of "tail_of m @ d"] .
qed

lemma tail_short: "length m < 64 \<Longrightarrow> tail_of m = m"
  by (simp add: tail_of_def)

lemma sha1_rep_update:
  assumes r: "sha1_rep m ctx"
  shows "sha1_rep (m @ d) (sat_SHA1_Update ctx d)"
proof -
  let ?j = "length m mod 64" and ?buf = "sha1_buffer ctx"
  have st: "sha1_state ctx = absorb fips_H0 m" and c0: "sha1_count0 ctx = word_of_nat (8 * length m)"
    and lb: "length ?buf = 64" and tl: "take ?j ?buf = tail_of m"
    using r by (simp_all add: sha1_rep_def)
  have j64: "?j < 64" by simp
  have j: "unat (drop_bit 3 (sha1_count0 ctx) AND 63) = ?j" unfolding c0 by (rule count_pos)
  have cnt: "sha1_count0 (sat_SHA1_Update ctx d) = word_of_nat (8 * length (m @ d))"
    by (simp add: update_count0 c0 mult.commute distrib_left)
  have ab: "absorb fips_H0 (m @ d) = absorb (absorb fips_H0 m) (tail_of m @ d)"
    by (rule absorb_append)
  show ?thesis
  proof (cases "?j + length d > 63")
    case True
    let ?b = "blit ?buf ?j (take (64 - ?j) d)" and ?i = "64 - ?j + (length d - (64 - ?j)) div 64 * 64"
    let ?w = "tail_of m @ d"
    have lw: "length ?w = ?j + length d" by (simp add: length_tail_of)
    have ld: "64 - ?j \<le> length d" using True by simp
    have b: "?b = take 64 ?w"
      using ld j64 lb by (simp add: blit_def tl length_tail_of min_def)
    have bl: "sha1_blocks (SHA1_Transform (sha1_state ctx) ?b) d (64 - ?j) =
        (absorb (fips_compress (absorb fips_H0 m) (take 64 ?w)) (drop (64 - ?j) d), ?i)"
      using sha1_blocks_absorb [OF ld] by (simp add: transform_eq st b)
    have "drop (64 - ?j) d = drop 64 ?w" using j64 by (simp add: length_tail_of)
    then have a: "absorb fips_H0 (m @ d) =
        absorb (fips_compress (absorb fips_H0 m) (take 64 ?w)) (drop (64 - ?j) d)"
      unfolding ab using True lw by (simp add: absorb_block)
    have "(?j + length d) div 64 * 64 = ?j + ?i"
      using True j64 ld by (simp add: le_div_geq [of 64 "?j + length d"])
    then have t: "tail_of (m @ d) = drop ?i d"
      unfolding tail_append [of m d] tail_of_def [of ?w] lw by (simp add: length_tail_of)
    have u: "sat_SHA1_Update ctx d = \<lparr>sha1_state = absorb fips_H0 (m @ d),
        sha1_count0 = sha1_count0 (sat_SHA1_Update ctx d), sha1_count1 = sha1_count1 (sat_SHA1_Update ctx d),
        sha1_buffer = blit ?b 0 (drop ?i d)\<rparr>"
      using True by (simp add: sat_SHA1_Update_def Let_def j bl a)
    have l: "length (drop ?i d) = length (m @ d) mod 64"
      unfolding t [symmetric] by (rule length_tail_of)
    have l2: "length ?b = 64" unfolding b using True lw by simp
    have fits: "0 + length (drop ?i d) \<le> length ?b" unfolding l l2 by simp
    have "length (blit ?b 0 (drop ?i d)) = 64" unfolding length_blit [OF fits] by (rule l2)
    moreover have "take (length (m @ d) mod 64) (blit ?b 0 (drop ?i d)) = drop ?i d"
      using take_blit [OF fits] unfolding l by simp
    moreover have "sha1_state (sat_SHA1_Update ctx d) = absorb fips_H0 (m @ d)"
      "sha1_buffer (sat_SHA1_Update ctx d) = blit ?b 0 (drop ?i d)"
      using arg_cong [OF u, of sha1_state] arg_cong [OF u, of sha1_buffer] by simp_all
    ultimately show ?thesis unfolding sha1_rep_def cnt t by (simp only: simp_thms)
  next
    case False
    then have "length (tail_of m @ d) < 64" by (simp add: length_tail_of)
    then have a: "absorb fips_H0 (m @ d) = absorb fips_H0 m" and t: "tail_of (m @ d) = tail_of m @ d"
      unfolding ab tail_append [of m d] by (simp_all add: absorb_short tail_short)
    have u: "sat_SHA1_Update ctx d = \<lparr>sha1_state = absorb fips_H0 m,
        sha1_count0 = sha1_count0 (sat_SHA1_Update ctx d), sha1_count1 = sha1_count1 (sat_SHA1_Update ctx d),
        sha1_buffer = blit ?buf ?j d\<rparr>"
      using False by (simp add: sat_SHA1_Update_def Let_def j st)
    have m: "length (m @ d) mod 64 = ?j + length d"
      using False by (simp add: mod_add_left_eq [symmetric, of "length m"] del: mod_add_left_eq)
    have "length (blit ?buf ?j d) = 64" "take (?j + length d) (blit ?buf ?j d) = tail_of m @ d"
      using False lb tl by (simp_all add: mem_simps)
    moreover have "sha1_state (sat_SHA1_Update ctx d) = absorb fips_H0 m"
      "sha1_buffer (sat_SHA1_Update ctx d) = blit ?buf ?j d"
      using arg_cong [OF u, of sha1_state] arg_cong [OF u, of sha1_buffer] by simp_all
    ultimately show ?thesis unfolding sha1_rep_def cnt t a m by (simp only: simp_thms)
  qed
qed

section \<open>Padding and the digest\<close>

lemma pad_condition:
  assumes "sha1_rep m ctx"
  shows "sha1_count0 ctx AND 504 \<noteq> 448 \<longleftrightarrow> length m mod 64 \<noteq> 56"
proof -
  have c: "sha1_count0 ctx = word_of_nat (8 * length m)" using assms by (simp add: sha1_rep_def)
  have "unat (sha1_count0 ctx AND 504) = length m mod 64 * 8"
    unfolding c and_504 by (metis and_63 count_pos)
  moreover have "sha1_count0 ctx AND 504 = 448 \<longleftrightarrow> unat (sha1_count0 ctx AND 504) = 448"
    by (auto simp: word_unat_eq_iff)
  ultimately show ?thesis by simp
qed

lemma pad_zeros:
  assumes "q < 64"
  shows "(120 - q) mod 64 = (if q \<le> 56 then 56 - q else 120 - q :: nat)"
  using assms le_mod_geq [of 64 "120 - q"] by (cases "q \<le> 56") simp_all

lemma pad_zeros_Suc:
  "q < 64 \<Longrightarrow> q \<noteq> 56 \<Longrightarrow>
   (120 - q) mod 64 = Suc ((120 - (if q = 63 then 0 else Suc q)) mod 64)" for q :: nat
  by (cases "q = 63"; cases "q \<le> 55") (simp_all add: pad_zeros Suc_diff_le le_mod_geq [of 64 "119 - q"])

lemma pad_zeros_step:
  assumes "n mod 64 \<noteq> (56 :: nat)"
  shows "(120 - n mod 64) mod 64 = Suc ((120 - Suc n mod 64) mod 64)"
proof -
  have "Suc n mod 64 = (if n mod 64 = 63 then 0 else Suc (n mod 64))" by (simp add: mod_Suc)
  then show ?thesis by (simp only:) (rule pad_zeros_Suc [OF _ assms], simp)
qed

lemma sha1_rep_pad:
  assumes "sha1_rep m ctx"
  shows "sha1_rep (m @ replicate ((120 - length m mod 64) mod 64) 0) (sha1_pad ctx)"
  using assms
proof (induction ctx arbitrary: m rule: sha1_pad.induct)
  case (1 ctx)
  show ?case
  proof (cases "length m mod 64 = 56")
    case True
    then have "sha1_pad ctx = ctx"
      using pad_condition [OF 1(2)] by (subst sha1_pad.simps) simp
    with True 1(2) show ?thesis by simp
  next
    case False
    then have c: "sha1_count0 ctx AND 504 \<noteq> 448" using pad_condition [OF 1(2)] by simp
    then have p: "sha1_pad ctx = sha1_pad (sat_SHA1_Update ctx [0])"
      by (subst sha1_pad.simps) simp
    have "sha1_rep ((m @ [0]) @ replicate ((120 - length (m @ [0]) mod 64) mod 64) 0)
        (sha1_pad (sat_SHA1_Update ctx [0]))"
      by (rule 1(1) [OF c sha1_rep_update [OF 1(2)]])
    then show ?thesis unfolding p pad_zeros_step [OF False] by simp
  qed
qed

lemma sha1_byte_unat: "unat (sha1_byte w i) = unat w div 2 ^ ((3 - i mod 4) * 8) mod 256"
proof -
  have "sha1_byte w i = ucast (drop_bit ((3 - i mod 4) * 8) w)"
    unfolding sha1_byte_def using mask_low_byte [of "drop_bit ((3 - i mod 4) * 8) w"] by simp
  then show ?thesis by (simp only: unat_byte_of_shifted)
qed

lemma finalcount_eq:
  assumes "n < 2 ^ 32"
  shows "map (\<lambda>i. sha1_byte (if i \<ge> 4 then word_of_nat n else 0) i) [0..<8] = be64_bytes n"
  unfolding be64_bytes_def
proof (rule map_cong [OF refl])
  fix i :: nat
  assume "i \<in> set [0..<8]"
  then have i: "i < 8" by simp
  have un: "unat (word_of_nat n :: u32) = n"
    using assms by (simp only: unsigned_of_nat) (simp add: take_bit_nat_eq_self)
  have r: "unat (word_of_nat (n div 256 ^ (7 - i)) :: byte) = n div 256 ^ (7 - i) mod 256"
    by (simp only: unsigned_of_nat take_bit_eq_mod) simp
  have e: "(256 :: nat) ^ k = 2 ^ (k * 8)" for k
    by (subst mult.commute, subst power_mult) simp
  show "sha1_byte (if i \<ge> 4 then word_of_nat n else 0) i = word_of_nat (n div 256 ^ (7 - i))"
  proof (cases "4 \<le> i")
    case True
    then have "i mod 4 = i - 4" using i by (simp add: mod_if)
    then have "3 - i mod 4 = 7 - i" using True i by simp
    then show ?thesis using True
      by (simp add: word_unat_eq_iff sha1_byte_unat un r [unfolded e] e)
  next
    case False
    then have "(2 :: nat) ^ 32 \<le> 2 ^ ((7 - i) * 8)" by (intro power_increasing) simp_all
    then have "n div 2 ^ ((7 - i) * 8) = 0" using assms by (intro div_less) linarith
    then show ?thesis using False
      by (simp add: word_unat_eq_iff sha1_byte_unat r [unfolded e] e)
  qed
qed

lemma length_absorb: "length H = 5 \<Longrightarrow> length (absorb H m) = 5"
  unfolding absorb_def
  by (induction "chunks64 m" arbitrary: m H rule: rev_induct)
    (auto simp: fips_compress_def case_prod_unfold Let_def dest: sym)

lemma digest_eq:
  assumes "length H = 5"
  shows "map (\<lambda>i. sha1_byte (H ! (i div 4)) i) [0..<20] = concat (map be_bytes H)"
proof -
  obtain a b c d e where H: "H = [a, b, c, d, e]"
    using assms by (auto simp: length_Suc_conv eval_nat_numeral)
  have m: "ucast (w AND 255) = (ucast w :: byte)" for w :: u32 by (rule mask_low_byte)
  show ?thesis
    by (simp add: H upt_rec be_bytes_def sha1_byte_def m numeral_2_eq_2 [symmetric])
qed

lemma fips_zeros: "(120 - Suc n mod 64) mod 64 = (119 - n mod 64) mod (64 :: nat)"
proof -
  have "n mod 64 < 64" by simp
  then show ?thesis by (cases "n mod 64 = 63") (auto simp: mod_Suc)
qed

lemma update_init_count1:
  assumes "length m < 2 ^ 29"
  shows "sha1_count1 (sat_SHA1_Update (sat_SHA1_Init b) m) = 0"
  using assms by (simp add: sat_SHA1_Update_def sat_SHA1_Init_def Let_def case_prod_unfold)

lemma sha1_rep_init: "length b = 64 \<Longrightarrow> sha1_rep [] (sat_SHA1_Init b)"
  by (simp add: sha1_rep_def sat_SHA1_Init_def absorb_short tail_short fips_H0_def)

lemma crypt_sha1_fips:
  assumes "length stack_buf = 64" "length m < 2 ^ 29"
  shows "crypt_sha1 stack_buf m = fips_sha1 m"
proof -
  let ?c0 = "sat_SHA1_Update (sat_SHA1_Init stack_buf) m"
  let ?c1 = "sat_SHA1_Update ?c0 [128]"
  let ?fc = "be64_bytes (8 * length m)"
  have r0: "sha1_rep m ?c0" using sha1_rep_update [OF sha1_rep_init [OF assms(1)], of m] by simp
  have r2: "sha1_rep ((m @ [128]) @ replicate ((119 - length m mod 64) mod 64) 0) (sha1_pad ?c1)"
    using sha1_rep_pad [OF sha1_rep_update [OF r0, of "[128]"]] by (simp add: fips_zeros)
  have "8 * length m < 2 ^ 32" using assms(2) by simp
  note fc = finalcount_eq [OF this]
  have "sha1_rep (fips_pad m) (sat_SHA1_Update (sha1_pad ?c1) ?fc)"
    using sha1_rep_update [OF r2, of ?fc] by (simp add: fips_pad_def)
  then have st: "sha1_state (sat_SHA1_Update (sha1_pad ?c1) ?fc) = absorb fips_H0 (fips_pad m)"
    by (simp add: sha1_rep_def)
  have "sha1_count0 ?c0 = word_of_nat (8 * length m)" using r0 by (simp add: sha1_rep_def)
  then have "crypt_sha1 stack_buf m = map (\<lambda>i. sha1_byte (absorb fips_H0 (fips_pad m) ! (i div 4)) i) [0..<20]"
    unfolding crypt_sha1_def sat_SHA1_Final_def Let_def update_init_count1 [OF assms(2)]
    by (simp only: fc st)
  also have "\<dots> = fips_sha1 m"
    unfolding fips_sha1_def by (subst digest_eq) (simp_all add: length_absorb fips_H0_def, simp add: absorb_def)
  finally show ?thesis .
qed

lemma length_crypt_sha1: "length (crypt_sha1 stack_buf m) = 20"
  by (simp add: crypt_sha1_def sat_SHA1_Final_def Let_def)

section \<open>Properties\<close>

text \<open>
  C13: For every message shorter than 2^29 bytes, \<open>crypt_sha1\<close> computes the standard's SHA-1:
  buffering, the circular schedule, the renamed working variables and the byte-wise padding
  make no difference, and neither does what the context's buffer held before.
\<close>

theorem sha1_is_fips180:
  assumes "length stack_buf = 64" "length m < 2 ^ 29"
  shows "crypt_sha1 stack_buf m = fips_sha1 m"
  using assms by (rule crypt_sha1_fips)

theorem sha1_is_fips180_witness:
  "crypt_sha1 (replicate 64 7) [97, 98, 99] = fips_sha1 [97, 98, 99]"
  by (rule sha1_is_fips180) simp_all

end
