(* ===== verification/Ws_Handshake.thy ===== *)
theory Ws_Handshake
  imports Http_Listen Base64 Sha1 Session
begin

text \<open>
  The opening handshake of a WebSocket connection, \<open>ws_protocol::ws_shake_hand\<close> in
  \<open>netbus/ws_protocol.cc\<close> with its three parser callbacks. Its static variables are the record
  \<open>ws_hs\<close>, which the callbacks pass through the HTTP parser; a write behind the end of a
  static array is \<open>OutOfBounds\<close>.
\<close>

section \<open>C strings\<close>

definition c_str :: "string \<Rightarrow> string" where
  "c_str s = takeWhile (\<lambda>c. c \<noteq> CHR 0x00) s"

text \<open>\<open>strncmp(s, t, n) == 0\<close>\<close>

definition strncmp_eq :: "string \<Rightarrow> string \<Rightarrow> nat \<Rightarrow> bool" where
  "strncmp_eq s t n \<longleftrightarrow> take n (c_str s) = take n (c_str t)"

section \<open>Static variables and callbacks\<close>

definition KEY_LEN :: nat where "KEY_LEN = 512"

text \<open>\<open>value_sec_key\<close> is the C string in the array of that name.\<close>

record ws_hs =
  value_sec_key :: string
  is_sec_key :: bool
  has_sec_key :: bool
  is_shaker_ended :: bool

definition SEC_WEBSOCKET_KEY :: string where
  "SEC_WEBSOCKET_KEY = ''Sec-WebSocket-Key''"

definition wb_migic :: string where
  "wb_migic = ''258EAFA5-E914-47DA-95CA-C5AB0DC85B11''"

definition wb_accept :: "string \<Rightarrow> string" where
  "wb_accept s =
     ''HTTP/1.1 101 Switching Protocols'' @ CRLF @ ''Upgrade:websocket'' @ CRLF
     @ ''Connection: Upgrade'' @ CRLF @ ''Sec-WebSocket-Accept: '' @ s @ CRLF
     @ ''WebSocket-Protocol:chat'' @ CRLF @ CRLF"

text \<open>
  A data callback reads the \<open>length\<close> bytes at \<open>at\<close>, the piece; the lower-case functions say
  what it does with the piece.
\<close>

definition header_field_piece :: "string \<Rightarrow> ws_hs result \<Rightarrow> ws_hs result" where
  "header_field_piece s hs =
     rbind hs (\<lambda>hs. Inr (hs\<lparr>is_sec_key := strncmp_eq s SEC_WEBSOCKET_KEY (length s)\<rparr>))"

definition header_value_piece :: "string \<Rightarrow> ws_hs result \<Rightarrow> ws_hs result" where
  "header_value_piece s hs =
     rbind hs (\<lambda>hs.
        if \<not> is_sec_key hs then Inr hs
        else if length s \<ge> KEY_LEN then Inl OutOfBounds
        else Inr (hs\<lparr>value_sec_key := c_str s, has_sec_key := True\<rparr>))"

definition on_ws_header_field :: "ws_hs result http_data_cb" where
  "on_ws_header_field p at len hs = (0, False, header_field_piece (take len at) hs)"

definition on_ws_header_value :: "ws_hs result http_data_cb" where
  "on_ws_header_value p at len hs = (0, False, header_value_piece (take len at) hs)"

definition on_message_end :: "ws_hs result http_cb" where
  "on_message_end p hs = (0, False, rbind hs (\<lambda>hs. Inr (hs\<lparr>is_shaker_ended := True\<rparr>)))"

definition ws_settings :: "ws_hs result http_parser_settings" where
  "ws_settings = http_parser_settings_init
     \<lparr>on_header_field := Some on_ws_header_field, on_header_value := Some on_ws_header_value,
      on_message_complete := Some on_message_end\<rparr>"

section \<open>The handshake\<close>

text \<open>
  The answer to a key: two \<open>sprintf\<close>s into arrays of 512 bytes around SHA-1 and base64.
  \<open>stack\<close> is what the SHA-1 context's buffer holds at entry.
\<close>

definition ws_answer :: "byte list \<Rightarrow> string \<Rightarrow> byte list result" where
  "ws_answer stack key =
     (let key_migic = key @ wb_migic in
      if length key_migic + 1 > KEY_LEN then Inl OutOfBounds
      else
        let sha1_key_migic = crypt_sha1 stack (map byte_of_char key_migic)
        in rbind (base64_encode sha1_key_migic) (\<lambda>(base_buf, base64_len).
             let send_client = wb_accept base_buf
             in if length send_client + 1 > KEY_LEN then Inl OutOfBounds
                else Inr (map byte_of_char send_client)))"

definition ws_shake_hand ::
  "byte list \<Rightarrow> sid \<Rightarrow> byte list \<Rightarrow> ws_hs \<times> ('a, 'm) node \<Rightarrow> (bool \<times> ws_hs \<times> ('a, 'm) node) result" where
  "ws_shake_hand stack i data = (\<lambda>(hs, n).
     let hs = hs\<lparr>is_sec_key := False, has_sec_key := False, is_shaker_ended := False\<rparr> in
     rbind (http_parser_execute ws_settings (http_parser_init HTTP_REQUEST) (Inr hs) (map char_of_byte data))
       (\<lambda>(_, _, r). rbind r (\<lambda>hs.
          if has_sec_key hs \<and> is_shaker_ended hs then
            rbind (ws_answer stack (value_sec_key hs)) (\<lambda>reply.
              rbind (send_data i reply n) (\<lambda>n. Inr (True, hs, n)))
          else Inr (False, hs, n))))"

section \<open>What the callbacks hear\<close>

definition message_end :: "ws_hs result \<Rightarrow> ws_hs result" where
  "message_end hs = rbind hs (\<lambda>hs. Inr (hs\<lparr>is_shaker_ended := True\<rparr>))"

lemma ws_settings_listener: "ws_settings = listener header_field_piece header_value_piece message_end"
proof -
  have "on_ws_header_field = (\<lambda>ps at n u. (0, False, header_field_piece (take n at) u))"
    "on_ws_header_value = (\<lambda>ps at n u. (0, False, header_value_piece (take n at) u))"
    "on_message_end = (\<lambda>ps u. (0, False, message_end u))"
    by (intro ext; simp add: on_ws_header_field_def on_ws_header_value_def on_message_end_def message_end_def)+
  then show ?thesis by (simp add: ws_settings_def listener_def)
qed

text \<open>
  The headers whose names pass the comparison: the names that are prefixes of
  \<open>Sec-WebSocket-Key\<close>.
\<close>

definition key_headers :: "header_line list \<Rightarrow> string list" where
  "key_headers hs = map snd (filter (\<lambda>(f, v). take (length f) SEC_WEBSOCKET_KEY = f) hs)"

definition no_nul :: "string \<Rightarrow> bool" where
  "no_nul s \<longleftrightarrow> CHR 0x00 \<notin> set s"

lemma c_str_id: "no_nul s \<Longrightarrow> c_str s = s"
  by (auto simp: c_str_def no_nul_def intro: takeWhile_eq_all_conv [THEN iffD2])

lemma TOKEN_NUL: "TOKEN (CHR 0x00) = 0"
  by (simp add: TOKEN_def table_at_def tokens_def code_def)

lemma IS_HEADER_CHAR_NUL: "\<not> IS_HEADER_CHAR (CHR 0x00)"
  by (simp add: IS_HEADER_CHAR_def char_defs)

lemma header_no_nul: "header_ok (f, v) \<Longrightarrow> no_nul f \<and> no_nul v"
  using TOKEN_NUL IS_HEADER_CHAR_NUL by (auto simp: header_ok_def name_ok_def value_ok_def no_nul_def)

lemma strncmp_name: "no_nul f \<Longrightarrow> strncmp_eq f SEC_WEBSOCKET_KEY (length f) \<longleftrightarrow> take (length f) SEC_WEBSOCKET_KEY = f"
  by (auto simp: strncmp_eq_def c_str_id) (simp_all add: c_str_def SEC_WEBSOCKET_KEY_def)

lemma piece_simps:
  "header_field_piece s (Inr h) = Inr (h\<lparr>is_sec_key := strncmp_eq s SEC_WEBSOCKET_KEY (length s)\<rparr>)"
  "header_value_piece s (Inr h) =
     (if \<not> is_sec_key h then Inr h
      else if length s \<ge> KEY_LEN then Inl OutOfBounds
      else Inr (h\<lparr>value_sec_key := c_str s, has_sec_key := True\<rparr>))"
  "header_field_piece s (Inl e) = Inl e" "header_value_piece s (Inl e) = Inl e"
  by (simp_all add: header_field_piece_def header_value_piece_def)

lemma key_headers_simps [simp]:
  "key_headers [] = []"
  "key_headers ((f, v) # hs) = (if take (length f) SEC_WEBSOCKET_KEY = f then v # key_headers hs else key_headers hs)"
  by (simp_all add: key_headers_def)

lemma heard_Inl: "heard header_field_piece header_value_piece hs (Inl e) = Inl e"
  by (induction hs) (auto simp: heard_def piece_simps)

lemma heard_Cons:
  "heard ff fv ((f, v) # hs) u = heard ff fv hs (fv v (ff f u))"
  by (simp add: heard_def)

lemma heard_keys:
  assumes "\<forall>x \<in> set hs. header_ok x"
  shows "heard header_field_piece header_value_piece hs (Inr h) =
      (if \<exists>k \<in> set (key_headers hs). KEY_LEN \<le> length k then Inl OutOfBounds
       else Inr (h\<lparr>is_sec_key := (if hs = [] then is_sec_key h
                       else take (length (fst (last hs))) SEC_WEBSOCKET_KEY = fst (last hs)),
                  value_sec_key := (if key_headers hs = [] then value_sec_key h else last (key_headers hs)),
                  has_sec_key := (has_sec_key h \<or> key_headers hs \<noteq> [])\<rparr>))"
  using assms
proof (induction hs arbitrary: h)
  case Nil
  then show ?case by (simp add: heard_def)
next
  case (Cons x hs)
  obtain f v where x: "x = (f, v)" by fastforce
  have n: "no_nul f" "no_nul v" using header_no_nul Cons.prems x by auto
  show ?case
    using Cons.IH Cons.prems n by (simp add: x heard_Cons heard_Inl piece_simps strncmp_name c_str_id)
qed

section \<open>A whole handshake\<close>

definition to_bytes :: "string \<Rightarrow> byte list" where
  "to_bytes s = map byte_of_char s"

lemma map_char_to_bytes [simp]: "map char_of_byte (to_bytes s) = s"
  by (simp add: to_bytes_def del: map_map)

text \<open>The answer the protocol asks for: base64 of the SHA-1 of the key and the magic text.\<close>

definition rfc_accept :: "string \<Rightarrow> string" where
  "rfc_accept key = base64_text (fips_sha1 (to_bytes (key @ wb_migic)))"

lemma length_wb_migic: "length wb_migic = 36"
  by (simp add: wb_migic_def)

lemma accept_fips:
  assumes "length stack = 64" "length key < 476"
  shows "crypt_sha1 stack (to_bytes (key @ wb_migic)) = fips_sha1 (to_bytes (key @ wb_migic))"
    and "length (rfc_accept key) = 28"
    and "base64_encode (fips_sha1 (to_bytes (key @ wb_migic))) = Inr (rfc_accept key, 28)"
proof -
  have "length (to_bytes (key @ wb_migic)) < 2 ^ 29" using assms(2) by (simp add: to_bytes_def length_wb_migic)
  from crypt_sha1_fips [OF assms(1) this]
  show d: "crypt_sha1 stack (to_bytes (key @ wb_migic)) = fips_sha1 (to_bytes (key @ wb_migic))" .
  then have l: "length (fips_sha1 (to_bytes (key @ wb_migic))) = 20" by (metis length_crypt_sha1)
  then show "length (rfc_accept key) = 28" by (simp add: rfc_accept_def length_base64_text)
  with l show "base64_encode (fips_sha1 (to_bytes (key @ wb_migic))) = Inr (rfc_accept key, 28)"
    by (simp add: base64_encode_eq rfc_accept_def BASE64_MAX_def)
qed

lemma length_reply: "length key < 476 \<Longrightarrow> length (to_bytes (wb_accept (rfc_accept key))) + 1 \<le> RESPONES_LEN"
  using accept_fips(2) [of "replicate 64 0" key] by (simp add: wb_accept_def CRLF_def RESPONES_LEN_def to_bytes_def)

lemma ws_answer_eq:
  assumes "length stack = 64"
  shows "ws_answer stack key =
    (if length key < 476 then Inr (to_bytes (wb_accept (rfc_accept key))) else Inl OutOfBounds)"
proof (cases "length key < 476")
  case True
  note a = accept_fips [OF assms True]
  have "length (wb_accept (rfc_accept key)) + 1 \<le> KEY_LEN"
    using a(2) by (simp add: wb_accept_def CRLF_def KEY_LEN_def)
  with True a(1,3) show ?thesis
    by (simp add: ws_answer_def Let_def length_wb_migic KEY_LEN_def to_bytes_def [symmetric] del: map_append)
next
  case False
  then show ?thesis by (simp add: ws_answer_def length_wb_migic KEY_LEN_def)
qed

definition request_ok :: "string \<Rightarrow> header_line list \<Rightarrow> bool" where
  "request_ok url hs \<longleftrightarrow>
     url_ok url \<and> (\<forall>h \<in> set hs. header_ok h) \<and> length (request_text url hs) \<le> HTTP_MAX_HEADER_SIZE"

lemma ws_execute:
  assumes "request_ok url hs"
  obtains ps where "http_parser_execute ws_settings (http_parser_init HTTP_REQUEST) u (request_text url hs) =
    Inr (length (request_text url hs), ps, message_end (heard header_field_piece header_value_piece hs u))"
  using request_run [of url hs header_field_piece header_value_piece message_end u] assms
  unfolding ws_settings_listener request_ok_def by blast

lemma ws_shake_hand_run:
  assumes "request_ok url hs" "length stack = 64"
  shows "\<exists>h'. ws_shake_hand stack i (to_bytes (request_text url hs)) (h, n) =
    (if \<exists>k \<in> set (key_headers hs). KEY_LEN \<le> length k then Inl OutOfBounds
     else if key_headers hs = [] then Inr (False, h', n)
     else if length (last (key_headers hs)) < 476 then
       rbind (send_data i (to_bytes (wb_accept (rfc_accept (last (key_headers hs))))) n) (\<lambda>n. Inr (True, h', n))
     else Inl OutOfBounds)"
proof -
  let ?h = "h\<lparr>is_sec_key := False, has_sec_key := False, is_shaker_ended := False\<rparr>"
  have ok: "\<forall>x \<in> set hs. header_ok x" using assms(1) by (simp add: request_ok_def)
  obtain ps where "http_parser_execute ws_settings (http_parser_init HTTP_REQUEST) (Inr ?h) (request_text url hs) =
    Inr (length (request_text url hs), ps, message_end (heard header_field_piece header_value_piece hs (Inr ?h)))"
    using ws_execute [OF assms(1), where u = "Inr ?h"] by blast
  then show ?thesis
    by (auto simp: ws_shake_hand_def heard_keys [OF ok] message_end_def ws_answer_eq [OF assms(2)])
qed

lemma send_response:
  assumes "sessions n i = Some (UvSession s)" "socket_type s = WS_SOCKET" "is_ws_shake s = 0"
    and "length (respones n) = RESPONES_LEN" "length reply \<le> RESPONES_LEN"
  shows "\<exists>n' e. send_data i reply n = Inr n' \<and> events n' = events n @ [e] \<and> wire_bytes n' e = reply
    \<and> sessions n' = sessions n"
  using assms by (simp add: send_data_def uv_send_data_def emit_def wire_bytes_def blit_def)

lemma shake_hand_answers:
  assumes "request_ok url hs" "key_headers hs \<noteq> []" "\<forall>k \<in> set (key_headers hs). length k < 476"
    and "sessions n i = Some (UvSession s)" "socket_type s = WS_SOCKET" "is_ws_shake s = 0"
    and "length (respones n) = RESPONES_LEN" "length stack = 64"
  shows "\<exists>h' n' e. ws_shake_hand stack i (to_bytes (request_text url hs)) (h, n) = Inr (True, h', n')
    \<and> events n' = events n @ [e] \<and> wire_bytes n' e = to_bytes (wb_accept (rfc_accept (last (key_headers hs))))
    \<and> sessions n' = sessions n"
proof -
  let ?key = "last (key_headers hs)"
  have k: "length ?key < 476" using assms(2,3) by simp
  have "\<not> (\<exists>k \<in> set (key_headers hs). KEY_LEN \<le> length k)" using assms(3) by (fastforce simp: KEY_LEN_def)
  with ws_shake_hand_run [OF assms(1,8), of i h n] assms(2) k obtain h' where
    1: "ws_shake_hand stack i (to_bytes (request_text url hs)) (h, n) =
      rbind (send_data i (to_bytes (wb_accept (rfc_accept ?key))) n) (\<lambda>n. Inr (True, h', n))" by auto
  obtain n' e where "send_data i (to_bytes (wb_accept (rfc_accept ?key))) n = Inr n'" "events n' = events n @ [e]"
    "wire_bytes n' e = to_bytes (wb_accept (rfc_accept ?key))" "sessions n' = sessions n"
    using send_response [OF assms(4-7)] length_reply [OF k] by force
  with 1 show ?thesis by auto
qed

section \<open>Properties\<close>

text \<open>
  C16: A request with a key header is answered with the accept value of RFC 6455, base64 of the
  FIPS 180 SHA-1 of the key and the magic text, for every key of up to 475 bytes; the answer
  is the next write on the session. (The headers that count as key headers are all those
  whose name is a prefix of \<open>Sec-WebSocket-Key\<close>, and the last of them wins.)
\<close>
theorem handshake_answers:
  assumes "request_ok url hs" "key_headers hs \<noteq> []" "\<forall>k \<in> set (key_headers hs). length k < 476"
    and "sessions n i = Some (UvSession s)" "socket_type s = WS_SOCKET" "is_ws_shake s = 0"
    and "length (respones n) = RESPONES_LEN" "length stack = 64"
  shows "\<exists>h' n' e. ws_shake_hand stack i (to_bytes (request_text url hs)) (h, n) = Inr (True, h', n')
    \<and> events n' = events n @ [e] \<and> wire_bytes n' e = to_bytes (wb_accept (rfc_accept (last (key_headers hs))))
    \<and> sessions n' = sessions n"
  using assms by (rule shake_hand_answers)

text \<open>A session that has not shaken hands, and two requests.\<close>

definition ws_node :: "(unit, byte list) node" where
  "ws_node =
     \<lparr>sessions = [1 \<mapsto> UvSession (uv_session_create (replicate 4096 0) WS_SOCKET)],
      g_service_set = [], protos = proto_state_init, app = (),
      respones = replicate RESPONES_LEN 0, wr_live = 0, events = []\<rparr>"

definition ws_hs0 :: ws_hs where
  "ws_hs0 = \<lparr>value_sec_key = [], is_sec_key = False, has_sec_key = False, is_shaker_ended = False\<rparr>"

lemmas demo_request =
  request_ok_def url_ok_def IS_URL_CHAR_def normal_url_char_def code_def bit_0 header_ok_def name_ok_def
  value_ok_def TOKEN_def table_at_def tokens_def IS_HEADER_CHAR_def CONTENT_LENGTH_def TRANSFER_ENCODING_def
  char_defs request_text_def header_text_def CRLF_def HTTP_MAX_HEADER_SIZE_def

lemma handshake_answers_witness:
  "\<exists>h' n' e. ws_shake_hand (replicate 64 0) 1
      (to_bytes (request_text ''/'' [(''Host'', ''h''), (''Sec-WebSocket-Key'', ''x3JJ''), (''Sec'', ''abc'')])) (ws_hs0, ws_node)
    = Inr (True, h', n')
    \<and> events n' = events ws_node @ [e] \<and> wire_bytes n' e = to_bytes (wb_accept (rfc_accept ''abc''))
    \<and> sessions n' = sessions ws_node"
proof -
  let ?hs = "[(''Host'', ''h''), (''Sec-WebSocket-Key'', ''x3JJ''), (''Sec'', ''abc'')]"
  let ?s = "uv_session_create (replicate 4096 0) WS_SOCKET"
  have k: "key_headers ?hs = [''x3JJ'', ''abc'']" by (simp add: SEC_WEBSOCKET_KEY_def)
  have "request_ok ''/'' ?hs" by (simp add: demo_request)
  moreover have "sessions ws_node 1 = Some (UvSession ?s)" "socket_type ?s = WS_SOCKET" "is_ws_shake ?s = 0"
    "length (respones ws_node) = RESPONES_LEN"
    by (simp_all add: ws_node_def uv_session_create_def)
  ultimately show ?thesis
    using handshake_answers [of "''/''" ?hs ws_node 1 ?s "replicate 64 0" ws_hs0] unfolding k by simp
qed

text \<open>
  Without a key header a request is not answered: nothing is sent, and the handshake goes on
  waiting. Names are compared byte for byte, so a header \<open>sec-websocket-key\<close> does not count.
\<close>
theorem handshake_needs_key:
  assumes "request_ok url hs" "\<forall>(f, v) \<in> set hs. take (length f) SEC_WEBSOCKET_KEY \<noteq> f" "length stack = 64"
  shows "\<exists>h'. ws_shake_hand stack i (to_bytes (request_text url hs)) (h, n) = Inr (False, h', n)"
proof -
  have "key_headers hs = []" using assms(2) by (auto simp: key_headers_def filter_empty_conv)
  with ws_shake_hand_run [OF assms(1,3), of i h n] show ?thesis by auto
qed

lemma handshake_needs_key_witness:
  "\<exists>h'. ws_shake_hand (replicate 64 0) 1
      (to_bytes (request_text ''/'' [(''sec-websocket-key'', ''x3JJ'')])) (ws_hs0, ws_node) = Inr (False, h', ws_node)"
proof -
  have "request_ok ''/'' [(''sec-websocket-key'', ''x3JJ'')]" by (simp add: demo_request)
  then show ?thesis by (intro handshake_needs_key) (simp_all add: SEC_WEBSOCKET_KEY_def)
qed

text \<open>
  C40: A key of 476 bytes or more overflows one of the static arrays, \<open>value_sec_key\<close> from 512
  bytes on and \<open>key_migic\<close> below that: nothing checks its length.
\<close>
theorem handshake_long_key:
  assumes "request_ok url hs" "key_headers hs = [k]" "476 \<le> length k" "length stack = 64"
  shows "ws_shake_hand stack i (to_bytes (request_text url hs)) (h, n) = Inl OutOfBounds"
  using ws_shake_hand_run [OF assms(1,4), of i h n] assms(2,3) by (auto split: if_splits)

lemma handshake_long_key_witness:
  "ws_shake_hand (replicate 64 0) 1
      (to_bytes (request_text ''/'' [(''Sec-WebSocket-Key'', replicate 476 CHR ''A'')])) (ws_hs0, ws_node) = Inl OutOfBounds"
proof -
  let ?hs = "[(''Sec-WebSocket-Key'', replicate 476 CHR ''A'')]"
  have "request_ok ''/'' ?hs" by (simp add: demo_request)
  then show ?thesis
    by (rule handshake_long_key [where k = "replicate 476 CHR ''A''"]) (simp_all add: SEC_WEBSOCKET_KEY_def)
qed

end
