(* ===== verification/Netbus.thy ===== *)
theory Netbus
  imports Recv_Loop Ws_Handshake
begin

text \<open>
  The connections of the server, \<open>netbus/netbus.cc\<close>: the two callbacks libuv calls while it
  reads from a TCP socket (a buffer for the next bytes, and the arrival of bytes), the life of a
  session from the accept or the connect to its destruction, the listeners, and UDP.

  Calls into libuv are events (theory \<open>Session\<close>); what libuv and the allocator answer is an
  argument. A receive loop that does not end is \<open>None\<close>.
\<close>

section \<open>State\<close>

text \<open>The static variables of the handshake, and the node.\<close>

type_synonym ('a, 'm) server = "ws_hs \<times> ('a, 'm) node"

text \<open>A \<open>uv_buf_t\<close>: an address inside one of the two buffers of a session, and a length.\<close>

datatype buf_base = InRecvBuf int | InLongPkg int

record uv_buf =
  base :: buf_base
  len :: u32

definition uv_buf_init :: "buf_base \<Rightarrow> int \<Rightarrow> uv_buf" where
  "uv_buf_init b n = \<lparr>base = b, len = word_of_int n\<rparr>"

section \<open>A buffer for the next bytes\<close>

text \<open>
  The start of a packet that does not fit: a block of the announced size, and a copy of what
  has been received. \<open>malloc\<close> is an argument: a block, or a null pointer.
\<close>

definition start_long_pkg ::
  "(int \<Rightarrow> byte list option) \<Rightarrow> (int \<times> int) option \<Rightarrow> recv_state \<Rightarrow> recv_state result" where
  "start_long_pkg malloc hdr r =
     (case hdr of
        None \<Rightarrow> Inl UseUninit
      | Some (pkg_size, head_size) \<Rightarrow>
          (case malloc pkg_size of
             None \<Rightarrow> Inl NullDeref
           | Some block \<Rightarrow>
               if recved r \<le> int (length block) \<and> recved r \<le> int (length (recv_buf r)) then
                 Inr (r\<lparr>long_pkg_size := pkg_size,
                        long_pkg := Some (blit block 0 (take (nat (recved r)) (recv_buf r)))\<rparr>)
               else Inl OutOfBounds))"

text \<open>
  \<open>uv_alloc_buf\<close>. \<open>buf\<close> is what \<open>*buf\<close> holds at entry, \<open>None\<close> if it was never set; one of the
  branches does not assign it.
\<close>

definition uv_alloc_buf ::
  "(int \<Rightarrow> byte list option) \<Rightarrow> uv_session \<Rightarrow> uv_buf option \<Rightarrow> (uv_buf option \<times> uv_session) result" where
  "uv_alloc_buf malloc s buf =
     (let r = rx s in
      if recved r < RECV_LEN then
        Inr (Some (uv_buf_init (InRecvBuf (recved r)) (RECV_LEN - recved r)), s)
      else if long_pkg r = None then
        rbind (start_long_pkg malloc
                 (if socket_type s = WS_SOCKET \<and> is_ws_shake s \<noteq> 0
                  then ws_read_header (recv_buf r) (recved r)
                  else tp_read_header (recv_buf r) (recved r)) r)
          (\<lambda>r. Inr (buf, s\<lparr>rx := r\<rparr>))
      else Inr (Some (uv_buf_init (InLongPkg (recved r)) (long_pkg_size r - recved r)), s))"

section \<open>The arrival of bytes\<close>

definition set_session :: "sid \<Rightarrow> uv_session \<Rightarrow> ('a, 'm) node \<Rightarrow> ('a, 'm) node" where
  "set_session i s n = put_session i (UvSession s) n"

text \<open>\<open>s->is_ws_shake = 1; s->recved = 0;\<close>\<close>

definition shaken :: "sid \<Rightarrow> ('a, 'm) node \<Rightarrow> ('a, 'm) node result" where
  "shaken i n =
     rbind (uv_at n i) (\<lambda>s. Inr (set_session i (s\<lparr>is_ws_shake := 1, rx := (rx s)\<lparr>recved := 0\<rparr>\<rparr>) n))"

text \<open>The handshake reads from \<open>recv_buf\<close>, whatever buffer the bytes went to.\<close>

definition try_handshake :: "byte list \<Rightarrow> sid \<Rightarrow> ('a, 'm) server \<Rightarrow> ('a, 'm) server result" where
  "try_handshake stack i = (\<lambda>(hs, n).
     rbind (uv_at n i) (\<lambda>s. let r = rx s in
       if recved r \<le> int (length (recv_buf r)) then
         rbind (ws_shake_hand stack i (take (nat (recved r)) (recv_buf r)) (hs, n))
           (\<lambda>(ok, hs, n). if ok then map_result (Pair hs) (shaken i n) else Inr (hs, n))
       else Inl OutOfBounds))"

text \<open>\<open>after_read\<close>.\<close>

definition after_read ::
  "'m env \<Rightarrow> nat \<Rightarrow> byte list \<Rightarrow> sid \<Rightarrow> int \<Rightarrow> ('a, 'm) server \<Rightarrow> ('a, 'm) server result option" where
  "after_read E depth stack i nread = (\<lambda>(hs, n).
     if nread < 0 then Some (map_result (Pair hs) (close_session E depth i n))
     else case uv_at n i of
       Inl e \<Rightarrow> Some (Inl e)
     | Inr s \<Rightarrow>
         let n = set_rx i ((rx s)\<lparr>recved := recved (rx s) + nread\<rparr>) n in
         if socket_type s = WS_SOCKET then
           if is_ws_shake s = 0 then Some (try_handshake stack i (hs, n))
           else map_option (map_result (Pair hs)) (on_recv_ws_data E depth i n)
         else map_option (map_result (Pair hs)) (on_recv_tcp_data E depth i n))"

text \<open>
  One read of libuv from a connected socket: it asks for a buffer, writes the next bytes of
  the stream there, no more than the buffer holds, and reports them; without room in the
  buffer it reports an error.
\<close>

definition UV_ENOBUFS :: int where "UV_ENOBUFS = -105"

definition fill_buf :: "uv_buf \<Rightarrow> byte list \<Rightarrow> recv_state \<Rightarrow> recv_state result" where
  "fill_buf b bs r =
     (case base b of
        InRecvBuf off \<Rightarrow>
          if 0 \<le> off \<and> off + int (length bs) \<le> int (length (recv_buf r))
          then Inr (r\<lparr>recv_buf := blit (recv_buf r) (nat off) bs\<rparr>) else Inl OutOfBounds
      | InLongPkg off \<Rightarrow>
          (case long_pkg r of
             None \<Rightarrow> Inl UseAfterFree
           | Some d \<Rightarrow>
               if 0 \<le> off \<and> off + int (length bs) \<le> int (length d)
               then Inr (r\<lparr>long_pkg := Some (blit d (nat off) bs)\<rparr>) else Inl OutOfBounds))"

definition uv_read ::
  "'m env \<Rightarrow> nat \<Rightarrow> byte list \<Rightarrow> (int \<Rightarrow> byte list option) \<Rightarrow> uv_buf option \<Rightarrow> sid \<Rightarrow> byte list
    \<Rightarrow> ('a, 'm) server \<Rightarrow> ('a, 'm) server result option" where
  "uv_read E depth stack malloc buf i bs = (\<lambda>(hs, n).
     case rbind (uv_at n i) (\<lambda>s. uv_alloc_buf malloc s buf) of
       Inl e \<Rightarrow> Some (Inl e)
     | Inr (None, s) \<Rightarrow> Some (Inl UseUninit)
     | Inr (Some b, s) \<Rightarrow>
         if len b = 0 then after_read E depth stack i UV_ENOBUFS (hs, set_rx i (rx s) n)
         else case fill_buf b bs (rx s) of
           Inl e \<Rightarrow> Some (Inl e)
         | Inr r \<Rightarrow> after_read E depth stack i (int (length bs)) (hs, set_rx i r n))"

section \<open>A stream in pieces\<close>

text \<open>\<open>bs\<close> behind what the small buffer holds.\<close>

definition append_rx :: "byte list \<Rightarrow> recv_state \<Rightarrow> recv_state" where
  "append_rx bs r =
     r\<lparr>recv_buf := blit (recv_buf r) (nat (recved r)) bs, recved := recved r + int (length bs)\<rparr>"

lemma append_rx_ok:
  assumes "rx_ok r" "long_pkg r = None" "recved r + int (length bs) \<le> RECV_LEN"
  shows "rx_ok (append_rx bs r)" "received (append_rx bs r) = received r @ bs" "long_pkg (append_rx bs r) = None"
proof -
  have "0 \<le> recved r" "int (length (recv_buf r)) = RECV_LEN" using assms(1) by (simp_all add: rx_ok_def)
  then have l: "nat (recved r) + length bs \<le> length (recv_buf r)" using assms(3) by linarith
  note lb = length_blit [OF l]
  show "rx_ok (append_rx bs r)"
    using assms lb by (auto simp: rx_ok_def append_rx_def pkg_data_def)
  have n: "nat (recved r + int (length bs)) = nat (recved r) + length bs"
    using assms(1) by (simp add: rx_ok_def nat_add_distrib)
  show "received (append_rx bs r) = received r @ bs"
    using assms(2) take_blit [OF l] by (simp add: received_def append_rx_def pkg_data_def n)
  show "long_pkg (append_rx bs r) = None" using assms(2) by (simp add: append_rx_def)
qed

text \<open>
  A stream whose frames and whose last, incomplete frame fit in the small buffer, and that
  announces no empty frame.
\<close>

definition fits :: "(byte list \<Rightarrow> int \<Rightarrow> (int \<times> int) option) \<Rightarrow> byte list \<Rightarrow> bool" where
  "fits hdr bs \<longleftrightarrow>
     (\<forall>(f, h) \<in> set (fst (frames hdr bs)). int (length f) \<le> RECV_LEN)
     \<and> int (length (snd (frames hdr bs))) < RECV_LEN \<and> \<not> zero_size_at hdr (snd (frames hdr bs))"

text \<open>
  A sequence of reads, each with the buffer variable libuv passes in and the bytes of the piece.
  \<open>pieces_fit\<close>: each piece is what the network had, at least one byte and no more than there
  is room for behind the bytes \<open>w\<close> that wait in the buffer.
\<close>

fun reads :: "('b \<Rightarrow> byte list \<Rightarrow> 's \<Rightarrow> 's result option) \<Rightarrow> ('b \<times> byte list) list \<Rightarrow> 's \<Rightarrow> 's result option" where
  "reads read [] x = Some (Inr x)"
| "reads read ((buf, bs) # cs) x =
     (case read buf bs x of
        None \<Rightarrow> None
      | Some (Inl e) \<Rightarrow> Some (Inl e)
      | Some (Inr y) \<Rightarrow> reads read cs y)"

fun pieces_fit :: "(byte list \<Rightarrow> int \<Rightarrow> (int \<times> int) option) \<Rightarrow> byte list \<Rightarrow> byte list list \<Rightarrow> bool" where
  "pieces_fit hdr w [] \<longleftrightarrow> True"
| "pieces_fit hdr w (bs # cs) \<longleftrightarrow>
     bs \<noteq> [] \<and> int (length w) + int (length bs) \<le> RECV_LEN \<and> pieces_fit hdr (snd (frames hdr (w @ bs))) cs"

text \<open>
  The reads of a connection: a step function that is given the next bytes, and a client that
  relies on it. \<open>kind\<close> tells the sessions that the step treats as this kind of connection.
\<close>

locale connection = receive_loop hdr step dispatch i for hdr step
    and dispatch :: "byte list \<times> int \<Rightarrow> ('a, 'm) node \<Rightarrow> ('a, 'm) node result" and i +
  fixes kind :: "uv_session \<Rightarrow> bool"
    and read :: "uv_buf option \<Rightarrow> byte list \<Rightarrow> ('a, 'm) server \<Rightarrow> ('a, 'm) server result option"
  assumes late_header: "hdr d (int (length d)) = None \<Longrightarrow> hdr (d @ e) (int (length (d @ e))) = Some x \<Longrightarrow>
      int (length d) < RECV_LEN"
    and kind_conn: "conn_view (UvSession s) = conn_view (UvSession s') \<Longrightarrow> kind s = kind s'"
    and kind_rx: "kind (s\<lparr>rx := r\<rparr>) = kind s"
    and read_fits: "uv_at n i = Inr s \<Longrightarrow> kind s \<Longrightarrow> rx_ok (rx s) \<Longrightarrow> long_pkg (rx s) = None \<Longrightarrow> bs \<noteq> [] \<Longrightarrow>
      recved (rx s) + int (length bs) \<le> RECV_LEN \<Longrightarrow>
      read buf bs (hs, n) = map_option (map_result (Pair hs)) (recv_loop step (set_rx i (append_rx bs (rx s)) n))"
begin

lemma fits_prefix:
  assumes "fits hdr (xs @ ys)"
  shows "fits hdr xs"
proof -
  let ?r = "snd (frames hdr xs)"
  have a: "frames hdr (xs @ ys) = (fst (frames hdr xs) @ fst (frames hdr (?r @ ys)), snd (frames hdr (?r @ ys)))"
    by (rule frames_append)
  have none: "frame_at hdr ?r = None" by (rule frames_rest_incomplete)
  have nz: "\<not> zero_size_at hdr ?r"
  proof
    assume "zero_size_at hdr ?r"
    then have z: "zero_size_at hdr (?r @ ys)" by (rule zero_size_append)
    then have "frame_at hdr (?r @ ys) = None" by (auto simp: zero_size_at_def frame_at_def)
    with frames_None [OF this] z assms a show False by (simp add: fits_def)
  qed
  have "int (length ?r) < RECV_LEN"
  proof (cases "frame_at hdr (?r @ ys)")
    case None
    then show ?thesis using frames_None [OF None] assms a by (simp add: fits_def)
  next
    case (Some ph)
    obtain p h where ph: "ph = (p, h)" by fastforce
    have f: "(take (nat p) (?r @ ys), h) \<in> set (fst (frames hdr (?r @ ys)))"
      using frames_Some [of hdr "?r @ ys" p h] Some ph by simp
    have "\<forall>x \<in> set (fst (frames hdr (?r @ ys))). int (length (fst x)) \<le> RECV_LEN"
      using assms a by (auto simp: fits_def)
    from bspec [OF this f] have "int (length (take (nat p) (?r @ ys))) \<le> RECV_LEN" by simp
    moreover have b: "0 < p" "p \<le> int (length (?r @ ys))" using frame_at_bounds [of hdr "?r @ ys" p h] Some ph by auto
    ultimately have p: "p \<le> RECV_LEN" by (simp add: min_def split: if_splits)
    have hd: "hdr (?r @ ys) (int (length (?r @ ys))) = Some (p, h)"
      using Some ph by (auto simp: frame_at_def split: if_splits option.splits)
    show ?thesis
    proof (cases "?r = [] \<or> hdr ?r (int (length ?r)) = None")
      case True
      then show ?thesis using late_header [OF _ hd] by (auto simp: RECV_LEN_def)
    next
      case False
      then obtain q where "hdr ?r (int (length ?r)) = Some q" by auto
      with hdr_append [of ?r q ys] hd False have "hdr ?r (int (length ?r)) = Some (p, h)" by simp
      with none b(1) False have "int (length ?r) < p" by (auto simp: frame_at_def split: if_splits)
      with p show ?thesis by simp
    qed
  qed
  with nz assms a show ?thesis by (auto simp: fits_def)
qed

lemma fits_frames: "fits hdr xs \<Longrightarrow> int (length (snd (frames hdr xs))) < RECV_LEN"
  by (simp add: fits_def)

text \<open>One read: the frames that are complete now are dispatched, the rest waits.\<close>

lemma one_read:
  assumes "uv_at n i = Inr s" "kind s" "rx_ok (rx s)" "long_pkg (rx s) = None" "bs \<noteq> []"
    and "recved (rx s) + int (length bs) \<le> RECV_LEN" "fits hdr (received (rx s) @ bs)"
  shows "\<exists>r'. leaves (rx s) (snd (frames hdr (received (rx s) @ bs))) r' \<and>
    read buf bs (hs, n) = Some (map_result (Pair hs)
      (map_result (set_rx i r') (deliver dispatch (fst (frames hdr (received (rx s) @ bs))) n)))"
proof -
  let ?r = "append_rx bs (rx s)" and ?n = "set_rx i (append_rx bs (rx s)) n"
  note a = append_rx_ok [OF assms(3,4,6)]
  have at: "uv_at ?n i = Inr (s\<lparr>rx := ?r\<rparr>)" by (rule uv_at_set_rx [OF assms(1)])
  obtain r' where "leaves ?r (snd (frames hdr (received ?r))) r'"
    "recv_loop step ?n = Some (map_result (set_rx i r') (deliver dispatch (fst (frames hdr (received ?r))) ?n))"
    using loop_delivers [OF at _ refl] a(1) assms(7) by (auto simp: a(2) fits_def)
  with assms read_fits [OF assms(1-6), of buf hs] a show ?thesis
    by (intro exI [of _ r']) (simp add: leaves_def deliver_blind [OF dispatch_blind] map_result_comp)
qed

lemma recved_received: "rx_ok r \<Longrightarrow> int (length (received r)) = recved r"
  by (auto simp: received_def rx_ok_def min_def)

lemma exists_leaves:
  assumes "long_pkg r = None" "int (length bs) \<le> RECV_LEN"
  shows "\<exists>r'. leaves r bs r'"
proof
  show "leaves r bs (r\<lparr>recv_buf := bs @ replicate (nat RECV_LEN - length bs) 0, recved := int (length bs)\<rparr>)"
    using assms by (auto simp: leaves_def rx_ok_def received_def pkg_data_def RECV_LEN_def)
qed

text \<open>However the stream is cut into pieces, what is dispatched and what waits is the same.\<close>

lemma stream_delivered:
  assumes "uv_at n i = Inr s" "kind s" "rx_ok (rx s)" "long_pkg (rx s) = None"
    and "frame_at hdr (received (rx s)) = None"
    and "pieces_fit hdr (received (rx s)) (map snd cs)" "fits hdr (received (rx s) @ concat (map snd cs))"
  shows "\<exists>r'. leaves (rx s) (snd (frames hdr (received (rx s) @ concat (map snd cs)))) r' \<and>
    reads read cs (hs, n) = Some (map_result (Pair hs)
      (map_result (set_rx i r') (deliver dispatch (fst (frames hdr (received (rx s) @ concat (map snd cs)))) n)))"
  using assms
proof (induction cs arbitrary: n s)
  case Nil
  show ?case
    using Nil.prems(1,3) frames_None [OF Nil.prems(5)] set_rx_same [OF Nil.prems(1)]
    by (intro exI [of _ "rx s"]) (simp add: leaves_def)
next
  case (Cons c cs)
  obtain buf bs where c: "c = (buf, bs)" by fastforce
  let ?w = "received (rx s)" and ?ds = "concat (map snd cs)"
  let ?fs = "fst (frames hdr (?w @ bs))" and ?w' = "snd (frames hdr (?w @ bs))"
  have p: "bs \<noteq> []" "recved (rx s) + int (length bs) \<le> RECV_LEN" "pieces_fit hdr ?w' (map snd cs)"
    using Cons.prems(6) recved_received [OF Cons.prems(3)] by (simp_all add: c)
  have all: "fits hdr ((?w @ bs) @ ?ds)" using Cons.prems(7) by (simp add: c)
  have fr: "frames hdr (?w @ concat (map snd (c # cs))) =
      (?fs @ fst (frames hdr (?w' @ ?ds)), snd (frames hdr (?w' @ ?ds)))"
    using frames_append [of "?w @ bs" ?ds] by (simp add: c)
  have fits': "fits hdr (?w' @ ?ds)" using all frames_append [of "?w @ bs" ?ds] by (auto simp: fits_def)
  obtain r1 where r1: "leaves (rx s) ?w' r1"
    "read buf bs (hs, n) = Some (map_result (Pair hs) (map_result (set_rx i r1) (deliver dispatch ?fs n)))"
    using one_read [OF Cons.prems(1-4) p(1,2) fits_prefix [OF all], of buf hs] by blast
  have r1': "rx_ok r1" "received r1 = ?w'" "long_pkg r1 = None"
    using r1(1) Cons.prems(4) by (simp_all add: leaves_def)
  show ?case
  proof (cases "deliver dispatch ?fs n")
    case (Inl e)
    obtain r' where "leaves (rx s) (snd (frames hdr (?w' @ ?ds))) r'"
      using exists_leaves [OF Cons.prems(4)] fits_frames [OF fits'] by (meson less_imp_le)
    with Inl r1(2) fr show ?thesis by (auto simp: c deliver_append)
  next
    case (Inr m)
    have pr: "progress n m" by (rule deliver_progress [OF dispatch_progress Inr])
    obtain t where t: "uv_at m i = Inr t" "rx t = rx s" using uv_at_progress [OF pr Cons.prems(1)] by blast
    have "kind t" using progress_conn [OF pr uv_atD [OF Cons.prems(1)]] uv_atD [OF t(1)] kind_conn [of t s] Cons.prems(2)
      by auto
    then have k: "kind (t\<lparr>rx := r1\<rparr>)" by (simp add: kind_rx)
    obtain r' where r': "leaves r1 (snd (frames hdr (?w' @ ?ds))) r'"
      "reads read cs (hs, set_rx i r1 m) = Some (map_result (Pair hs)
        (map_result (set_rx i r') (deliver dispatch (fst (frames hdr (?w' @ ?ds))) (set_rx i r1 m))))"
      using Cons.IH [OF uv_at_set_rx [OF t(1)] k] r1' p(3) fits' frames_rest_incomplete [of hdr "?w @ bs"] by auto
    have "leaves (rx s) (snd (frames hdr (?w' @ ?ds))) r'" by (rule leaves_trans [OF r1(1) r'(1)])
    moreover have "reads read (c # cs) (hs, n) = reads read cs (hs, set_rx i r1 m)"
      using r1(2) Inr by (simp add: c)
    ultimately show ?thesis
      using r'(2) fr Inr
      by (intro exI [of _ r']) (simp add: deliver_append deliver_blind [OF dispatch_blind] map_result_comp)
  qed
qed

end

section \<open>The two kinds of connection\<close>

lemma buf_len_pos:
  assumes "0 < k" "k \<le> RECV_LEN"
  shows "(word_of_int k :: u32) \<noteq> 0"
proof -
  have "uint (word_of_int k :: u32) = k" using assms by (simp add: uint_word_of_int RECV_LEN_def)
  then show ?thesis using assms(1) by auto
qed

lemma uv_read_small:
  assumes "uv_at n i = Inr s" "rx_ok (rx s)" "long_pkg (rx s) = None" "bs \<noteq> []"
    and "recved (rx s) + int (length bs) \<le> RECV_LEN"
  shows "uv_read E depth stack malloc buf i bs (hs, n) =
    (if socket_type s = WS_SOCKET then
       if is_ws_shake s = 0 then Some (try_handshake stack i (hs, set_rx i (append_rx bs (rx s)) n))
       else map_option (map_result (Pair hs)) (on_recv_ws_data E depth i (set_rx i (append_rx bs (rx s)) n))
     else map_option (map_result (Pair hs)) (on_recv_tcp_data E depth i (set_rx i (append_rx bs (rx s)) n)))"
proof -
  let ?r = "rx s"
  let ?r1 = "?r\<lparr>recv_buf := blit (recv_buf ?r) (nat (recved ?r)) bs\<rparr>"
  have r: "0 \<le> recved ?r" "int (length (recv_buf ?r)) = RECV_LEN" using assms(2) by (simp_all add: rx_ok_def)
  have n: "0 < int (length bs)" using assms(4) by simp
  have lt: "recved ?r < RECV_LEN" using assms(5) n by linarith
  have b: "(word_of_int (RECV_LEN - recved ?r) :: u32) \<noteq> 0" by (rule buf_len_pos) (use r lt in auto)
  have "uv_read E depth stack malloc buf i bs (hs, n) =
      after_read E depth stack i (int (length bs)) (hs, set_rx i ?r1 n)"
    using assms(1,5) r lt b by (simp add: uv_read_def uv_alloc_buf_def uv_buf_init_def fill_buf_def Let_def)
  moreover have "uv_at (set_rx i ?r1 n) i = Inr (s\<lparr>rx := ?r1\<rparr>)" by (rule uv_at_set_rx [OF assms(1)])
  moreover have "?r1\<lparr>recved := recved ?r + int (length bs)\<rparr> = append_rx bs ?r" by (simp add: append_rx_def)
  ultimately show ?thesis by (simp add: after_read_def Let_def)
qed

lemma conn_view_uv [simp]:
  "conn_view (UvSession s) = Some (socket_type s, is_ws_shake s, rx s)"
  by simp

interpretation tcp_conn: connection tp_read_header
  "tcp_iteration E depth i :: ('a, 'm) node \<Rightarrow> _" "dispatch_tcp E depth i" i
  "\<lambda>s. socket_type s = TCP_SOCKET" "\<lambda>buf. uv_read E depth stack malloc buf i"
  for E :: "'m env" and depth :: nat and i :: sid and stack malloc
proof unfold_locales
  fix d e :: "byte list" and x
  assume "tp_read_header d (int (length d)) = None"
  then show "int (length d) < RECV_LEN" by (simp add: tp_read_header_def RECV_LEN_def split: if_splits)
next
  fix n :: "('a, 'm) node" and s buf hs and bs :: "byte list"
  assume "uv_at n i = Inr s" "socket_type s = TCP_SOCKET" "rx_ok (rx s)" "long_pkg (rx s) = None" "bs \<noteq> []"
    "recved (rx s) + int (length bs) \<le> RECV_LEN"
  then show "uv_read E depth stack malloc buf i bs (hs, n) = map_option (map_result (Pair hs))
      (recv_loop (tcp_iteration E depth i) (set_rx i (append_rx bs (rx s)) n))"
    by (simp add: uv_read_small on_recv_tcp_data_def)
qed simp_all

interpretation ws_conn: connection ws_read_header
  "ws_iteration E depth i :: ('a, 'm) node \<Rightarrow> _" "dispatch_ws E depth i" i
  "\<lambda>s. socket_type s = WS_SOCKET \<and> is_ws_shake s \<noteq> 0" "\<lambda>buf. uv_read E depth stack malloc buf i"
  for E :: "'m env" and depth :: nat and i :: sid and stack malloc
proof unfold_locales
  fix d e :: "byte list" and x
  assume a: "ws_read_header d (int (length d)) = None" "ws_read_header (d @ e) (int (length (d @ e))) = Some x"
  show "int (length d) < RECV_LEN"
  proof (rule ccontr)
    assume "\<not> int (length d) < RECV_LEN"
    then have l: "10 < length d" by (simp add: RECV_LEN_def)
    then have "0 < length d" "1 < length d" by linarith+
    then have "(d @ e) ! 0 = d ! 0" "(d @ e) ! 1 = d ! 1" by (simp_all only: nth_append if_True)
    with a l show False by (auto simp: ws_read_header_def Let_def split: if_splits)
  qed
next
  fix n :: "('a, 'm) node" and s buf hs and bs :: "byte list"
  assume "uv_at n i = Inr s" "socket_type s = WS_SOCKET \<and> is_ws_shake s \<noteq> 0" "rx_ok (rx s)"
    "long_pkg (rx s) = None" "bs \<noteq> []" "recved (rx s) + int (length bs) \<le> RECV_LEN"
  then show "uv_read E depth stack malloc buf i bs (hs, n) = map_option (map_result (Pair hs))
      (recv_loop (ws_iteration E depth i) (set_rx i (append_rx bs (rx s)) n))"
    by (simp add: uv_read_small on_recv_ws_data_def)
qed simp_all

section \<open>The life of a session\<close>

text \<open>
  \<open>uv_connection\<close>: a new session, at an address of the pool, for a connection accepted by a
  listener of kind \<open>ty\<close>. What the pool block held before stays in the fields that are not
  initialised.
\<close>

definition accepted_session ::
  "byte list \<Rightarrow> socket_type \<Rightarrow> socket_type \<Rightarrow> string \<times> int \<Rightarrow> uv_session" where
  "accepted_session block_buf block_type ty peer =
     (uv_session_create block_buf block_type)
       \<lparr>c_address := fst peer, c_port := snd peer, socket_type := ty\<rparr>"

definition uv_connection ::
  "sid \<Rightarrow> byte list \<Rightarrow> socket_type \<Rightarrow> socket_type \<Rightarrow> string \<times> int \<Rightarrow> ('a, 'm) node \<Rightarrow> ('a, 'm) node" where
  "uv_connection i block_buf block_type ty peer n =
     emit (UvReadStart i)
       (put_session i (UvSession (accepted_session block_buf block_type ty peer)) (emit (UvAccept i) n))"

text \<open>\<open>on_shutdown\<close> and \<open>on_close\<close>, with \<open>uv_session::destroy\<close>.\<close>

definition on_shutdown :: "sid \<Rightarrow> ('a, 'm) node \<Rightarrow> ('a, 'm) node result" where
  "on_shutdown i n = rbind (uv_at n i) (\<lambda>_. Inr (emit (UvClose i) n))"

definition on_close :: "sid \<Rightarrow> ('a, 'm) node \<Rightarrow> ('a, 'm) node result" where
  "on_close i n = rbind (uv_at n i) (\<lambda>_. Inr (n\<lparr>sessions := (sessions n)(i := None)\<rparr>))"

text \<open>
  \<open>netbus::tcp_connect\<close>; \<open>addr_ret\<close> is what \<open>uv_ip4_addr\<close> says of the address. The result of
  \<open>uv_tcp_connect\<close> makes no difference.
\<close>

definition C_ADDRESS_LEN :: nat where "C_ADDRESS_LEN = 32"

definition tcp_connect ::
  "sid \<Rightarrow> byte list \<Rightarrow> socket_type \<Rightarrow> int \<Rightarrow> string \<Rightarrow> int \<Rightarrow> ('a, 'm) node \<Rightarrow> ('a, 'm) node result" where
  "tcp_connect i block_buf block_type addr_ret server_ip port n =
     (if addr_ret \<noteq> 0 then Inr n
      else if length server_ip + 1 > C_ADDRESS_LEN then Inl OutOfBounds
      else let s = (uv_session_create block_buf block_type)
                     \<lparr>as_client := 1, socket_type := TCP_SOCKET, c_address := server_ip, c_port := port\<rparr>
           in Inr (emit (UvConnect i server_ip port) (put_session i (UvSession s) n)))"

text \<open>\<open>after_connect\<close>, with the caller's callback.\<close>

definition after_connect ::
  "'m env \<Rightarrow> nat \<Rightarrow> sid \<Rightarrow> int \<Rightarrow> (int \<Rightarrow> sid option \<Rightarrow> ('a, 'm) node \<Rightarrow> ('a, 'm) node result) option
    \<Rightarrow> ('a, 'm) node \<Rightarrow> ('a, 'm) node result" where
  "after_connect E depth i status on_connected n =
     (let call = (\<lambda>err s n. case on_connected of None \<Rightarrow> Inr n | Some f \<Rightarrow> f err s n) in
      rbind (uv_at n i) (\<lambda>_.
        if status \<noteq> 0 then rbind (call 1 None n) (close_session E depth i)
        else rbind (call 0 (Some i) n) (\<lambda>n. Inr (emit (UvReadStart i) n))))"

section \<open>Listeners\<close>

text \<open>
  \<open>tcp_listen\<close> and \<open>ws_listen\<close>; \<open>bind_ret\<close> is the result of \<open>uv_tcp_bind\<close>. After a failure the
  handle is freed, and then used.
\<close>

definition listen_on :: "socket_type \<Rightarrow> int \<Rightarrow> int \<Rightarrow> ('a, 'm) node \<Rightarrow> ('a, 'm) node result" where
  "listen_on ty bind_ret port n =
     (let freed = (bind_ret \<noteq> 0) in
      if freed then Inl UseAfterFree else Inr (emit (UvListen port ty) n))"

definition tcp_listen :: "int \<Rightarrow> int \<Rightarrow> ('a, 'm) node \<Rightarrow> ('a, 'm) node result" where
  "tcp_listen bind_ret port = listen_on TCP_SOCKET bind_ret port"

definition ws_listen :: "int \<Rightarrow> int \<Rightarrow> ('a, 'm) node \<Rightarrow> ('a, 'm) node result" where
  "ws_listen bind_ret port = listen_on WS_SOCKET bind_ret port"

definition netbus_init :: "('a, 'm) node \<Rightarrow> ('a, 'm) node" where
  "netbus_init n = service_man_init n"

section \<open>UDP\<close>

text \<open>\<open>udp_handler\<close>: whether the one UDP socket is open.\<close>

definition udp_listen :: "int \<Rightarrow> bool \<times> ('a, 'm) node \<Rightarrow> bool \<times> ('a, 'm) node" where
  "udp_listen port = (\<lambda>(udp_handler, n).
     if udp_handler then (udp_handler, n) else (True, emit (UvUdpRecvStart port) n))"

definition udp_send_to :: "bool \<Rightarrow> string \<Rightarrow> int \<Rightarrow> byte list \<Rightarrow> ('a, 'm) node \<Rightarrow> ('a, 'm) node result" where
  "udp_send_to udp_handler ip port bs n =
     (if udp_handler then Inr (emit (UvUdpSendTo ip port bs) n) else Inl NullDeref)"

record udp_recv_buf =
  udp_block :: "byte list option"
  max_recv_len :: nat

definition udp_uv_alloc_buf ::
  "(nat \<Rightarrow> byte list option) \<Rightarrow> nat \<Rightarrow> udp_recv_buf \<Rightarrow> (byte list option \<times> nat) \<times> udp_recv_buf" where
  "udp_uv_alloc_buf malloc suggested_size b =
     (let suggested_size = (if suggested_size < 8096 then 8096 else suggested_size);
          b = (if max_recv_len b < suggested_size
               then b\<lparr>udp_block := malloc suggested_size, max_recv_len := suggested_size\<rparr> else b)
      in ((udp_block b, suggested_size), b))"

text \<open>
  \<open>after_uv_udp_recv\<close>: a session on the stack, at an address \<open>i\<close> that nothing else has, which is
  gone when the function returns. \<open>addr\<close> may be a null pointer.
\<close>

definition after_uv_udp_recv ::
  "'m env \<Rightarrow> nat \<Rightarrow> sid \<Rightarrow> int \<Rightarrow> byte list \<Rightarrow> (string \<times> int) option \<Rightarrow> ('a, 'm) node \<Rightarrow> ('a, 'm) node result" where
  "after_uv_udp_recv E depth i nread buf addr n =
     (if nread < 0 then Inr n
      else case addr of
        None \<Rightarrow> Inl NullDeref
      | Some (ip, port) \<Rightarrow>
          let s = \<lparr>as_client = 0, session_utag = 0, uid = 0, c_address = ip, c_port = port\<rparr>
          in map_result (\<lambda>n. n\<lparr>sessions := (sessions n)(i := None)\<rparr>)
               (on_recv_client_command E depth i (take (nat nread) buf) nread (put_session i (UdpSession s) n)))"

section \<open>From accept to dispatch\<close>

lemma accepted_at [simp]:
  "uv_at (uv_connection i block_buf block_type ty peer n) i = Inr (accepted_session block_buf block_type ty peer)"
  by (simp add: uv_connection_def uv_at_def put_session_def emit_def)

lemma accepted_fields [simp]:
  "socket_type (accepted_session block_buf block_type ty peer) = ty"
  "is_ws_shake (accepted_session block_buf block_type ty peer) = 0"
  "long_pkg (rx (accepted_session block_buf block_type ty peer)) = None"
  "recved (rx (accepted_session block_buf block_type ty peer)) = 0"
  "recv_buf (rx (accepted_session block_buf block_type ty peer)) = block_buf"
  "received (rx (accepted_session block_buf block_type ty peer)) = []"
  by (simp_all add: accepted_session_def uv_session_create_def received_def)

lemma accepted_rx_ok: "length block_buf = 4096 \<Longrightarrow> rx_ok (rx (accepted_session block_buf block_type ty peer))"
  by (simp add: rx_ok_def RECV_LEN_def pkg_data_def)

lemma frame_at_Nil [simp]: "frame_at hdr [] = None"
  by (simp add: frame_at_def)

lemma tcp_stream_reads:
  assumes "uv_at n i = Inr s" "socket_type s = TCP_SOCKET" "rx_ok (rx s)" "long_pkg (rx s) = None"
    and "frame_at tp_read_header (received (rx s)) = None"
    and "pieces_fit tp_read_header (received (rx s)) (map snd cs)"
    and "fits tp_read_header (received (rx s) @ concat (map snd cs))"
    and "frames tp_read_header (received (rx s) @ concat (map snd cs)) = (fs, rest)"
  shows "\<exists>r'. rx_ok r' \<and> received r' = rest \<and>
    reads (\<lambda>buf. uv_read E depth stack malloc buf i) cs (hs, n) =
      Some (map_result (\<lambda>m. (hs, set_rx i r' m)) (deliver (dispatch_tcp E depth i) fs n))"
  using tcp_conn.stream_delivered [OF assms(1-7), of E depth stack malloc hs] assms(8)
  by (auto simp: leaves_def map_result_comp)

lemma ws_stream_reads:
  assumes "uv_at n i = Inr s" "socket_type s = WS_SOCKET" "is_ws_shake s \<noteq> 0" "rx_ok (rx s)"
    and "long_pkg (rx s) = None" "frame_at ws_read_header (received (rx s)) = None"
    and "pieces_fit ws_read_header (received (rx s)) (map snd cs)"
    and "fits ws_read_header (received (rx s) @ concat (map snd cs))"
    and "frames ws_read_header (received (rx s) @ concat (map snd cs)) = (fs, rest)"
  shows "\<exists>r'. rx_ok r' \<and> received r' = rest \<and>
    reads (\<lambda>buf. uv_read E depth stack malloc buf i) cs (hs, n) =
      Some (map_result (\<lambda>m. (hs, set_rx i r' m)) (deliver (dispatch_ws E depth i) fs n))"
  using ws_conn.stream_delivered [OF assms(1) _ assms(4-8), of E depth stack malloc hs] assms(2,3,9)
  by (auto simp: leaves_def map_result_comp)

text \<open>The first read of a WebSocket connection, with the whole request.\<close>

lemma ws_first_read:
  fixes n :: "('a, 'm) node"
  defines "key \<equiv> \<lambda>hs. last (key_headers hs)"
  assumes "request_ok url hs" "key_headers hs \<noteq> []" "\<forall>k \<in> set (key_headers hs). length k < 476"
    and "length (request_text url hs) \<le> 4096" "length (respones n) = RESPONES_LEN" "length stack = 64"
    and "uv_at n i = Inr s" "socket_type s = WS_SOCKET" "is_ws_shake s = 0" "rx_ok (rx s)"
    and "long_pkg (rx s) = None" "recved (rx s) = 0"
  shows "\<exists>h' n' e t. uv_read E depth stack malloc buf i (to_bytes (request_text url hs)) (h, n) = Some (Inr (h', n'))
    \<and> events n' = events n @ [e] \<and> wire_bytes n' e = to_bytes (wb_accept (rfc_accept (key hs)))
    \<and> uv_at n' i = Inr t \<and> socket_type t = WS_SOCKET \<and> is_ws_shake t = 1 \<and> rx_ok (rx t)
    \<and> long_pkg (rx t) = None \<and> received (rx t) = []"
proof -
  let ?bs = "to_bytes (request_text url hs)" and ?r = "append_rx (to_bytes (request_text url hs)) (rx s)"
  let ?n = "set_rx i ?r n"
  have lb: "length ?bs = length (request_text url hs)" by (simp add: to_bytes_def)
  have ne: "?bs \<noteq> []" by (simp add: to_bytes_def request_text_def)
  have le: "recved (rx s) + int (length ?bs) \<le> RECV_LEN" using assms(5,13) lb by (simp add: RECV_LEN_def)
  note a = append_rx_ok [OF assms(11,12) le]
  note at = uv_at_set_rx [OF assms(8), of ?r]
  have rv: "take (nat (recved ?r)) (recv_buf ?r) = ?bs"
    using a(2,3) assms(12,13) by (simp add: received_def pkg_data_def)
  have fit: "recved ?r \<le> int (length (recv_buf ?r))" using a(1,3) by (simp add: rx_ok_def pkg_data_def)
  obtain h' n1 e where 1: "ws_shake_hand stack i ?bs (h, ?n) = Inr (True, h', n1)"
    "events n1 = events ?n @ [e]" "wire_bytes n1 e = to_bytes (wb_accept (rfc_accept (key hs)))"
    "sessions n1 = sessions ?n"
    using shake_hand_answers [OF assms(2-4), of ?n i "s\<lparr>rx := ?r\<rparr>" stack h] uv_atD [OF at] assms(6,7,9,10)
    by (auto simp: key_def)
  have at1: "uv_at n1 i = Inr (s\<lparr>rx := ?r\<rparr>)" using at 1(4) by (simp add: uv_at_def)
  let ?t = "s\<lparr>is_ws_shake := 1, rx := ?r\<lparr>recved := 0\<rparr>\<rparr>"
  let ?n' = "set_session i ?t n1"
  have "try_handshake stack i (h, ?n) = Inr (h', ?n')"
    using 1(1) at at1 rv fit by (simp add: try_handshake_def shaken_def Let_def)
  then have "uv_read E depth stack malloc buf i ?bs (h, n) = Some (Inr (h', ?n'))"
    using uv_read_small [OF assms(8,11,12) ne le] assms(9,10) by simp
  moreover have "events ?n' = events n @ [e]" using 1(2) by (simp add: set_session_def put_session_def)
  moreover have "wire_bytes ?n' e = to_bytes (wb_accept (rfc_accept (key hs)))"
    using 1(3) by (simp add: set_session_def put_session_def wire_bytes_def split: uv_event.splits write_base.splits)
  moreover have "uv_at ?n' i = Inr ?t" by (simp add: set_session_def put_session_def uv_at_def)
  moreover have "rx_ok (rx ?t)" using a(1,3) by (simp add: rx_ok_def pkg_data_def)
  moreover have "long_pkg (rx ?t) = None" "received (rx ?t) = []" using a(3) by (simp_all add: received_def)
  ultimately show ?thesis using assms(9) by (intro exI [of _ h'] exI [of _ ?n'] exI [of _ e] exI [of _ ?t]) simp
qed

section \<open>Properties\<close>

text \<open>
  C2: From the accept on, a TCP connection is its stream: however the network cuts the bytes
  into reads, what the services see is the body of every complete packet, in order and each
  exactly once, and what waits in the buffer is the incomplete packet at the end. The packets,
  with their size field, fit in the 4096 bytes of the buffer, and none announces the size zero.
\<close>

theorem tcp_connection_delivers:
  assumes "length block_buf = 4096"
    and "pieces_fit tp_read_header [] (map snd cs)" "fits tp_read_header (concat (map snd cs))"
    and "frames tp_read_header (concat (map snd cs)) = (fs, rest)"
  shows "\<exists>r'. rx_ok r' \<and> received r' = rest \<and>
    reads (\<lambda>buf. uv_read E depth stack malloc buf i) cs (hs, uv_connection i block_buf bt TCP_SOCKET peer n) =
      Some (map_result (\<lambda>m. (hs, set_rx i r' m))
        (deliver (dispatch_tcp E depth i) fs (uv_connection i block_buf bt TCP_SOCKET peer n)))"
  by (rule tcp_stream_reads [OF accepted_at]) (use assms accepted_rx_ok in simp_all)

definition empty_node :: "(unit, byte list) node" where
  "empty_node =
     \<lparr>sessions = Map.empty, g_service_set = replicate MAX_SERVICE None, protos = proto_state_init, app = (),
      respones = replicate RESPONES_LEN 0, wr_live = 0, events = []\<rparr>"

lemma frames_step_demo:
  "frames tp_read_header [3] = ([], [3])" "frames tp_read_header [3, 0, 9, 5] = ([([3, 0, 9], 2)], [5])"
  by (simp_all add: frames.simps tp_read_header_def le16_def sint_u32_small)

lemma tcp_connection_delivers_witness:
  "\<exists>r'. rx_ok r' \<and> received r' = [5] \<and>
    reads (\<lambda>buf. uv_read demo_env 9 [] (\<lambda>_. None) buf 1) [(None, [3]), (None, [0, 9, 5])]
        (ws_hs0, uv_connection 1 (replicate 4096 0) TCP_SOCKET TCP_SOCKET (''1.2.3.4'', 5) empty_node) =
      Some (map_result (\<lambda>m. (ws_hs0, set_rx 1 r' m))
        (deliver (dispatch_tcp demo_env 9 1) [([3, 0, 9], 2)]
          (uv_connection 1 (replicate 4096 0) TCP_SOCKET TCP_SOCKET (''1.2.3.4'', 5) empty_node)))"
proof (rule tcp_connection_delivers)
  show "length (replicate 4096 0) = 4096" by simp
  let ?cs = "[(None :: uv_buf option, [3 :: byte]), (None, [0, 9, 5])]"
  show "pieces_fit tp_read_header [] (map snd ?cs)" by (simp add: frames_step_demo RECV_LEN_def)
  show "frames tp_read_header (concat (map snd ?cs)) = ([([3, 0, 9], 2)], [5])" by (simp add: frames_step_demo)
  show "fits tp_read_header (concat (map snd ?cs))"
    by (simp add: fits_def frames_step_demo RECV_LEN_def zero_size_at_def tp_read_header_def)
qed

text \<open>
  C3: The life of a WebSocket connection: a request with a key, in one read, is answered with the
  accept value and makes the connection a frame stream; from then on every complete frame is
  unmasked and dispatched, in order and each once, however the network cuts the stream.
\<close>

theorem ws_connection_delivers:
  assumes "length block_buf = 4096" "length stack = 64" "length (respones n) = RESPONES_LEN"
    and "request_ok url hs" "key_headers hs \<noteq> []" "\<forall>k \<in> set (key_headers hs). length k < 476"
    and "length (request_text url hs) \<le> 4096"
    and "pieces_fit ws_read_header [] (map snd cs)" "fits ws_read_header (concat (map snd cs))"
    and "frames ws_read_header (concat (map snd cs)) = (fs, rest)"
  shows "\<exists>h' n' e r'. events n' = events (uv_connection i block_buf bt WS_SOCKET peer n) @ [e] \<and> rx_ok r' \<and> received r' = rest
    \<and> wire_bytes n' e = to_bytes (wb_accept (rfc_accept (last (key_headers hs))))
    \<and> reads (\<lambda>buf. uv_read E depth stack malloc buf i) ((buf, to_bytes (request_text url hs)) # cs)
          (h, uv_connection i block_buf bt WS_SOCKET peer n) =
        Some (map_result (\<lambda>m. (h', set_rx i r' m)) (deliver (dispatch_ws E depth i) fs n'))"
proof -
  let ?n = "uv_connection i block_buf bt WS_SOCKET peer n"
  let ?s = "accepted_session block_buf bt WS_SOCKET peer"
  have at: "uv_at ?n i = Inr ?s" by simp
  have re: "length (respones ?n) = RESPONES_LEN"
    using assms(3) by (simp add: uv_connection_def emit_def put_session_def)
  obtain h' n' e t where 1:
    "uv_read E depth stack malloc buf i (to_bytes (request_text url hs)) (h, ?n) = Some (Inr (h', n'))"
    "events n' = events ?n @ [e]" "wire_bytes n' e = to_bytes (wb_accept (rfc_accept (last (key_headers hs))))"
    "uv_at n' i = Inr t" "socket_type t = WS_SOCKET" "is_ws_shake t = 1" "rx_ok (rx t)"
    "long_pkg (rx t) = None" "received (rx t) = []"
    using ws_first_read [OF assms(4-7) re assms(2) at, of E depth malloc buf h] accepted_rx_ok [OF assms(1), of bt WS_SOCKET peer]
    by auto
  obtain r' where "rx_ok r'" "received r' = rest"
    "reads (\<lambda>buf. uv_read E depth stack malloc buf i) cs (h', n') =
      Some (map_result (\<lambda>m. (h', set_rx i r' m)) (deliver (dispatch_ws E depth i) fs n'))"
    using ws_stream_reads [OF 1(4,5) _ 1(7,8), of cs fs rest E depth stack malloc h'] 1(6,9) assms(8-10) by auto
  with 1(1-3) show ?thesis by (intro exI [of _ h'] exI [of _ n'] exI [of _ e] exI [of _ r']) simp
qed

lemma ws_connection_delivers_witness:
  "\<exists>h' n' e r'. events n' = events (uv_connection 1 (replicate 4096 0) TCP_SOCKET WS_SOCKET (''1.2.3.4'', 5) empty_node) @ [e]
    \<and> rx_ok r' \<and> received r' = []
    \<and> wire_bytes n' e = to_bytes (wb_accept (rfc_accept ''x3JJ''))
    \<and> reads (\<lambda>buf. uv_read demo_env 9 (replicate 64 0) (\<lambda>_. None) buf 1)
        [(None, to_bytes (request_text ''/'' [(''Sec-WebSocket-Key'', ''x3JJ'')])), (None, [0x82, 0x81, 1, 2, 3, 4, 8])]
        (ws_hs0, uv_connection 1 (replicate 4096 0) TCP_SOCKET WS_SOCKET (''1.2.3.4'', 5) empty_node) =
      Some (map_result (\<lambda>m. (h', set_rx 1 r' m))
        (deliver (dispatch_ws demo_env 9 1) [([0x82, 0x81, 1, 2, 3, 4, 8], 6)] n'))"
proof -
  let ?hs = "[(''Sec-WebSocket-Key'', ''x3JJ'')]" and ?cs = "[(None :: uv_buf option, [0x82, 0x81, 1, 2, 3, 4, 8 :: byte])]"
  have k: "key_headers ?hs = [''x3JJ'']" by (simp add: SEC_WEBSOCKET_KEY_def)
  have "request_ok ''/'' ?hs" by (simp add: demo_request)
  moreover have "length (request_text ''/'' ?hs) \<le> 4096" by (simp add: request_text_def header_text_def CRLF_def)
  moreover have "pieces_fit ws_read_header [] (map snd ?cs)" by (simp add: RECV_LEN_def)
  moreover have "fits ws_read_header (concat (map snd ?cs))"
    by (simp add: fits_def frames_masked RECV_LEN_def zero_size_at_def)
  moreover have "frames ws_read_header (concat (map snd ?cs)) = ([([0x82, 0x81, 1, 2, 3, 4, 8], 6)], [])"
    by (simp add: frames_masked)
  moreover have "length (respones empty_node) = RESPONES_LEN" by (simp add: empty_node_def)
  ultimately show ?thesis
    using ws_connection_delivers [where hs = ?hs and cs = ?cs and n = empty_node and i = 1
        and block_buf = "replicate 4096 0" and bt = TCP_SOCKET and peer = "(''1.2.3.4'', 5)" and url = "''/''"
        and stack = "replicate 64 0" and E = demo_env and depth = 9 and malloc = "\<lambda>_. None" and buf = None and h = ws_hs0]
    unfolding k by simp
qed

text \<open>
  C34: A packet longer than the small buffer never gets a buffer for its rest: when the 4096 bytes
  are full, the callback allocates the large block but leaves \<open>*buf\<close> as it was, so that libuv
  reads with whatever its variable held.
\<close>

theorem full_buffer_leaves_buf_unset:
  assumes "recved (rx s) = RECV_LEN" "length (recv_buf (rx s)) = 4096" "long_pkg (rx s) = None"
    and "socket_type s = TCP_SOCKET" "tp_read_header (recv_buf (rx s)) RECV_LEN = Some (p, h)" "RECV_LEN \<le> p"
    and "malloc p = Some block" "length block = nat p"
  shows "\<exists>r'. uv_alloc_buf malloc s buf = Inr (buf, s\<lparr>rx := r'\<rparr>)
    \<and> long_pkg_size r' = p \<and> received r' = recv_buf (rx s)"
proof -
  let ?b = "blit block 0 (recv_buf (rx s))"
  let ?r = "(rx s)\<lparr>long_pkg_size := p, long_pkg := Some ?b\<rparr>"
  have l: "0 + length (recv_buf (rx s)) \<le> length block" using assms(2,6,8) by (simp add: RECV_LEN_def)
  have "uv_alloc_buf malloc s buf = Inr (buf, s\<lparr>rx := ?r\<rparr>)"
    using assms by (simp add: uv_alloc_buf_def start_long_pkg_def Let_def RECV_LEN_def)
  moreover have "received ?r = recv_buf (rx s)"
    using take_blit [OF l] assms(1,2) by (simp add: received_def pkg_data_def RECV_LEN_def)
  ultimately show ?thesis by (intro exI [of _ ?r]) simp
qed

definition full_session :: "socket_type \<Rightarrow> byte list \<Rightarrow> uv_session" where
  "full_session ty bs =
     (uv_session_create (bs @ replicate (4096 - length bs) 0) ty)
       \<lparr>rx := \<lparr>recv_buf = bs @ replicate (4096 - length bs) 0, recved = 4096, long_pkg = None, long_pkg_size = 0\<rparr>\<rparr>"

lemma full_session_simps [simp]:
  "recved (rx (full_session ty bs)) = 4096" "long_pkg (rx (full_session ty bs)) = None"
  "socket_type (full_session ty bs) = ty" "is_ws_shake (full_session ty bs) = 0"
  "recv_buf (rx (full_session ty bs)) = bs @ replicate (4096 - length bs) 0"
  by (simp_all add: full_session_def uv_session_create_def)

lemma tp_size_demo:
  "tp_read_header ([0, 0x20] @ xs) 4096 = Some (8192, 2)" "tp_read_header ([5, 0] @ xs) 4096 = Some (5, 2)"
  by (simp_all add: tp_read_header_def le16_def sint_u32_small push_bit_eq_mult)

lemma full_buffer_leaves_buf_unset_witness:
  "\<exists>r'. uv_alloc_buf (\<lambda>k. Some (replicate (nat k) 0)) (full_session TCP_SOCKET [0, 0x20]) None =
      Inr (None, (full_session TCP_SOCKET [0, 0x20])\<lparr>rx := r'\<rparr>)
    \<and> long_pkg_size r' = 8192 \<and> received r' = recv_buf (rx (full_session TCP_SOCKET [0, 0x20]))"
proof (rule full_buffer_leaves_buf_unset [where block = "replicate 8192 0"])
  show "tp_read_header (recv_buf (rx (full_session TCP_SOCKET [0, 0x20]))) RECV_LEN = Some (8192, 2)"
    using tp_size_demo(1) [of "replicate 4094 0"] by (simp add: RECV_LEN_def)
qed (simp_all add: RECV_LEN_def)

text \<open>
  C35: A WebSocket client that sends 4096 bytes without finishing the handshake has its bytes read
  as a TCP packet header: if they announce less than 4096 bytes, the received bytes are copied
  into a block that is too small for them.
\<close>

theorem unshaken_overflow:
  assumes "recved (rx s) = RECV_LEN" "long_pkg (rx s) = None" "socket_type s = WS_SOCKET" "is_ws_shake s = 0"
    and "tp_read_header (recv_buf (rx s)) RECV_LEN = Some (p, h)" "p < RECV_LEN"
    and "malloc p = Some block" "length block = nat p"
  shows "uv_alloc_buf malloc s buf = Inl OutOfBounds"
  using assms by (simp add: uv_alloc_buf_def start_long_pkg_def Let_def RECV_LEN_def)

lemma unshaken_overflow_witness:
  "uv_alloc_buf (\<lambda>k. Some (replicate (nat k) 0)) (full_session WS_SOCKET [5, 0]) None = Inl OutOfBounds"
proof (rule unshaken_overflow [where block = "replicate 5 0"])
  show "tp_read_header (recv_buf (rx (full_session WS_SOCKET [5, 0]))) RECV_LEN = Some (5, 2)"
    using tp_size_demo(2) [of "replicate 4094 0"] by (simp add: RECV_LEN_def)
qed (simp_all add: RECV_LEN_def)

text \<open>
  A UDP datagram is dispatched as one command from its sender and leaves no session behind;
  the notification that there is nothing to read (no bytes and no address), which libuv makes
  after the last datagram, is followed through a null pointer.
\<close>

theorem udp_datagram:
  "after_uv_udp_recv E depth i 0 buf None n = Inl NullDeref \<and>
   (\<forall>nread addr n'. after_uv_udp_recv E depth i nread buf addr n = Inr n' \<and> 0 \<le> nread \<longrightarrow> sessions n' i = None)"
  by (auto simp: after_uv_udp_recv_def map_result_def Let_def elim!: rbind_InrE split: option.splits)

lemma udp_datagram_witness:
  "\<exists>n'. after_uv_udp_recv demo_env 9 1 2 [7, 7] (Some (''1.2.3.4'', 5)) empty_node = Inr n' \<and> sessions n' 1 = None"
proof -
  let ?n = "put_session 1 (UdpSession \<lparr>as_client = 0, session_utag = 0, uid = 0, c_address = ''1.2.3.4'', c_port = 5\<rparr>) empty_node"
  let ?m = "?n\<lparr>sessions := (sessions ?n)(1 := None)\<rparr>"
  have "after_uv_udp_recv demo_env 9 1 2 [7, 7] (Some (''1.2.3.4'', 5)) empty_node = Inr ?m"
    by (simp add: after_uv_udp_recv_def command_short Let_def)
  with udp_datagram [of demo_env 9 1 "[7, 7]" empty_node] show ?thesis by fastforce
qed

text \<open>
  The UDP buffer handed to libuv is as long as it says, whatever sizes were asked for before:
  it is replaced when it is too small.
\<close>

definition udp_buf_ok :: "udp_recv_buf \<Rightarrow> bool" where
  "udp_buf_ok b \<longleftrightarrow> (case udp_block b of None \<Rightarrow> max_recv_len b = 0 | Some d \<Rightarrow> length d = max_recv_len b)"

lemma udp_buffer_large_enough:
  assumes "\<And>k. \<exists>d. malloc k = Some d \<and> length d = k" "udp_buf_ok b"
    and "udp_uv_alloc_buf malloc asked b = ((ubase, n), b')"
  shows "\<exists>d. ubase = Some d \<and> n \<le> length d \<and> asked \<le> n \<and> 8096 \<le> n \<and> udp_buf_ok b'"
proof -
  obtain d where d: "malloc (max asked 8096) = Some d" "length d = max asked 8096" using assms(1) by blast
  have m: "(if asked < 8096 then 8096 else asked) = max asked 8096" by simp
  show ?thesis
    using assms(2,3) d unfolding udp_uv_alloc_buf_def Let_def m
    by (auto simp: udp_buf_ok_def split: if_splits option.splits)
qed

end
