(* ===== verification/Md5.thy ===== *)
theory Md5
  imports Sha1
begin

text \<open>
  MD5, \<open>3rd/crypto/md5.c\<close>, the hash in which clients send their passwords: the four passes over
  a block, the conversion of blocks with the padding spread over the loop's status, and the
  length. The server is built with it and does not call it. The reference is the definition of RFC 1321: the padded message, cut into 64-byte blocks, each
  digested in 64 steps. A \<open>long\<close> has 32 bits, as on the Windows build.
\<close>

section \<open>The code\<close>

definition md5_F :: "u32 \<Rightarrow> u32 \<Rightarrow> u32 \<Rightarrow> u32" where
  "md5_F x y z = (x AND y) OR (NOT x AND z)"

definition md5_G :: "u32 \<Rightarrow> u32 \<Rightarrow> u32 \<Rightarrow> u32" where
  "md5_G x y z = (x AND z) OR (y AND NOT z)"

definition md5_H :: "u32 \<Rightarrow> u32 \<Rightarrow> u32 \<Rightarrow> u32" where
  "md5_H x y z = x XOR y XOR z"

definition md5_I :: "u32 \<Rightarrow> u32 \<Rightarrow> u32 \<Rightarrow> u32" where
  "md5_I x y z = y XOR (x OR NOT z)"

definition md5_T :: "u32 list" where
  "md5_T =
    [0xd76aa478, 0xe8c7b756, 0x242070db, 0xc1bdceee,
     0xf57c0faf, 0x4787c62a, 0xa8304613, 0xfd469501,
     0x698098d8, 0x8b44f7af, 0xffff5bb1, 0x895cd7be,
     0x6b901122, 0xfd987193, 0xa679438e, 0x49b40821,
     0xf61e2562, 0xc040b340, 0x265e5a51, 0xe9b6c7aa,
     0xd62f105d, 0x02441453, 0xd8a1e681, 0xe7d3fbc8,
     0x21e1cde6, 0xc33707d6, 0xf4d50d87, 0x455a14ed,
     0xa9e3e905, 0xfcefa3f8, 0x676f02d9, 0x8d2a4c8a,
     0xfffa3942, 0x8771f681, 0x6d9d6122, 0xfde5380c,
     0xa4beea44, 0x4bdecfa9, 0xf6bb4b60, 0xbebfbc70,
     0x289b7ec6, 0xeaa127fa, 0xd4ef3085, 0x04881d05,
     0xd9d4d039, 0xe6db99e5, 0x1fa27cf8, 0xc4ac5665,
     0xf4292244, 0x432aff97, 0xab9423a7, 0xfc93a039,
     0x655b59c3, 0x8f0ccc92, 0xffeff47d, 0x85845dd1,
     0x6fa87e4f, 0xfe2ce6e0, 0xa3014314, 0x4e0811a1,
     0xf7537e82, 0xbd3af235, 0x2ad7d2bb, 0xeb86d391]"

type_synonym md5_vars = "u32 \<times> u32 \<times> u32 \<times> u32"

text \<open>One line: the sum into a variable, its rotation, and the addition of the next variable.\<close>

definition md5_line :: "(u32 \<Rightarrow> u32 \<Rightarrow> u32 \<Rightarrow> u32) \<Rightarrow> u32 \<Rightarrow> u32 \<Rightarrow> u32 \<Rightarrow> u32 \<Rightarrow> u32 \<Rightarrow> u32 \<Rightarrow> nat \<Rightarrow> u32" where
  "md5_line f a b c d m t s = rol (a + f b c d + m + t) s + b"

text \<open>
  The body of the four loops: they differ in the function, in which word of the block the line
  for \<open>k\<close> takes, in the place in \<open>T\<close> and in the rotations.
\<close>

definition passo ::
  "(u32 \<Rightarrow> u32 \<Rightarrow> u32 \<Rightarrow> u32) \<Rightarrow> (nat \<Rightarrow> nat) \<Rightarrow> nat \<Rightarrow> nat \<times> nat \<times> nat \<times> nat \<Rightarrow> u32 list \<Rightarrow> nat \<Rightarrow> md5_vars \<Rightarrow> md5_vars" where
  "passo f word t0 = (\<lambda>(s0, s1, s2, s3) m j (d0, d1, d2, d3).
     let d0 = md5_line f d0 d1 d2 d3 (m ! word j) (md5_T ! (t0 + j)) s0;
         d3 = md5_line f d3 d0 d1 d2 (m ! word (j + 1)) (md5_T ! (t0 + j + 1)) s1;
         d2 = md5_line f d2 d3 d0 d1 (m ! word (j + 2)) (md5_T ! (t0 + j + 2)) s2;
         d1 = md5_line f d1 d2 d3 d0 (m ! word (j + 3)) (md5_T ! (t0 + j + 3)) s3
     in (d0, d1, d2, d3))"

definition digest :: "u32 list \<Rightarrow> md5_vars \<Rightarrow> md5_vars" where
  "digest m d =
     (let d = fold (passo md5_F (\<lambda>k. k) 0 (7, 12, 17, 22) m) [0, 4, 8, 12] d;
          d = fold (passo md5_G (\<lambda>k. (5 * k + 1) mod 16) 16 (5, 9, 14, 20) m) [0, 4, 8, 12] d;
          d = fold (passo md5_H (\<lambda>k. (3 * k + 5) mod 16) 32 (4, 11, 16, 23) m) [0, 4, 8, 12] d
      in fold (passo md5_I (\<lambda>k. 7 * k mod 16) 48 (6, 10, 15, 21) m) [0, 4, 8, 12] d)"

definition bytestoword32 :: "byte list \<Rightarrow> u32 list" where
  "bytestoword32 pt = map (\<lambda>i. let j = i * 4 in
     push_bit 8 (push_bit 8 (push_bit 8 (ucast (pt ! (j + 3))) OR ucast (pt ! (j + 2)))
       OR ucast (pt ! (j + 1))) OR ucast (pt ! j)) [0..<16]"

definition put_length :: "u32 list \<Rightarrow> nat \<Rightarrow> u32 list" where
  "put_length x len = x[14 := word_of_nat (len * 2 ^ 3), 15 := word_of_nat (len div 2 ^ (32 - 3)) AND 0x7]"

definition converte :: "byte list \<Rightarrow> nat \<Rightarrow> nat \<Rightarrow> nat \<times> u32 list" where
  "converte pt num old_status =
     (let (new_status, pt) =
        (if num < 64
         then let buff = take num pt @ replicate (64 - num) 0;
                  buff = (if old_status = 0 then buff[num := 0x80] else buff)
              in (1, buff)
         else (0, pt))
      in (if num \<le> 64 - 9 then 2 else new_status, bytestoword32 pt))"

definition add_vars :: "md5_vars \<Rightarrow> md5_vars \<Rightarrow> md5_vars" where
  "add_vars = (\<lambda>(a, b, c, d) (a', b', c', d'). (a + a', b + b', c + c', d + d'))"

text \<open>The loop, from the test of \<open>status\<close> on.\<close>

function md5_loop :: "byte list \<Rightarrow> nat \<Rightarrow> nat \<Rightarrow> md5_vars \<Rightarrow> md5_vars" where
  "md5_loop message i status d =
     (if status = 2 then d
      else let len = length message;
               numbytes = (if 64 \<le> len - i then 64 else len - i);
               (status, wbuff) = converte (drop i message) numbytes status;
               wbuff = (if status = 2 then put_length wbuff len else wbuff)
           in md5_loop message (i + numbytes) status (add_vars (digest wbuff d) d))"
  by pat_completeness auto
termination
  by (relation "measures [\<lambda>(message, i, status, d). length message - i, \<lambda>(message, i, status, d). if status = 2 then 0 else 1]")
    (auto simp: converte_def Let_def split: if_splits prod.splits)

declare md5_loop.simps [simp del]

definition inic_digest :: md5_vars where
  "inic_digest = (0x67452301, 0xEFCDAB89, 0x98BADCFE, 0x10325476)"

definition word32tobytes :: "md5_vars \<Rightarrow> byte list" where
  "word32tobytes = (\<lambda>(d0, d1, d2, d3). concat (map (\<lambda>v.
     [ucast (v AND 0xff), ucast (drop_bit 8 v AND 0xff), ucast (drop_bit 16 v AND 0xff),
      ucast (drop_bit 24 v AND 0xff)]) [d0, d1, d2, d3]))"

definition md5 :: "byte list \<Rightarrow> byte list" where
  "md5 message = word32tobytes (md5_loop message 0 0 inic_digest)"

section \<open>RFC 1321\<close>

definition rfc_f :: "nat \<Rightarrow> u32 \<Rightarrow> u32 \<Rightarrow> u32 \<Rightarrow> u32" where
  "rfc_f i x y z =
     (if i < 16 then (x AND y) OR (NOT x AND z)
      else if i < 32 then (x AND z) OR (y AND NOT z)
      else if i < 48 then x XOR y XOR z
      else y XOR (x OR NOT z))"

definition rfc_word :: "nat \<Rightarrow> nat" where
  "rfc_word i = (if i < 16 then i else if i < 32 then (5 * i + 1) mod 16
                 else if i < 48 then (3 * i + 5) mod 16 else 7 * i mod 16)"

definition rfc_shift :: "nat \<Rightarrow> nat" where
  "rfc_shift i = [[7, 12, 17, 22], [5, 9, 14, 20], [4, 11, 16, 23], [6, 10, 15, 21]] ! (i div 16) ! (i mod 4)"

text \<open>One step, after which the variables change their names.\<close>

definition rfc_step :: "u32 list \<Rightarrow> nat \<Rightarrow> md5_vars \<Rightarrow> md5_vars" where
  "rfc_step x i = (\<lambda>(a, b, c, d).
     (d, b + rol (a + rfc_f i b c d + x ! rfc_word i + md5_T ! i) (rfc_shift i), b, c))"

definition rfc_compress :: "byte list \<Rightarrow> md5_vars \<Rightarrow> md5_vars" where
  "rfc_compress c d = add_vars d (fold (rfc_step (block_words c)) [0..<64] d)"

definition rfc_tail :: "byte list \<Rightarrow> nat \<Rightarrow> byte list" where
  "rfc_tail m n = m @ [0x80] @ replicate ((119 - length m mod 64) mod 64) 0
                  @ u32_bytes (word_of_nat (8 * n)) @ u32_bytes (word_of_nat (8 * n div 2 ^ 32))"

definition rfc_md5 :: "byte list \<Rightarrow> byte list" where
  "rfc_md5 m =
     (let (a, b, c, d) = fold rfc_compress (chunks64 (rfc_tail m (length m)))
                           (0x67452301, 0xEFCDAB89, 0x98BADCFE, 0x10325476)
      in u32_bytes a @ u32_bytes b @ u32_bytes c @ u32_bytes d)"

section \<open>The four passes are the 64 steps\<close>

lemma upt_64:
  "[0..<64] = concat (map (\<lambda>j. [j, j + 1, j + 2, j + 3]) ([0, 4, 8, 12] @ [16, 20, 24, 28] @ [32, 36, 40, 44] @ [48, 52, 56, 60]))"
  by code_simp

lemma four_steps:
  "j \<in> {0, 4, 8, 12} \<Longrightarrow> fold (rfc_step x) [j, j + 1, j + 2, j + 3] v = passo md5_F (\<lambda>k. k) 0 (7, 12, 17, 22) x j v"
  "j \<in> {0, 4, 8, 12} \<Longrightarrow> fold (rfc_step x) [16 + j, 16 + j + 1, 16 + j + 2, 16 + j + 3] v =
     passo md5_G (\<lambda>k. (5 * k + 1) mod 16) 16 (5, 9, 14, 20) x j v"
  "j \<in> {0, 4, 8, 12} \<Longrightarrow> fold (rfc_step x) [32 + j, 32 + j + 1, 32 + j + 2, 32 + j + 3] v =
     passo md5_H (\<lambda>k. (3 * k + 5) mod 16) 32 (4, 11, 16, 23) x j v"
  "j \<in> {0, 4, 8, 12} \<Longrightarrow> fold (rfc_step x) [48 + j, 48 + j + 1, 48 + j + 2, 48 + j + 3] v =
     passo md5_I (\<lambda>k. 7 * k mod 16) 48 (6, 10, 15, 21) x j v"
  by (cases v; elim insertE emptyE;
      simp add: rfc_step_def passo_def md5_line_def rfc_f_def rfc_word_def rfc_shift_def Let_def add.commute
        md5_F_def md5_G_def md5_H_def md5_I_def)+

lemma fold_groups:
  assumes "\<And>j v. j \<in> set js \<Longrightarrow> fold f (g j) v = h j v"
  shows "fold f (concat (map g js)) v = fold h js v"
  using assms by (induction js arbitrary: v) simp_all

lemma digest_is_64_steps: "fold (rfc_step x) [0..<64] v = digest x v"
proof -
  let ?g = "\<lambda>j. [j, j + 1, j + 2, j + 3 :: nat]"
  have shifted: "[16, 20, 24, 28] = map (\<lambda>j. 16 + j) [0, 4, 8, 12 :: nat]"
    "[32, 36, 40, 44] = map (\<lambda>j. 32 + j) [0, 4, 8, 12 :: nat]"
    "[48, 52, 56, 60] = map (\<lambda>j. 48 + j) [0, 4, 8, 12 :: nat]" by simp_all
  have groups: "fold (rfc_step x) (concat (map ?g (map (\<lambda>j. t + j) js))) v = fold h js v"
    if "\<And>j v. j \<in> set js \<Longrightarrow> fold (rfc_step x) [t + j, t + j + 1, t + j + 2, t + j + 3] v = h j v" for t js h v
    unfolding map_map by (rule fold_groups) (simp only: o_def that)
  have pass1: "fold (rfc_step x) (concat (map ?g [0, 4, 8, 12])) v =
      fold (passo md5_F (\<lambda>k. k) 0 (7, 12, 17, 22) x) [0, 4, 8, 12] v" for v
    by (rule fold_groups) (rule four_steps(1), simp)
  have pass2: "fold (rfc_step x) (concat (map ?g (map (\<lambda>j. 16 + j) [0, 4, 8, 12]))) v =
      fold (passo md5_G (\<lambda>k. (5 * k + 1) mod 16) 16 (5, 9, 14, 20) x) [0, 4, 8, 12] v" for v
    by (rule groups) (rule four_steps(2), simp)
  have pass3: "fold (rfc_step x) (concat (map ?g (map (\<lambda>j. 32 + j) [0, 4, 8, 12]))) v =
      fold (passo md5_H (\<lambda>k. (3 * k + 5) mod 16) 32 (4, 11, 16, 23) x) [0, 4, 8, 12] v" for v
    by (rule groups) (rule four_steps(3), simp)
  have pass4: "fold (rfc_step x) (concat (map ?g (map (\<lambda>j. 48 + j) [0, 4, 8, 12]))) v =
      fold (passo md5_I (\<lambda>k. 7 * k mod 16) 48 (6, 10, 15, 21) x) [0, 4, 8, 12] v" for v
    by (rule groups) (rule four_steps(4), simp)
  show ?thesis
    unfolding upt_64 map_append concat_append fold_append comp_apply pass1 shifted pass2 pass3 pass4
    by (simp only: digest_def Let_def)
qed

section \<open>Blocks\<close>

lemma bytes_word:
  "push_bit 8 (push_bit 8 (push_bit 8 (ucast b3) OR ucast b2) OR ucast b1) OR ucast b0 = le32 b0 b1 b2 b3"
  unfolding le32_def by (rule bit_word_eqI) (auto simp: bit_simps)

lemma bytestoword32_block: "bytestoword32 pt = block_words pt"
  unfolding bytestoword32_def block_words_def Let_def bytes_word by (simp add: mult.commute)

lemma block_words_take: "length c \<ge> 64 \<Longrightarrow> block_words (take 64 c) = block_words c"
  by (simp add: block_words_def)

text \<open>The last two words of a block hold the length.\<close>

lemma block_words_length:
  assumes "length b = 56"
  shows "block_words (b @ u32_bytes v @ u32_bytes w) = (block_words (b @ replicate 8 0))[14 := v, 15 := w]"
proof (rule nth_equalityI)
  fix i assume "i < length (block_words (b @ u32_bytes v @ u32_bytes w))"
  then have i: "i < 16" by (simp add: block_words_def)
  consider "i < 14" | "i = 14" | "i = 15" using i by linarith
  then show "block_words (b @ u32_bytes v @ u32_bytes w) ! i = (block_words (b @ replicate 8 0))[14 := v, 15 := w] ! i"
    by cases (simp_all add: block_words_def nth_append assms u32_bytes_def le32_split)
qed (simp add: block_words_def)

lemma put_length_words:
  assumes "n < 2 ^ 28"
  shows "put_length x n = x[14 := word_of_nat (8 * n), 15 := word_of_nat (8 * n div 2 ^ 32)]"
proof -
  have "n div 2 ^ 29 = 0" "8 * n div 2 ^ 32 = 0" using assms by simp_all
  then show ?thesis by (simp add: put_length_def mult.commute)
qed

lemma chunks64_block: "length b = 64 \<Longrightarrow> chunks64 (b @ r) = b # chunks64 r"
  by (subst chunks64.simps) simp

lemma chunks64_one: "length b = 64 \<Longrightarrow> chunks64 b = [b]"
  using chunks64_block [of b "[]"] by (simp add: chunks64.simps)

lemma replicate_update: "(r @ replicate (Suc k) x)[length r := y] = r @ y # replicate k x"
  by simp

lemma md5_last_block:
  assumes "n < 2 ^ 28" "length b = 56"
  shows "digest (put_length (block_words (b @ replicate 8 0)) n) d =
    digest (block_words (b @ u32_bytes (word_of_nat (8 * n)) @ u32_bytes (word_of_nat (8 * n div 2 ^ 32)))) d"
  by (simp only: block_words_length [OF assms(2)] put_length_words [OF assms(1)])

section \<open>The loop\<close>

lemma rfc_compress_digest: "rfc_compress c d = add_vars (digest (block_words c) d) d"
  unfolding rfc_compress_def digest_is_64_steps by (cases d; cases "digest (block_words c) d") (simp add: add_vars_def add.commute)

lemma loop_done: "md5_loop m i 2 d = d"
  by (subst md5_loop.simps) simp

text \<open>The three ends of the message, by how much of the last block it fills.\<close>

lemma loop_short:
  assumes "length m < 2 ^ 28" "drop i m = r" "length m - i = length r" "length r \<le> 55"
  shows "md5_loop m i 0 d = fold rfc_compress (chunks64 (rfc_tail r (length m))) d"
proof -
  let ?b = "r @ 0x80 # replicate (55 - length r) 0"
  let ?l = "u32_bytes (word_of_nat (8 * length m)) @ u32_bytes (word_of_nat (8 * length m div 2 ^ 32))"
  have b: "length ?b = 56" using assms(4) by simp
  have "(119 - length r mod 64) mod 64 = 55 - length r" using assms(4) by (simp add: mod_if)
  then have tail: "rfc_tail r (length m) = ?b @ ?l" by (simp add: rfc_tail_def)
  have pad: "(r @ replicate (64 - length r) 0)[length r := 0x80] = ?b @ replicate 8 0"
  proof -
    have k: "64 - length r = Suc ((55 - length r) + 8)" using assms(4) by simp
    show ?thesis unfolding k replicate_update by (simp add: replicate_add)
  qed
  have "md5_loop m i 0 d = add_vars (digest (put_length (block_words (?b @ replicate 8 0)) (length m)) d) d"
    using assms(2-4) by (subst md5_loop.simps) (simp add: converte_def Let_def loop_done bytestoword32_block pad)
  also have "\<dots> = rfc_compress (?b @ ?l) d"
    by (simp only: rfc_compress_digest md5_last_block [OF assms(1) b])
  finally show ?thesis
    unfolding tail using b by (subst chunks64_one) (simp_all add: le_simps)
qed

lemma loop_middle:
  assumes "length m < 2 ^ 28" "drop i m = r" "length m - i = length r" "55 < length r" "length r < 64"
  shows "md5_loop m i 0 d = fold rfc_compress (chunks64 (rfc_tail r (length m))) d"
proof -
  let ?b1 = "r @ 0x80 # replicate (63 - length r) 0"
  let ?b2 = "replicate 56 0 :: byte list"
  let ?l = "u32_bytes (word_of_nat (8 * length m)) @ u32_bytes (word_of_nat (8 * length m div 2 ^ 32))"
  have b1: "length ?b1 = 64" using assms(5) by simp
  have "(119 - length r mod 64) mod 64 = (63 - length r) + 56" using assms(4,5) by (simp add: mod_if)
  then have tail: "rfc_tail r (length m) = ?b1 @ ?b2 @ ?l" by (simp add: rfc_tail_def replicate_add)
  have pad: "(r @ replicate (64 - length r) 0)[length r := 0x80] = ?b1"
  proof -
    have k: "64 - length r = Suc (63 - length r)" using assms(5) by simp
    show ?thesis unfolding k replicate_update ..
  qed
  have i: "i + length r = length m" using assms(3,4) by simp
  have one: "md5_loop m i 0 d = md5_loop m (length m) 1 (add_vars (digest (block_words ?b1) d) d)"
    using assms(2-5) i by (subst md5_loop.simps) (simp add: converte_def Let_def bytestoword32_block pad)
  have two: "md5_loop m (length m) 1 e = add_vars (digest (put_length (block_words (?b2 @ replicate 8 0)) (length m)) e) e" for e
    by (subst md5_loop.simps) (simp add: converte_def Let_def loop_done bytestoword32_block replicate_add [symmetric])
  have three: "add_vars (digest (put_length (block_words (?b2 @ replicate 8 0)) (length m)) e) e = rfc_compress (?b2 @ ?l) e" for e
    by (simp only: rfc_compress_digest md5_last_block [OF assms(1) length_replicate])
  have "chunks64 (?b1 @ ?b2 @ ?l) = [?b1, ?b2 @ ?l]"
    by (subst chunks64_block [OF b1], subst chunks64_one) (simp_all add: le_simps)
  then show ?thesis
    unfolding tail one two three by (simp add: rfc_compress_digest)
qed

lemma loop_is_rfc:
  assumes "length m < 2 ^ 28" "drop i m = r" "length m - i = length r"
  shows "md5_loop m i 0 d = fold rfc_compress (chunks64 (rfc_tail r (length m))) d"
  using assms(2,3)
proof (induction "length r" arbitrary: i r d rule: less_induct)
  case less
  consider "length r \<le> 55" | "55 < length r" "length r < 64" | "64 \<le> length r" by linarith
  then show ?case
  proof cases
    case 1
    from loop_short [OF assms(1) less.prems 1] show ?thesis .
  next
    case 2
    from loop_middle [OF assms(1) less.prems 2] show ?thesis .
  next
    case 3
    have "md5_loop m i 0 d = md5_loop m (i + 64) 0 (add_vars (digest (block_words r) d) d)"
    proof -
      have "converte r 64 0 = (0, block_words r)" by (simp add: converte_def bytestoword32_block)
      with 3 less.prems show ?thesis by (subst md5_loop.simps) (simp add: Let_def)
    qed
    also have "\<dots> = fold rfc_compress (chunks64 (rfc_tail (drop 64 r) (length m))) (add_vars (digest (block_words r) d) d)"
    proof (rule less.hyps)
      show "length (drop 64 r) < length r" "length m - (i + 64) = length (drop 64 r)"
        using 3 less.prems(2) by simp_all
      show "drop (i + 64) m = drop 64 r"
        unfolding less.prems(1) [symmetric] by (simp add: add.commute)
    qed
    also have "add_vars (digest (block_words r) d) d = rfc_compress (take 64 r) d"
      using 3 by (simp add: rfc_compress_digest block_words_take)
    also have "fold rfc_compress (chunks64 (rfc_tail (drop 64 r) (length m))) (rfc_compress (take 64 r) d) =
        fold rfc_compress (take 64 r # chunks64 (rfc_tail (drop 64 r) (length m))) d" by simp
    also have "take 64 r # chunks64 (rfc_tail (drop 64 r) (length m)) = chunks64 (take 64 r @ rfc_tail (drop 64 r) (length m))"
      using 3 by (simp add: chunks64_block)
    also have "take 64 r @ rfc_tail (drop 64 r) (length m) = rfc_tail r (length m)"
    proof -
      have "length r mod 64 = (length r - 64) mod 64" using 3 by (simp add: le_mod_geq)
      then show ?thesis by (simp add: rfc_tail_def)
    qed
    finally show ?thesis .
  qed
qed

lemma word32tobytes_eq: "word32tobytes (a, b, c, d) = u32_bytes a @ u32_bytes b @ u32_bytes c @ u32_bytes d"
  by (simp add: word32tobytes_def u32_bytes_def mask_low_byte)

text \<open>
  C14: MD5 is the hash of RFC 1321, for every message whose length in bits a \<open>long\<close> can hold.
\<close>

theorem md5_is_rfc1321:
  assumes "length m < 2 ^ 28"
  shows "md5 m = rfc_md5 m"
proof -
  have "md5_loop m 0 0 inic_digest = fold rfc_compress (chunks64 (rfc_tail m (length m))) inic_digest"
    by (rule loop_is_rfc [OF assms]) simp_all
  then show ?thesis
    by (simp add: md5_def rfc_md5_def inic_digest_def word32tobytes_eq split: prod.splits)
qed

text \<open>The example of the RFC: the hash of the text abc.\<close>

definition abc_block :: "byte list" where
  "abc_block = [97, 98, 99, 0x80] @ replicate 52 0 @ [24, 0, 0, 0, 0, 0, 0, 0]"

lemma abc_tail: "rfc_tail [97, 98, 99] (Suc (Suc (Suc 0))) = abc_block"
  by (simp add: rfc_tail_def abc_block_def u32_bytes_def)

lemma abc_words: "block_words abc_block = [0x80636261, 0, 0, 0, 0, 0, 0, 0, 0, 0, 0, 0, 0, 0, 24, 0]"
  unfolding abc_block_def by code_simp

lemma abc_steps:
  "fold (rfc_step [0x80636261, 0, 0, 0, 0, 0, 0, 0, 0, 0, 0, 0, 0, 0, 24, 0]) [0..<64]
     (0x67452301, 0xefcdab89, 0x98badcfe, 0x10325476) = (0x310ade8f, 0xc08226b3, 0xe484b9d8, 0x624d8cb2)"
  by code_simp

theorem md5_is_rfc1321_witness:
  "md5 [97, 98, 99] = [0x90, 0x01, 0x50, 0x98, 0x3c, 0xd2, 0x4f, 0xb0, 0xd6, 0x96, 0x3f, 0x7d, 0x28, 0xe1, 0x7f, 0x72]"
proof -
  have "chunks64 abc_block = [abc_block]" by (rule chunks64_one) (simp add: abc_block_def)
  then have "rfc_md5 [97, 98, 99] =
      [0x90, 0x01, 0x50, 0x98, 0x3c, 0xd2, 0x4f, 0xb0, 0xd6, 0x96, 0x3f, 0x7d, 0x28, 0xe1, 0x7f, 0x72]"
    by (simp add: rfc_md5_def abc_tail rfc_compress_def abc_words abc_steps add_vars_def u32_bytes_def)
  with md5_is_rfc1321 [of "[97, 98, 99]"] show ?thesis by simp
qed

end
