(* ===== verification/Timestamp.thy ===== *)
theory Timestamp
  imports Hyxd_Base "HOL-Library.Signed_Division"
begin

text \<open>
  Dates and time stamps, \<open>utils/timestamp.c\<close>: \<open>my_strptime\<close>, which reads a date by a format,
  and the functions around it. A text is a C string; what is left of it when it ends is the
  empty list, whose first character reads as zero. The C library's \<open>time\<close>, \<open>localtime\<close> and
  \<open>mktime\<close> are arguments. An \<open>unsigned long\<close> has 32 bits, as on the Windows build.
\<close>

section \<open>Broken-down time\<close>

record tm =
  tm_sec :: int
  tm_min :: int
  tm_hour :: int
  tm_mday :: int
  tm_mon :: int
  tm_year :: int
  tm_wday :: int
  tm_yday :: int
  tm_isdst :: int

definition tm_zero :: tm where
  "tm_zero = \<lparr>tm_sec = 0, tm_min = 0, tm_hour = 0, tm_mday = 0, tm_mon = 0, tm_year = 0,
              tm_wday = 0, tm_yday = 0, tm_isdst = 0\<rparr>"

definition TM_YEAR_BASE :: int where "TM_YEAR_BASE = 1900"

section \<open>Tables\<close>

definition day :: "string list" where
  "day = [''Sunday'', ''Monday'', ''Tuesday'', ''Wednesday'', ''Thursday'', ''Friday'', ''Saturday'']"

definition abday :: "string list" where
  "abday = [''Sun'', ''Mon'', ''Tue'', ''Wed'', ''Thu'', ''Fri'', ''Sat'']"

definition mon :: "string list" where
  "mon = [''January'', ''February'', ''March'', ''April'', ''May'', ''June'', ''July'',
          ''August'', ''September'', ''October'', ''November'', ''December'']"

definition abmon :: "string list" where
  "abmon = [''Jan'', ''Feb'', ''Mar'', ''Apr'', ''May'', ''Jun'',
            ''Jul'', ''Aug'', ''Sep'', ''Oct'', ''Nov'', ''Dec'']"

definition am_pm :: "string list" where
  "am_pm = [''AM'', ''PM'']"

section \<open>Numbers\<close>

definition isspace :: "char \<Rightarrow> bool" where
  "isspace c \<longleftrightarrow> c \<in> {CHR '' '', CHR 0x09, CHR 0x0A, CHR 0x0B, CHR 0x0C, CHR 0x0D}"

definition isdigit :: "char \<Rightarrow> bool" where
  "isdigit c \<longleftrightarrow> of_char CHR ''0'' \<le> (of_char c :: nat) \<and> (of_char c :: nat) \<le> of_char CHR ''9''"

definition digit_val :: "char \<Rightarrow> int" where
  "digit_val c = int (of_char c) - int (of_char CHR ''0'')"

text \<open>The loop of \<open>conv_num\<close>, entered at a digit: the number read, and what is left.\<close>

fun conv_loop :: "int \<Rightarrow> int \<Rightarrow> int \<Rightarrow> string \<Rightarrow> int \<times> string" where
  "conv_loop ulim result rulim [] = (result, [])"
| "conv_loop ulim result rulim (c # bp) =
     (let result = result * 10 + digit_val c; rulim = rulim div 10
      in if result * 10 \<le> ulim \<and> rulim \<noteq> 0 \<and> bp \<noteq> [] \<and> isdigit (hd bp)
         then conv_loop ulim result rulim bp else (result, bp))"

definition conv_num :: "string \<Rightarrow> int \<Rightarrow> int \<Rightarrow> (int \<times> string) option" where
  "conv_num bp llim ulim =
     (if bp = [] \<or> \<not> isdigit (hd bp) then None
      else let (result, bp) = conv_loop ulim 0 ulim bp
           in if result < llim \<or> result > ulim then None else Some (result, bp))"

section \<open>Conversions\<close>

text \<open>The modifiers \<open>%E\<close> and \<open>%O\<close>.\<close>

definition ALT_E :: byte where "ALT_E = 0x01"
definition ALT_O :: byte where "ALT_O = 0x02"

definition LEGAL_ALT :: "byte \<Rightarrow> byte \<Rightarrow> bool" where
  "LEGAL_ALT alt_format x \<longleftrightarrow> alt_format AND NOT x = 0"

text \<open>
  From the label \<open>again\<close>: the modifiers, the conversion character and what follows it in the
  format; none if a modifier is not legal or the format ends.
\<close>

fun again :: "byte \<Rightarrow> string \<Rightarrow> (byte \<times> char \<times> string) option" where
  "again alt [] = None"
| "again alt (c # fmt) =
     (if c = CHR ''E'' then (if LEGAL_ALT alt 0 then again (alt OR ALT_E) fmt else None)
      else if c = CHR ''O'' then (if LEGAL_ALT alt 0 then again (alt OR ALT_O) fmt else None)
      else Some (alt, c, fmt))"

text \<open>The modifiers that a conversion allows.\<close>

definition legal_alt :: "char \<Rightarrow> byte" where
  "legal_alt c =
     (if c \<in> set ''cXxCY'' then ALT_E
      else if c \<in> set ''deHIMmSUWw'' then ALT_O
      else if c = CHR ''y'' then ALT_E OR ALT_O
      else 0)"

text \<open>The conversions that stand for a format.\<close>

definition expansion :: "char \<Rightarrow> string option" where
  "expansion c =
     (if c = CHR ''c'' then Some ''%x %X''
      else if c = CHR ''D'' then Some ''%m/%d/%y''
      else if c = CHR ''R'' then Some ''%H:%M''
      else if c = CHR ''r'' then Some ''%I:%M:%S %p''
      else if c = CHR ''T'' then Some ''%H:%M:%S''
      else if c = CHR ''X'' then Some ''%H:%M:%S''
      else if c = CHR ''x'' then Some ''%m/%d/%y''
      else None)"

text \<open>\<open>strncmp(name, bp, strlen(name)) == 0\<close>: the name is at the front of the text.\<close>

definition at_front :: "string \<Rightarrow> string \<Rightarrow> bool" where
  "at_front name bp \<longleftrightarrow> take (length name) bp = name"

text \<open>The search through a table of names: the first index that fits, and the length matched.\<close>

fun find_name :: "string list \<Rightarrow> string list \<Rightarrow> int \<Rightarrow> string \<Rightarrow> (int \<times> nat) option" where
  "find_name (full # fulls) (ab # abbrs) i bp =
     (if at_front full bp then Some (i, length full)
      else if at_front ab bp then Some (i, length ab)
      else find_name fulls abbrs (i + 1) bp)"
| "find_name _ _ i bp = None"

text \<open>
  A number for a field of the structure, and the result of a conversion: the rest of the text and
  \<open>split_year\<close>, or none, and the structure, which keeps what was stored before a failure.
\<close>

type_synonym converted = "(string \<times> bool) option \<times> tm"

definition number ::
  "string \<Rightarrow> int \<Rightarrow> int \<Rightarrow> bool \<Rightarrow> (int \<Rightarrow> tm \<Rightarrow> tm) \<Rightarrow> tm \<Rightarrow> converted" where
  "number bp llim ulim split_year store tm =
     (case conv_num bp llim ulim of
        None \<Rightarrow> (None, tm)
      | Some (i, bp) \<Rightarrow> (Some (bp, split_year), store i tm))"

definition conv_century :: "string \<Rightarrow> bool \<Rightarrow> tm \<Rightarrow> converted" where
  "conv_century bp split_year tm =
     (if split_year
      then number bp 0 99 True (\<lambda>i tm. tm\<lparr>tm_year := (tm_year tm smod 100) + i * 100\<rparr>) tm
      else number bp 0 99 True (\<lambda>i tm. tm\<lparr>tm_year := i * 100\<rparr>) tm)"

definition conv_year2 :: "string \<Rightarrow> bool \<Rightarrow> tm \<Rightarrow> converted" where
  "conv_year2 bp split_year tm =
     (if split_year
      then number bp 0 99 True (\<lambda>i tm. tm\<lparr>tm_year := (tm_year tm sdiv 100) * 100 + i\<rparr>) tm
      else number bp 0 99 True
             (\<lambda>i tm. tm\<lparr>tm_year := (if i \<le> 68 then i + 2000 - TM_YEAR_BASE else i + 1900 - TM_YEAR_BASE)\<rparr>) tm)"

definition conv_ampm :: "string \<Rightarrow> bool \<Rightarrow> tm \<Rightarrow> converted" where
  "conv_ampm bp split_year tm =
     (if am_pm ! 0 = bp then
        (if tm_hour tm > 11 then (None, tm) else (Some (drop (length (am_pm ! 0)) bp, split_year), tm))
      else if am_pm ! 1 = bp then
        (if tm_hour tm > 11 then (None, tm)
         else (Some (drop (length (am_pm ! 1)) bp, split_year), tm\<lparr>tm_hour := tm_hour tm + 12\<rparr>))
      else (None, tm))"

definition conv_name ::
  "string list \<Rightarrow> string list \<Rightarrow> string \<Rightarrow> bool \<Rightarrow> (int \<Rightarrow> tm \<Rightarrow> tm) \<Rightarrow> tm \<Rightarrow> converted" where
  "conv_name fulls abbrs bp split_year store tm =
     (case find_name fulls abbrs 0 bp of
        None \<Rightarrow> (None, tm)
      | Some (i, len) \<Rightarrow> (Some (drop len bp, split_year), store i tm))"

text \<open>The elementary conversions of the \<open>switch\<close>.\<close>

definition convert :: "char \<Rightarrow> string \<Rightarrow> bool \<Rightarrow> tm \<Rightarrow> converted" where
  "convert c bp sy tm =
     (if c \<in> set ''Aa'' then conv_name day abday bp sy (\<lambda>i tm. tm\<lparr>tm_wday := i\<rparr>) tm
      else if c \<in> set ''Bbh'' then conv_name mon abmon bp sy (\<lambda>i tm. tm\<lparr>tm_mon := i\<rparr>) tm
      else if c = CHR ''C'' then conv_century bp sy tm
      else if c \<in> set ''de'' then number bp 1 31 sy (\<lambda>i tm. tm\<lparr>tm_mday := i\<rparr>) tm
      else if c \<in> set ''kH'' then number bp 0 23 sy (\<lambda>i tm. tm\<lparr>tm_hour := i\<rparr>) tm
      else if c \<in> set ''lI'' then number bp 1 12 sy (\<lambda>i tm. tm\<lparr>tm_hour := (if i = 12 then 0 else i)\<rparr>) tm
      else if c = CHR ''j'' then number bp 1 366 sy (\<lambda>i tm. tm\<lparr>tm_yday := i - 1\<rparr>) tm
      else if c = CHR ''M'' then number bp 0 59 sy (\<lambda>i tm. tm\<lparr>tm_min := i\<rparr>) tm
      else if c = CHR ''m'' then number bp 1 12 sy (\<lambda>i tm. tm\<lparr>tm_mon := i - 1\<rparr>) tm
      else if c = CHR ''p'' then conv_ampm bp sy tm
      else if c = CHR ''S'' then number bp 0 61 sy (\<lambda>i tm. tm\<lparr>tm_sec := i\<rparr>) tm
      else if c \<in> set ''UW'' then number bp 0 53 sy (\<lambda>i tm. tm) tm
      else if c = CHR ''w'' then number bp 0 6 sy (\<lambda>i tm. tm\<lparr>tm_wday := i\<rparr>) tm
      else if c = CHR ''Y'' then number bp 0 9999 sy (\<lambda>i tm. tm\<lparr>tm_year := i - TM_YEAR_BASE\<rparr>) tm
      else if c = CHR ''y'' then conv_year2 bp sy tm
      else if c \<in> set ''nt'' then (Some (dropWhile isspace bp, sy), tm)
      else (None, tm))"

section \<open>\<open>my_strptime\<close>\<close>

text \<open>
  The main loop. The formats that conversions stand for are shorter in this weight, so the
  recursion ends.
\<close>

definition weight :: "char \<Rightarrow> nat" where
  "weight c = (if c = CHR ''c'' then 200 else if expansion c \<noteq> None then 50 else 1)"

lemma again_shorter: "again alt fmt = Some (alt', c, fmt') \<Longrightarrow>
    weight c + sum_list (map weight fmt') \<le> sum_list (map weight fmt)"
  by (induction alt fmt rule: again.induct) (auto split: if_splits)

lemma expansion_lighter: "expansion c = Some sub \<Longrightarrow> sum_list (map weight sub) < weight c"
  by (auto simp: expansion_def weight_def split: if_splits)

lemma weight_pos: "0 < weight c"
  by (simp add: weight_def)

lemma again_tail:
  assumes "again alt fmt = Some (alt', c, fmt')"
  shows "sum_list (map weight fmt') < weight d + sum_list (map weight fmt)"
  using again_shorter [OF assms] weight_pos [of d] by linarith

lemma again_expansion:
  assumes "again alt fmt = Some (alt', c, fmt')" "expansion c = Some sub"
  shows "sum_list (map weight sub) < weight d + sum_list (map weight fmt)"
  using again_shorter [OF assms(1)] expansion_lighter [OF assms(2)] by linarith

function my_strptime :: "string \<Rightarrow> bool \<Rightarrow> string \<Rightarrow> tm \<Rightarrow> string option \<times> tm" where
  "my_strptime [] sy bp tm = (Some bp, tm)"
| "my_strptime (c # fmt) sy bp tm =
     (if isspace c then my_strptime fmt sy (dropWhile isspace bp) tm
      else if c \<noteq> CHR ''%'' then
        (if bp \<noteq> [] \<and> c = hd bp then my_strptime fmt sy (tl bp) tm else (None, tm))
      else
        (case again 0 fmt of
           None \<Rightarrow> (None, tm)
         | Some (alt, c, fmt') \<Rightarrow>
             if c = CHR ''%'' then
               (if bp \<noteq> [] \<and> c = hd bp then my_strptime fmt' sy (tl bp) tm else (None, tm))
             else if \<not> LEGAL_ALT alt (legal_alt c) then (None, tm)
             else
               (case expansion c of
                  Some sub \<Rightarrow>
                    (case my_strptime sub False bp tm of
                       (None, tm') \<Rightarrow> (None, tm')
                     | (Some bp', tm') \<Rightarrow> my_strptime fmt' sy bp' tm')
                | None \<Rightarrow>
                    (case convert c bp sy tm of
                       (None, tm') \<Rightarrow> (None, tm')
                     | (Some (bp', sy'), tm') \<Rightarrow> my_strptime fmt' sy' bp' tm'))))"
  by pat_completeness auto
termination
  by (relation "measure (\<lambda>(fmt, sy, bp, tm). sum_list (map weight fmt))")
     (auto simp: weight_pos intro: again_tail again_expansion dest: sym)

declare my_strptime.simps [simp del]

section \<open>Time stamps\<close>

type_synonym ulong = "32 word"

definition timestamp :: "int \<Rightarrow> ulong" where
  "timestamp now = word_of_int now"

text \<open>The result of \<open>my_strptime\<close> is not looked at.\<close>

definition date2timestamp :: "(tm \<Rightarrow> int) \<Rightarrow> string \<Rightarrow> string \<Rightarrow> ulong" where
  "date2timestamp mktime fmt_date date =
     word_of_int (mktime (snd (my_strptime fmt_date False date tm_zero)))"

definition timestamp_today :: "(int \<Rightarrow> tm) \<Rightarrow> (tm \<Rightarrow> int) \<Rightarrow> int \<Rightarrow> ulong" where
  "timestamp_today localtime mktime now =
     word_of_int (mktime ((localtime now)\<lparr>tm_hour := 0, tm_min := 0, tm_sec := 0\<rparr>))"

definition timestamp_yesterday :: "(int \<Rightarrow> tm) \<Rightarrow> (tm \<Rightarrow> int) \<Rightarrow> int \<Rightarrow> ulong" where
  "timestamp_yesterday localtime mktime now = timestamp_today localtime mktime now - 24 * 60 * 60"

section \<open>The range of the fields\<close>

text \<open>What the C library asks of a broken-down time, but for the day of the month.\<close>

definition tm_ok :: "tm \<Rightarrow> bool" where
  "tm_ok tm \<longleftrightarrow>
     tm_sec tm \<in> {0..61} \<and> tm_min tm \<in> {0..59} \<and> tm_hour tm \<in> {0..23} \<and> tm_mday tm \<in> {0..31}
     \<and> tm_mon tm \<in> {0..11} \<and> tm_year tm \<in> {-1900..9999} \<and> tm_wday tm \<in> {0..6} \<and> tm_yday tm \<in> {0..365}"

lemma conv_num_range: "conv_num bp l u = Some (i, bp') \<Longrightarrow> l \<le> i \<and> i \<le> u"
  by (auto simp: conv_num_def split: if_splits prod.splits)

lemma number_ok:
  assumes "tm_ok tm" "\<And>i. l \<le> i \<Longrightarrow> i \<le> u \<Longrightarrow> tm_ok (store i tm)"
  shows "tm_ok (snd (number bp l u sy store tm))"
  using assms by (auto simp: number_def dest: conv_num_range split: option.split)

lemma find_name_range: "find_name fulls abbrs i bp = Some (k, n) \<Longrightarrow> i \<le> k \<and> k < i + int (length fulls)"
  by (induction fulls abbrs i bp rule: find_name.induct) (fastforce split: if_splits)+

lemma conv_name_ok:
  assumes "tm_ok tm" "\<And>i. 0 \<le> i \<Longrightarrow> i < int (length fulls) \<Longrightarrow> tm_ok (store i tm)"
  shows "tm_ok (snd (conv_name fulls abbrs bp sy store tm))"
  using assms find_name_range [of fulls abbrs 0 bp] by (auto simp: conv_name_def split: option.split)

lemma year_split:
  fixes y :: int
  assumes "-1900 \<le> y" "y \<le> 9999"
  shows "-1900 \<le> y sdiv 100 * 100" "y sdiv 100 * 100 \<le> 9900" "-100 < y smod 100" "y smod 100 < 100"
  using assms by (auto simp: signed_divide_int_def signed_modulo_int_def sgn_if)

lemma tm_ok_update:
  assumes "tm_ok tm"
  shows "v \<in> {0..61} \<Longrightarrow> tm_ok (tm\<lparr>tm_sec := v\<rparr>)" "v \<in> {0..59} \<Longrightarrow> tm_ok (tm\<lparr>tm_min := v\<rparr>)"
    "v \<in> {0..23} \<Longrightarrow> tm_ok (tm\<lparr>tm_hour := v\<rparr>)" "v \<in> {0..31} \<Longrightarrow> tm_ok (tm\<lparr>tm_mday := v\<rparr>)"
    "v \<in> {0..11} \<Longrightarrow> tm_ok (tm\<lparr>tm_mon := v\<rparr>)" "v \<in> {-1900..9999} \<Longrightarrow> tm_ok (tm\<lparr>tm_year := v\<rparr>)"
    "v \<in> {0..6} \<Longrightarrow> tm_ok (tm\<lparr>tm_wday := v\<rparr>)" "v \<in> {0..365} \<Longrightarrow> tm_ok (tm\<lparr>tm_yday := v\<rparr>)"
  using assms by (simp_all add: tm_ok_def)

lemma if_ok: "(b \<Longrightarrow> tm_ok (snd x)) \<Longrightarrow> (\<not> b \<Longrightarrow> tm_ok (snd y)) \<Longrightarrow> tm_ok (snd (if b then x else y))"
  by simp

lemma convert_ok:
  assumes "tm_ok tm"
  shows "tm_ok (snd (convert c bp sy tm))"
proof -
  have y: "-1900 \<le> tm_year tm" "tm_year tm \<le> 9999" "0 \<le> tm_hour tm" using assms by (simp_all add: tm_ok_def)
  note y = y year_split [OF y(1,2)]
  have c: "tm_ok (snd (conv_century bp sy tm))"
    using y by (auto simp: conv_century_def intro!: number_ok tm_ok_update [OF assms] assms)
  have t: "tm_ok (snd (conv_year2 bp sy tm))"
    using y by (auto simp: conv_year2_def TM_YEAR_BASE_def intro!: number_ok tm_ok_update [OF assms] assms)
  have p: "tm_ok (snd (conv_ampm bp sy tm))"
    using y assms by (auto simp: conv_ampm_def intro!: tm_ok_update [OF assms])
  have l: "length day = 7" "length mon = 12" by (simp_all add: day_def mon_def)
  show ?thesis
    unfolding convert_def
    by (intro if_ok c t p number_ok conv_name_ok assms tm_ok_update [OF assms])
       (auto simp: TM_YEAR_BASE_def assms l)
qed

lemma isspace_percent [simp]: "\<not> isspace (CHR ''%'')"
  by (simp add: isspace_def)

lemma strptime_ok: "tm_ok tm \<Longrightarrow> tm_ok (snd (my_strptime fmt sy bp tm))"
proof (induction "sum_list (map weight fmt)" arbitrary: fmt sy bp tm rule: less_induct)
  case (less fmt)
  show ?case
  proof (cases fmt)
    case Nil
    with less.prems show ?thesis by (simp add: my_strptime.simps)
  next
    case (Cons c fmt1)
    have IH: "tm_ok (snd (my_strptime f sy' bp' tm'))"
      if "sum_list (map weight f) < weight c + sum_list (map weight fmt1)" "tm_ok tm'" for f sy' bp' tm'
      by (rule less.hyps) (use that Cons in simp_all)
    have tail: "tm_ok (snd (my_strptime fmt1 sy' bp' tm'))" if "tm_ok tm'" for sy' bp' tm'
      using IH that weight_pos [of c] by simp
    show ?thesis
    proof (cases "isspace c \<or> c \<noteq> CHR ''%''")
      case True
      then show ?thesis using tail less.prems by (auto simp: Cons my_strptime.simps)
    next
      case False
      then have c: "c = CHR ''%''" "\<not> isspace c" by simp_all
      show ?thesis
      proof (cases "again 0 fmt1")
        case None
        with c less.prems show ?thesis by (simp add: Cons my_strptime.simps)
      next
        case (Some a)
        obtain alt d f where a: "a = (alt, d, f)" by (cases a)
        note ag = Some [unfolded a]
        have rest: "tm_ok (snd (my_strptime f sy' bp' tm'))" if "tm_ok tm'" for sy' bp' tm'
          by (rule IH [OF again_tail [OF ag] that])
        have sub: "tm_ok (snd (my_strptime s False bp tm))" if "expansion d = Some s" for s
          by (rule IH [OF again_expansion [OF ag that] less.prems])
        have conv: "tm_ok (snd (convert d bp sy tm))" by (rule convert_ok [OF less.prems])
        consider "d = CHR ''%''" | "d \<noteq> CHR ''%''" "\<not> LEGAL_ALT alt (legal_alt d)"
          | s where "d \<noteq> CHR ''%''" "LEGAL_ALT alt (legal_alt d)" "expansion d = Some s"
          | "d \<noteq> CHR ''%''" "LEGAL_ALT alt (legal_alt d)" "expansion d = None" by (cases "expansion d") blast+
        then show ?thesis
        proof cases
          case 1
          then show ?thesis using rest less.prems by (simp add: Cons my_strptime.simps c ag)
        next
          case 2
          then show ?thesis using less.prems by (simp add: Cons my_strptime.simps c ag)
        next
          case (3 s)
          obtain o1 tm1 where "my_strptime s False bp tm = (o1, tm1)" by fastforce
          with 3 sub rest show ?thesis
            by (cases o1) (force simp: Cons my_strptime.simps(2) c ag)+
        next
          case 4
          obtain o1 tm1 where "convert d bp sy tm = (o1, tm1)" by fastforce
          with 4 conv rest show ?thesis
            by (cases o1) (force simp: Cons my_strptime.simps(2) c ag)+
        qed
      qed
    qed
  qed
qed

section \<open>Printed numbers\<close>

text \<open>The last \<open>k\<close> decimal digits of a number.\<close>

fun digits :: "nat \<Rightarrow> nat \<Rightarrow> string" where
  "digits 0 n = []"
| "digits (Suc k) n = char_of (48 + n div 10 ^ k mod 10) # digits k n"

lemma digits_numeral:
  "digits (numeral k) n = char_of (48 + n div 10 ^ pred_numeral k mod 10) # digits (pred_numeral k) n"
  by (simp only: numeral_eq_Suc digits.simps)

lemma isspace_code: "isspace c \<Longrightarrow> (of_char c :: nat) \<in> {9, 10, 11, 12, 13, 32}"
  by (auto simp: isspace_def)

lemma digit_char:
  assumes "d < 10"
  shows "isdigit (char_of (48 + d))" "digit_val (char_of (48 + d)) = int d" "\<not> isspace (char_of (48 + d))"
proof -
  have c: "of_char (char_of (48 + d) :: char) = 48 + d" using assms by simp
  show "isdigit (char_of (48 + d))" "digit_val (char_of (48 + d)) = int d"
    using assms by (simp_all add: isdigit_def digit_val_def c)
  show "\<not> isspace (char_of (48 + d))"
    using isspace_code [of "char_of (48 + d)"] unfolding c by auto
qed

lemma digits_front: "0 < k \<Longrightarrow> digits k n @ r \<noteq> [] \<and> isdigit (hd (digits k n @ r)) \<and> \<not> isspace (hd (digits k n @ r))"
  by (cases k) (simp_all add: digit_char)

lemma conv_loop_digits:
  assumes "10 ^ k \<le> rulim" "rulim < 10 ^ Suc k" "0 \<le> result" "result * 10 ^ Suc k + int (n mod 10 ^ Suc k) \<le> ulim"
  shows "conv_loop ulim result rulim (digits (Suc k) n @ r) = (result * 10 ^ Suc k + int (n mod 10 ^ Suc k), r)"
  using assms
proof (induction k arbitrary: result rulim)
  case 0
  then have "rulim div 10 = 0" by simp
  then show ?case by (simp add: digit_char Let_def)
next
  case (Suc k)
  let ?d = "n div 10 ^ Suc k mod 10"
  let ?res = "result * 10 + int ?d" and ?ru = "rulim div 10"
  have m: "n mod 10 ^ Suc (Suc k) = ?d * 10 ^ Suc k + n mod 10 ^ Suc k"
    using mod_mult2_eq [of n "10 ^ Suc k" 10] by (simp add: mult.commute)
  have ru: "10 ^ k \<le> ?ru" "?ru < 10 ^ Suc k" using Suc.prems(1,2) by (auto simp: zdiv_mono1 div_less_iff_less_mult)
  have e: "?res * 10 ^ Suc k + int (n mod 10 ^ Suc k) = result * 10 ^ Suc (Suc k) + int (n mod 10 ^ Suc (Suc k))"
    unfolding m by (simp add: algebra_simps)
  have "?res * 10 \<le> ?res * 10 ^ Suc k" using Suc.prems(3) by (intro mult_left_mono) simp_all
  also have "\<dots> \<le> ulim" using e Suc.prems(4) by linarith
  finally have le: "?res * 10 \<le> ulim" .
  have "0 < ?ru" using ru(1) by (metis less_le_trans zero_less_numeral zero_less_power)
  with le have "conv_loop ulim result rulim (digits (Suc (Suc k)) n @ r) = conv_loop ulim ?res ?ru (digits (Suc k) n @ r)"
    by (simp add: digit_char Let_def)
  also have "\<dots> = (?res * 10 ^ Suc k + int (n mod 10 ^ Suc k), r)"
    by (rule Suc.IH [OF ru]) (use Suc.prems(3,4) e in simp_all)
  finally show ?case unfolding e .
qed

text \<open>A number printed with as many digits as its limit has is read back, whatever follows.\<close>

lemma conv_num_digits:
  assumes "10 ^ k \<le> u" "u < 10 ^ Suc k" "l \<le> int n" "int n \<le> u"
  shows "conv_num (digits (Suc k) n @ r) l u = Some (int n, r)"
proof -
  have "int n < int (10 ^ Suc k)" using assms(2,4) by simp
  then have "n < 10 ^ Suc k" by (simp only: of_nat_less_iff)
  then have n: "n mod 10 ^ Suc k = n" by simp
  have "conv_loop u 0 u (digits (Suc k) n @ r) = (int n, r)"
    using conv_loop_digits [OF assms(1,2), of 0 n u r] n assms(4) by simp
  then show ?thesis
    using assms(3,4) digits_front [of "Suc k" n r] by (simp add: conv_num_def)
qed

section \<open>The properties\<close>

text \<open>
  A date as \<open>strftime\<close> prints it by \<open>%Y-%m-%d %H:%M:%S\<close>, which is how the scripts and the
  database keep their dates.
\<close>

definition print_date :: "tm \<Rightarrow> string" where
  "print_date d =
     digits 4 (nat (tm_year d + TM_YEAR_BASE)) @ ''-'' @ digits 2 (nat (tm_mon d + 1)) @ ''-''
     @ digits 2 (nat (tm_mday d)) @ '' '' @ digits 2 (nat (tm_hour d)) @ '':''
     @ digits 2 (nat (tm_min d)) @ '':'' @ digits 2 (nat (tm_sec d))"

definition date_fields :: "tm \<Rightarrow> tm \<Rightarrow> tm" where
  "date_fields d tm = tm\<lparr>tm_year := tm_year d, tm_mon := tm_mon d, tm_mday := tm_mday d,
                         tm_hour := tm_hour d, tm_min := tm_min d, tm_sec := tm_sec d\<rparr>"

lemma number_digits:
  assumes "10 ^ k \<le> u" "u < 10 ^ Suc k" "0 \<le> n" "l \<le> n" "n \<le> u"
  shows "number (digits (Suc k) (nat n) @ r) l u sy store tm = (Some (r, sy), store n tm)"
  using conv_num_digits [of k u l "nat n" r] assms by (simp add: number_def)

lemma strptime_literal:
  "my_strptime (CHR ''-'' # fmt) sy (CHR ''-'' # bp) tm = my_strptime fmt sy bp tm"
  "my_strptime (CHR '':'' # fmt) sy (CHR '':'' # bp) tm = my_strptime fmt sy bp tm"
  by (simp_all add: my_strptime.simps isspace_def)

lemma strptime_space:
  "0 < k \<Longrightarrow> my_strptime (CHR '' '' # fmt) sy (CHR '' '' # digits k n @ r) tm = my_strptime fmt sy (digits k n @ r) tm"
  using digits_front [of k n r] by (cases "digits k n @ r") (simp_all add: my_strptime.simps isspace_def)

lemma strptime_number:
  assumes "convert c = (\<lambda>bp sy tm. number bp l u sy store tm)" "c \<notin> set ''EO%cDRrTXx''" "10 ^ k \<le> u" "u < 10 ^ m"
    "m = Suc k" "0 \<le> n" "l \<le> n" "n \<le> u"
  shows "my_strptime (CHR ''%'' # c # fmt) sy (digits m (nat n) @ r) tm = my_strptime fmt sy r (store n tm)"
proof -
  note num = number_digits [OF assms(3) assms(4) [unfolded \<open>m = Suc k\<close>] assms(6-8), folded \<open>m = Suc k\<close>]
  have e: "expansion c = None" "again 0 (c # fmt) = Some (0, c, fmt)" "c \<noteq> CHR ''%''"
    using assms(2) by (auto simp: expansion_def)
  show ?thesis
    by (simp add: my_strptime.simps(2) [of "CHR ''%''"] e LEGAL_ALT_def assms(1) num del: again.simps digits.simps)
qed

lemma strptime_print:
  assumes "tm_ok d" "1 \<le> tm_mday d" "tm_year d \<le> 8099"
  shows "my_strptime ''%Y-%m-%d %H:%M:%S'' sy (print_date d @ rest) tm = (Some rest, date_fields d tm)"
proof -
  have r: "0 \<le> tm_year d + TM_YEAR_BASE" "tm_year d + TM_YEAR_BASE \<le> 9999" "1 \<le> tm_mon d + 1" "tm_mon d + 1 \<le> 12"
    "tm_mday d \<le> 31" "0 \<le> tm_hour d" "tm_hour d \<le> 23" "0 \<le> tm_min d" "tm_min d \<le> 59" "0 \<le> tm_sec d" "tm_sec d \<le> 61"
    using assms by (simp_all add: tm_ok_def TM_YEAR_BASE_def)
  have Y: "convert CHR ''Y'' = (\<lambda>bp sy tm. number bp 0 9999 sy (\<lambda>i tm. tm\<lparr>tm_year := i - TM_YEAR_BASE\<rparr>) tm)"
    "convert CHR ''m'' = (\<lambda>bp sy tm. number bp 1 12 sy (\<lambda>i tm. tm\<lparr>tm_mon := i - 1\<rparr>) tm)"
    "convert CHR ''d'' = (\<lambda>bp sy tm. number bp 1 31 sy (\<lambda>i tm. tm\<lparr>tm_mday := i\<rparr>) tm)"
    "convert CHR ''H'' = (\<lambda>bp sy tm. number bp 0 23 sy (\<lambda>i tm. tm\<lparr>tm_hour := i\<rparr>) tm)"
    "convert CHR ''M'' = (\<lambda>bp sy tm. number bp 0 59 sy (\<lambda>i tm. tm\<lparr>tm_min := i\<rparr>) tm)"
    "convert CHR ''S'' = (\<lambda>bp sy tm. number bp 0 61 sy (\<lambda>i tm. tm\<lparr>tm_sec := i\<rparr>) tm)"
    by (simp_all add: convert_def fun_eq_iff)
  have step4: "my_strptime (CHR ''%'' # CHR ''Y'' # fmt) sy (digits 4 (nat (tm_year d + TM_YEAR_BASE)) @ r) tm
      = my_strptime fmt sy r (tm\<lparr>tm_year := tm_year d\<rparr>)" for fmt r tm
  proof -
    have "my_strptime (CHR ''%'' # CHR ''Y'' # fmt) sy (digits 4 (nat (tm_year d + TM_YEAR_BASE)) @ r) tm
      = my_strptime fmt sy r (tm\<lparr>tm_year := (tm_year d + TM_YEAR_BASE) - TM_YEAR_BASE\<rparr>)"
      by (rule strptime_number [OF Y(1), where k = 3 and m = 4]) (use r(1,2) in simp_all)
    then show ?thesis by simp
  qed
  have dm: "my_strptime (CHR ''%'' # CHR ''m'' # fmt) sy (digits 2 (nat (tm_mon d + 1)) @ r) tm
      = my_strptime fmt sy r (tm\<lparr>tm_mon := tm_mon d + 1 - 1\<rparr>)" for fmt r tm
    by (rule strptime_number [OF Y(2), where k = 1 and m = 2]) (use r assms(2) in simp_all)
  have dd: "my_strptime (CHR ''%'' # CHR ''d'' # fmt) sy (digits 2 (nat (tm_mday d)) @ r) tm
      = my_strptime fmt sy r (tm\<lparr>tm_mday := tm_mday d\<rparr>)" for fmt r tm
    by (rule strptime_number [OF Y(3), where k = 1 and m = 2]) (use r assms(2) in simp_all)
  have dH: "my_strptime (CHR ''%'' # CHR ''H'' # fmt) sy (digits 2 (nat (tm_hour d)) @ r) tm
      = my_strptime fmt sy r (tm\<lparr>tm_hour := tm_hour d\<rparr>)" for fmt r tm
    by (rule strptime_number [OF Y(4), where k = 1 and m = 2]) (use r assms(2) in simp_all)
  have dM: "my_strptime (CHR ''%'' # CHR ''M'' # fmt) sy (digits 2 (nat (tm_min d)) @ r) tm
      = my_strptime fmt sy r (tm\<lparr>tm_min := tm_min d\<rparr>)" for fmt r tm
    by (rule strptime_number [OF Y(5), where k = 1 and m = 2]) (use r assms(2) in simp_all)
  have dS: "my_strptime (CHR ''%'' # CHR ''S'' # fmt) sy (digits 2 (nat (tm_sec d)) @ r) tm
      = my_strptime fmt sy r (tm\<lparr>tm_sec := tm_sec d\<rparr>)" for fmt r tm
    by (rule strptime_number [OF Y(6), where k = 1 and m = 2]) (use r assms(2) in simp_all)
  show ?thesis
    by (simp only: print_date_def append_assoc append.simps step4 dm dd dH dM dS add_diff_cancel_right' strptime_literal
        strptime_space [OF zero_less_numeral] my_strptime.simps(1) date_fields_def)
qed

text \<open>C28: Whatever the format and the text, \<open>my_strptime\<close> leaves every field of the
  structure in the range that the C library asks for, whether it succeeds or fails half way: it can
  be handed to \<open>mktime\<close>, as \<open>date2timestamp\<close> does without a look at the result.\<close>

theorem strptime_keeps_fields_in_range:
  "tm_ok tm \<Longrightarrow> tm_ok (snd (my_strptime fmt sy bp tm))"
  by (rule strptime_ok)

theorem strptime_keeps_fields_in_range_witness:
  "tm_ok (snd (my_strptime ''%H:%M %j'' False ''23:59 400'' tm_zero))"
  by (rule strptime_keeps_fields_in_range) (simp add: tm_ok_def tm_zero_def)

text \<open>C27: A date printed as \<open>%Y-%m-%d %H:%M:%S\<close> is read back field by field, with the rest of
  the text left as it is; \<open>date2timestamp\<close> hands exactly these fields to \<open>mktime\<close>.\<close>

theorem printed_date_read_back:
  assumes "tm_ok d" "1 \<le> tm_mday d" "tm_year d \<le> 8099"
  shows "my_strptime ''%Y-%m-%d %H:%M:%S'' sy (print_date d @ rest) tm = (Some rest, date_fields d tm)
    \<and> date2timestamp mktime ''%Y-%m-%d %H:%M:%S'' (print_date d)
        = word_of_int (mktime (date_fields d tm_zero))"
  using strptime_print [OF assms, of sy rest tm] strptime_print [OF assms, of False "[]" tm_zero]
  by (simp add: date2timestamp_def)

definition a_date :: tm where
  "a_date = tm_zero\<lparr>tm_year := 119, tm_mon := 11, tm_mday := 31, tm_hour := 23, tm_min := 59, tm_sec := 8\<rparr>"

theorem printed_date_read_back_witness:
  "my_strptime ''%Y-%m-%d %H:%M:%S'' False (print_date a_date @ ''Z'') tm_zero = (Some ''Z'', a_date)
    \<and> print_date a_date = ''2019-12-31 23:59:08''"
proof -
  have "print_date a_date = ''2019-12-31 23:59:08''"
    by (simp add: print_date_def a_date_def tm_zero_def TM_YEAR_BASE_def digits_numeral char_of_def bit_numeral_rec bit_0)
  moreover have "date_fields a_date tm_zero = a_date"
    by (simp add: date_fields_def a_date_def)
  ultimately show ?thesis
    using printed_date_read_back [of a_date False "''Z''" tm_zero "\<lambda>_. 0"]
    by (simp add: tm_ok_def a_date_def tm_zero_def)
qed

end
