(* ===== verification/Lua_Value.thy ===== *)
theory Lua_Value
  imports Hyxd_Base "HOL-Library.AList"
begin

text \<open>
  Lua values, and the conversions of \<open>3rd/lua-5.3.4\<close> (\<open>lobject.c\<close>, \<open>lvm.c\<close>, \<open>lapi.c\<close>,
  \<open>lauxlib.c\<close>) that the bindings rest on. A table is its list of entries in the order in which
  \<open>lua_next\<close> visits them; tables that contain themselves are not modelled. Floating-point
  numbers are a type parameter, with what the code needs of them in a record.
\<close>

section \<open>Values\<close>

datatype 'd lval =
    Nil
  | Boolean bool
  | Integer int
  | Number 'd
  | Str string
  | Table "('d lval \<times> 'd lval) list"
  | Function nat
  | LightUserdata nat

text \<open>
  The machine's doubles: \<open>cast_num\<close>, truncation (\<open>None\<close> for a NaN or an infinity),
  rounding to \<open>float\<close> and back, \<open>l_str2d\<close>, and the text of a double. \<open>getn\<close> is the length
  of a table, \<open>luaH_getn\<close>, which depends on how the table was built where it has holes.
\<close>

record 'd doubles =
  of_integer :: "int \<Rightarrow> 'd"
  trunc_int :: "'d \<Rightarrow> int option"
  round_float :: "'d \<Rightarrow> 'd"
  l_str2d :: "string \<Rightarrow> 'd option"
  number2str :: "'d \<Rightarrow> string"
  getn :: "('d lval \<times> 'd lval) list \<Rightarrow> nat"

text \<open>IEEE 754: the integers of at most 53 bits are exact, and a \<open>float\<close> is a \<open>double\<close>.\<close>

definition ieee :: "'d doubles \<Rightarrow> bool" where
  "ieee fp \<longleftrightarrow> (\<forall>i. \<bar>i\<bar> \<le> 2 ^ 53 \<longrightarrow> trunc_int fp (of_integer fp i) = Some i) \<and>
               (\<forall>x. round_float fp (round_float fp x) = round_float fp x)"

lemma ieee_exact: "ieee fp \<Longrightarrow> \<bar>i\<bar> \<le> 2 ^ 53 \<Longrightarrow> trunc_int fp (of_integer fp i) = Some i"
  by (simp add: ieee_def)

text \<open>\<open>lua_rawget\<close> and \<open>lua_rawset\<close> on the entries of a table; a nil value removes its key.\<close>

definition rawget :: "('d lval \<times> 'd lval) list \<Rightarrow> 'd lval \<Rightarrow> 'd lval" where
  "rawget es k = (case map_of es k of None \<Rightarrow> Nil | Some v \<Rightarrow> v)"

definition rawset :: "('d lval \<times> 'd lval) list \<Rightarrow> 'd lval \<Rightarrow> 'd lval \<Rightarrow> ('d lval \<times> 'd lval) list" where
  "rawset es k v = (if v = Nil then AList.delete k es else AList.update k v es)"

lemma rawget_rawset [simp]: "rawget (rawset es k v) k' = (if k' = k then v else rawget es k')"
  by (simp add: rawget_def rawset_def update_conv' delete_conv')

lemma rawget_Nil [simp]: "rawget [] k = Nil"
  by (simp add: rawget_def)

lemma rawget_fresh: "k \<notin> fst ` set es \<Longrightarrow> rawget es k = Nil"
  by (simp add: rawget_def map_of_eq_None_iff [THEN iffD2])

lemma update_fresh: "k \<notin> fst ` set es \<Longrightarrow> AList.update k v es = es @ [(k, v)]"
  by (induction es) auto

lemma rawset_fresh: "k \<notin> fst ` set es \<Longrightarrow> v \<noteq> Nil \<Longrightarrow> rawset es k v = es @ [(k, v)]"
  by (simp add: rawset_def update_fresh)

lemma size_rawget:
  assumes "rawget es k \<noteq> Nil"
  shows "size (rawget es k) < size (Table es)"
proof -
  from assms obtain v where v: "map_of es k = Some v" "rawget es k = v"
    by (auto simp: rawget_def split: option.splits)
  from map_of_SomeD [OF v(1)] have "size_prod size size (k, v) \<le> size_list (size_prod size size) es"
    by (intro size_list_estimation') auto
  with v(2) show ?thesis by simp
qed

lemma size_entry: "(k, v) \<in> set es \<Longrightarrow> size v < size (Table es)"
proof -
  assume "(k, v) \<in> set es"
  then have "size_prod size size (k, v) \<le> size_list (size_prod size size) es"
    by (intro size_list_estimation') auto
  then show ?thesis by simp
qed

text \<open>
  What the manual says of the length of a table: it is a border. The first border is one.
\<close>

definition is_border :: "nat \<Rightarrow> ('d lval \<times> 'd lval) list \<Rightarrow> bool" where
  "is_border n es \<longleftrightarrow> (n = 0 \<or> rawget es (Integer (int n)) \<noteq> Nil) \<and> rawget es (Integer (int n + 1)) = Nil"

definition finds_border :: "'d doubles \<Rightarrow> bool" where
  "finds_border fp \<longleftrightarrow> (\<forall>es. is_border (getn fp es) es)"

function border :: "nat \<Rightarrow> ('d lval \<times> 'd lval) list \<Rightarrow> nat" where
  "border n es = (if Integer (int n + 1) \<in> fst ` set es \<and> rawget es (Integer (int n + 1)) \<noteq> Nil
                  then border (Suc n) es else n)"
  by pat_completeness auto
termination
proof (relation "measure (\<lambda>(n, es). card ({i. Integer (int i + 1) \<in> fst ` set es} - {..<n}))")
  fix n :: nat and es :: "('d lval \<times> 'd lval) list"
  let ?S = "{i. Integer (int i + 1) \<in> fst ` set es}"
  assume a: "Integer (int n + 1) \<in> fst ` set es \<and> rawget es (Integer (int n + 1)) \<noteq> Nil"
  have "finite ?S"
    by (rule finite_imageD [of "\<lambda>i. Integer (int i + 1)", OF finite_subset [of _ "fst ` set es"]])
      (auto simp: inj_on_def)
  moreover have "n \<in> ?S - {..<n}" using a by simp
  moreover have "?S - {..<Suc n} = (?S - {..<n}) - {n}" by auto
  ultimately have "card (?S - {..<Suc n}) < card (?S - {..<n})"
    by (simp only: card_Diff1_less finite_Diff)
  then show "((Suc n, es), n, es) \<in> measure (\<lambda>(n, es). card ({i. Integer (int i + 1) \<in> fst ` set es} - {..<n}))"
    by simp
qed simp

declare border.simps [simp del]

lemma border_is_border:
  "n = 0 \<or> rawget es (Integer (int n)) \<noteq> Nil \<Longrightarrow> is_border (border n es) es"
proof (induction n es rule: border.induct)
  case (1 n es)
  show ?case
  proof (cases "Integer (int n + 1) \<in> fst ` set es \<and> rawget es (Integer (int n + 1)) \<noteq> Nil")
    case True
    with 1(1) [OF True] show ?thesis by (subst border.simps) (simp add: add.commute)
  next
    case False
    then have "rawget es (Integer (int n + 1)) = Nil" using rawget_fresh by blast
    with 1(2) False show ?thesis by (subst border.simps) (auto simp: is_border_def)
  qed
qed

definition luaL_len :: "'d doubles \<Rightarrow> ('d lval \<times> 'd lval) list \<Rightarrow> nat" where
  "luaL_len fp es = getn fp es"

section \<open>From strings to numbers\<close>

definition uchar :: "char \<Rightarrow> nat" where
  "uchar c = of_char c"

definition lisspace :: "char \<Rightarrow> bool" where
  "lisspace c \<longleftrightarrow> uchar c = 32 \<or> 9 \<le> uchar c \<and> uchar c \<le> 13"

definition lisdigit :: "char \<Rightarrow> bool" where
  "lisdigit c \<longleftrightarrow> 48 \<le> uchar c \<and> uchar c \<le> 57"

definition lisxdigit :: "char \<Rightarrow> bool" where
  "lisxdigit c \<longleftrightarrow> lisdigit c \<or> 65 \<le> uchar c \<and> uchar c \<le> 70 \<or> 97 \<le> uchar c \<and> uchar c \<le> 102"

definition hexavalue :: "char \<Rightarrow> nat" where
  "hexavalue c = (if lisdigit c then uchar c - 48
                  else (if 65 \<le> uchar c \<and> uchar c \<le> 90 then uchar c + 32 else uchar c) - 97 + 10)"

definition MAXBY10 :: "64 word" where "MAXBY10 = 922337203685477580"
definition MAXLASTD :: nat where "MAXLASTD = 7"

text \<open>One turn of the decimal loop; \<open>None\<close> is the overflow.\<close>

definition dec_turn :: "bool \<Rightarrow> 64 word option \<Rightarrow> char \<Rightarrow> 64 word option" where
  "dec_turn neg a c =
     (case a of
        None \<Rightarrow> None
      | Some a \<Rightarrow>
          let d = uchar c - 48 in
          if MAXBY10 \<le> a \<and> (MAXBY10 < a \<or> MAXLASTD + of_bool neg < d) then None
          else Some (a * 10 + word_of_nat d))"

text \<open>\<open>None\<close> is the null pointer. The text ends with its terminating zero.\<close>

definition l_str2int :: "string \<Rightarrow> 64 word option" where
  "l_str2int s =
     (let s = dropWhile lisspace s;
          neg = (s \<noteq> [] \<and> hd s = CHR ''-'');
          s = (if s \<noteq> [] \<and> (hd s = CHR ''-'' \<or> hd s = CHR ''+'') then tl s else s);
          hex = (2 \<le> length s \<and> hd s = CHR ''0'' \<and> (s ! 1 = CHR ''x'' \<or> s ! 1 = CHR ''X''));
          s = (if hex then drop 2 s else s);
          ds = takeWhile (if hex then lisxdigit else lisdigit) s;
          a = (if hex then Some (foldl (\<lambda>a c. a * 16 + word_of_nat (hexavalue c)) 0 ds)
               else foldl (dec_turn neg) (Some 0) ds);
          rest = dropWhile lisspace (drop (length ds) s)
      in case a of
           None \<Rightarrow> None
         | Some a \<Rightarrow> if ds = [] \<or> rest \<noteq> [] then None else Some (if neg then 0 - a else a))"

text \<open>\<open>luaO_str2num\<close>.\<close>

definition luaO_str2num :: "'d doubles \<Rightarrow> string \<Rightarrow> 'd lval option" where
  "luaO_str2num fp s =
     (case l_str2int s of
        Some w \<Rightarrow> Some (Integer (sint w))
      | None \<Rightarrow> map_option Number (l_str2d fp s))"

text \<open>\<open>lua_tonumberx\<close> and \<open>lua_tointegerx\<close>: \<open>None\<close> where \<open>*isnum\<close> is 0.\<close>

definition lua_tonumber :: "'d doubles \<Rightarrow> 'd lval \<Rightarrow> 'd option" where
  "lua_tonumber fp v =
     (case v of
        Number d \<Rightarrow> Some d
      | Integer i \<Rightarrow> Some (of_integer fp i)
      | Str s \<Rightarrow> (case luaO_str2num fp s of
                   Some (Integer i) \<Rightarrow> Some (of_integer fp i)
                 | Some (Number d) \<Rightarrow> Some d
                 | _ \<Rightarrow> None)
      | _ \<Rightarrow> None)"

definition float_to_integer :: "'d doubles \<Rightarrow> 'd \<Rightarrow> int option" where
  "float_to_integer fp d =
     (case trunc_int fp d of
        None \<Rightarrow> None
      | Some i \<Rightarrow> if of_integer fp i = d \<and> - (2 ^ 63) \<le> i \<and> i < 2 ^ 63 then Some i else None)"

definition lua_tointeger :: "'d doubles \<Rightarrow> 'd lval \<Rightarrow> int option" where
  "lua_tointeger fp v =
     (case v of
        Number d \<Rightarrow> float_to_integer fp d
      | Integer i \<Rightarrow> Some i
      | Str s \<Rightarrow> (case luaO_str2num fp s of
                   Some (Integer i) \<Rightarrow> Some i
                 | Some (Number d) \<Rightarrow> float_to_integer fp d
                 | _ \<Rightarrow> None)
      | _ \<Rightarrow> None)"

definition lua_toboolean :: "'d lval \<Rightarrow> bool" where
  "lua_toboolean v \<longleftrightarrow> v \<noteq> Nil \<and> v \<noteq> Boolean False"

section \<open>Printing integers\<close>

text \<open>\<open>sprintf(str, "%lld", i)\<close> and \<open>"%llu"\<close>.\<close>

definition digit :: "nat \<Rightarrow> char" where
  "digit d = char_of (48 + d)"

fun dec :: "nat \<Rightarrow> string" where
  "dec n = (if n < 10 then [digit n] else dec (n div 10) @ [digit (n mod 10)])"

declare dec.simps [simp del]

definition format_lld :: "int \<Rightarrow> string" where
  "format_lld i = (if i < 0 then CHR ''-'' # dec (nat (- i)) else dec (nat i))"

definition lua_tolstring :: "'d doubles \<Rightarrow> 'd lval \<Rightarrow> string option" where
  "lua_tolstring fp v =
     (case v of
        Str s \<Rightarrow> Some s
      | Integer i \<Rightarrow> Some (format_lld i)
      | Number d \<Rightarrow> Some (number2str fp d)
      | _ \<Rightarrow> None)"

lemma uchar_digit: "d < 10 \<Longrightarrow> uchar (digit d) = 48 + d"
  by (simp add: uchar_def digit_def)

lemma digit_facts: "d < 10 \<Longrightarrow> lisdigit (digit d)" "d < 10 \<Longrightarrow> \<not> lisspace (digit d)"
  by (simp_all add: lisdigit_def lisspace_def uchar_digit)

lemma dec_digits: "c \<in> set (dec n) \<Longrightarrow> lisdigit c \<and> \<not> lisspace c"
  by (induction n rule: dec.induct) (subst (asm) (2) dec.simps, auto simp: digit_facts split: if_splits)

lemma dec_nonempty [simp]: "dec n \<noteq> []"
  by (subst dec.simps) simp

lemma foldl_dec:
  assumes "n \<le> 2 ^ 63 - 1 + of_bool neg"
  shows "foldl (dec_turn neg) (Some 0) (dec n) = Some (word_of_nat n)"
  using assms
proof (induction n rule: dec.induct)
  case (1 n)
  show ?case
  proof (cases "n < 10")
    case True
    then show ?thesis
      by (subst dec.simps) (simp add: dec_turn_def uchar_digit MAXBY10_def)
  next
    case False
    let ?a = "word_of_nat (n div 10) :: 64 word"
    have "n < 2 ^ 64" using 1(2) by (cases neg) simp_all
    then have u: "unat ?a = n div 10" by (simp add: unat_of_nat)
    have ih: "foldl (dec_turn neg) (Some 0) (dec (n div 10)) = Some ?a"
      using 1(1) [OF False] 1(2) by simp
    have "\<not> (MAXBY10 \<le> ?a \<and> (MAXBY10 < ?a \<or> MAXLASTD + of_bool neg < n mod 10))"
    proof
      assume "MAXBY10 \<le> ?a \<and> (MAXBY10 < ?a \<or> MAXLASTD + of_bool neg < n mod 10)"
      then have "922337203685477580 \<le> n div 10 \<and> (922337203685477580 < n div 10 \<or> 7 + of_bool neg < n mod 10)"
        unfolding MAXBY10_def MAXLASTD_def word_le_nat_alt word_less_nat_alt u by simp
      moreover obtain q r where "n = q * 10 + r" "n div 10 = q" "n mod 10 = r" by (metis div_mult_mod_eq)
      ultimately show False using 1(2) by (cases neg) auto
    qed
    moreover have "?a * 10 + word_of_nat (n mod 10) = word_of_nat n"
    proof -
      have "word_of_nat n = (word_of_nat (n div 10 * 10 + n mod 10) :: 64 word)" by simp
      then show ?thesis by (simp only: of_nat_add of_nat_mult of_nat_numeral)
    qed
    ultimately show ?thesis
      using False ih by (subst dec.simps; cases neg) (auto simp: dec_turn_def uchar_digit Let_def)
  qed
qed

lemma l_str2int_dec:
  assumes "n \<le> 2 ^ 63 - 1 + of_bool neg"
  shows "l_str2int ((if neg then [CHR ''-''] else []) @ dec n)
         = Some (if neg then 0 - word_of_nat n else word_of_nat n)"
proof -
  let ?s = "dec n"
  have d: "c \<in> set ?s \<Longrightarrow> lisdigit c \<and> \<not> lisspace c" for c by (rule dec_digits)
  have h: "lisdigit (hd ?s)" "\<not> lisspace (hd ?s)" using d [of "hd ?s"] by simp_all
  have sgn: "\<not> lisdigit (CHR ''-'')" "\<not> lisdigit (CHR ''+'')" "\<not> lisspace (CHR ''-'')"
    "\<not> lisdigit (CHR ''x'')" "\<not> lisdigit (CHR ''X'')"
    by (simp_all add: lisdigit_def lisspace_def uchar_def)
  have nosp: "dropWhile lisspace ?s = ?s" using h by (cases ?s) auto
  have nosign: "hd ?s \<noteq> CHR ''-''" "hd ?s \<noteq> CHR ''+''" using h sgn by metis+
  have "2 \<le> length ?s \<Longrightarrow> lisdigit (?s ! 1)" using d [of "?s ! 1"] by simp
  with sgn have nohex: "2 \<le> length ?s \<Longrightarrow> ?s ! 1 \<noteq> CHR ''x'' \<and> ?s ! 1 \<noteq> CHR ''X''" by metis
  have all: "takeWhile lisdigit ?s = ?s" using d by (simp add: takeWhile_eq_all_conv)
  show ?thesis
    using foldl_dec [OF assms]
    by (cases neg) (simp_all add: l_str2int_def Let_def nosp nosign nohex [unfolded One_nat_def] all sgn(3)
        cong: conj_cong)
qed

text \<open>Reading what was printed, for every value of the type.\<close>

lemma l_str2int_format: "l_str2int (format_lld (sint (w :: 64 word))) = Some w"
proof (cases "sint w < 0")
  case True
  have "- (2 ^ 63) \<le> sint w" using sint_greater_eq [of w] by simp
  then have "nat (- sint w) \<le> 2 ^ 63 - 1 + of_bool True" by simp
  from l_str2int_dec [OF this] True show ?thesis
    by (simp add: format_lld_def)
next
  case False
  have "sint w < 2 ^ 63" using sint_less [of w] by simp
  then have "nat (sint w) \<le> 2 ^ 63 - 1 + of_bool False" by simp
  from l_str2int_dec [OF this] False show ?thesis
    by (simp add: format_lld_def)
qed

lemma lua_tonumber_format:
  assumes "- (2 ^ 63) \<le> i" "i < 2 ^ 63"
  shows "lua_tonumber fp (Str (format_lld i)) = Some (of_integer fp i)"
proof -
  have "sint (word_of_int i :: 64 word) = i" 
    using assms by (simp only: sint_sbintrunc') (simp add: signed_take_bit_int_eq_self)
  then show ?thesis
    using l_str2int_format [of "word_of_int i"] by (simp add: lua_tonumber_def luaO_str2num_def)
qed

end
