(* ===== verification/Logger.thy ===== *)
theory Logger
  imports Timestamp Lua_Value
begin

text \<open>
  The log files, \<open>utils/logger.cc\<close>: one file for every day, opened when the first line of the day
  is written. The C library's \<open>time\<close> and \<open>gmtime\<close>, what \<open>uv_fs_open\<close> returns, and the text that
  \<open>vsnprintf\<close> makes of a message are arguments. The disk is what the open descriptors stand for and
  the contents of the files; a write to an open file is complete.
\<close>

section \<open>The code\<close>

record logger =
  g_log_path :: string
  g_prefix :: string
  g_file_handle :: int        \<comment> \<open>\<open>g_file_handle.result\<close>\<close>
  g_current_day :: u32
  g_last_second :: u32
  g_format_time :: string
  g_std_out :: bool
  is_init :: bool
  opened :: "int \<Rightarrow> string option"
  contents :: "string \<Rightarrow> string"
  made_dirs :: "string list"
  std_out :: string

text \<open>\<open>%4d\<close> and \<open>%02d\<close>, for numbers that are not negative.\<close>

definition pad_left :: "nat \<Rightarrow> char \<Rightarrow> string \<Rightarrow> string" where
  "pad_left w c s = replicate (w - length s) c @ s"

definition fmt4d :: "int \<Rightarrow> string" where
  "fmt4d i = pad_left 4 (CHR '' '') (format_lld i)"

definition fmt02d :: "int \<Rightarrow> string" where
  "fmt02d i = pad_left 2 (CHR ''0'') (format_lld i)"

definition log_file_name :: "logger \<Rightarrow> tm \<Rightarrow> string" where
  "log_file_name L t = g_log_path L @ g_prefix L @ ''.'' @ fmt4d (tm_year t + 1900)
     @ fmt02d (tm_mon t + 1) @ fmt02d (tm_mday t) @ ''.log''"

text \<open>The name is printed into 128 bytes.\<close>

definition open_file :: "(string \<Rightarrow> int) \<Rightarrow> tm \<Rightarrow> logger \<Rightarrow> logger result" where
  "open_file uv_fs_open time_struct L =
     (let L = (if g_file_handle L \<noteq> 0
               then L\<lparr>opened := (opened L)(g_file_handle L := None), g_file_handle := 0\<rparr> else L);
          fileName = log_file_name L time_struct
      in if 128 \<le> length fileName then Inl OutOfBounds
         else let r = uv_fs_open fileName in
              Inr (L\<lparr>g_file_handle := r,
                     opened := (if r < 0 then opened L else (opened L)(r := Some fileName))\<rparr>))"

definition prepare_file :: "(string \<Rightarrow> int) \<Rightarrow> (int \<Rightarrow> tm) \<Rightarrow> int \<Rightarrow> logger \<Rightarrow> logger result" where
  "prepare_file uv_fs_open gmtime time L =
     (let time_struct = gmtime (time + 8 * 60 * 60); day = word_of_int (tm_mday time_struct) in
      if g_file_handle L = 0 then open_file uv_fs_open time_struct (L\<lparr>g_current_day := day\<rparr>)
      else if g_current_day L \<noteq> day then open_file uv_fs_open time_struct (L\<lparr>g_current_day := day\<rparr>)
      else Inr L)"

definition print_time :: "tm \<Rightarrow> string" where
  "print_time t = fmt4d (tm_year t + 1900) @ fmt02d (tm_mon t + 1) @ fmt02d (tm_mday t) @ '' ''
     @ fmt02d (tm_hour t) @ '':'' @ fmt02d (tm_min t) @ '':'' @ fmt02d (tm_sec t) @ '' ''"

definition format_time :: "(int \<Rightarrow> tm) \<Rightarrow> int \<Rightarrow> logger \<Rightarrow> logger" where
  "format_time gmtime time L =
     (let now = time + 8 * 60 * 60 in
      if now \<noteq> uint (g_last_second L)
      then L\<lparr>g_last_second := word_of_int now, g_format_time := print_time (gmtime now)\<rparr> else L)"

definition g_log_level :: "string list" where
  "g_log_level = [''*****DEBUG*****'', ''WARNING '', ''!!!!!ERROR!!!!! '']"

text \<open>The directories of a path: the text before each slash.\<close>

definition parent_dirs :: "string \<Rightarrow> string list" where
  "parent_dirs p = map (\<lambda>k. take k p) (filter (\<lambda>k. p ! k = CHR ''/'') [0..<length p])"

definition logger_init :: "string \<Rightarrow> string \<Rightarrow> bool \<Rightarrow> logger \<Rightarrow> logger result" where
  "logger_init path prefix std_output L =
     (if is_init L then Inr L
      else if path = [] then Inl OutOfBounds
      else let p = (if last path \<noteq> CHR ''/'' then path @ ''/'' else path) in
           Inr (L\<lparr>is_init := True, g_prefix := prefix, g_log_path := p, g_std_out := std_output,
                  made_dirs := made_dirs L @ parent_dirs p\<rparr>))"

text \<open>
  \<open>logger::log\<close>; \<open>time1\<close> and \<open>time2\<close> are the answers of the two calls of \<open>time\<close>. The place is
  printed into 1024 bytes, the message cut off at 10239.
\<close>

definition log_place :: "string \<Rightarrow> nat \<Rightarrow> string" where
  "log_place file_name line_num = file_name @ '':'' @ dec line_num @ ''  ''"

definition log_line :: "string \<Rightarrow> nat \<Rightarrow> string \<Rightarrow> nat \<Rightarrow> string \<Rightarrow> string" where
  "log_line time level place content_len msg =
     time @ g_log_level ! level @ place @ [CHR 0x0A] @ take content_len msg @ [CHR 0x0A]"

definition logger_log ::
  "(string \<Rightarrow> int) \<Rightarrow> (int \<Rightarrow> tm) \<Rightarrow> int \<Rightarrow> int \<Rightarrow> string \<Rightarrow> nat \<Rightarrow> nat \<Rightarrow> string \<Rightarrow> logger \<Rightarrow> logger result" where
  "logger_log uv_fs_open gmtime time1 time2 file_name line_num level msg L =
     rbind (prepare_file uv_fs_open gmtime time1 L) (\<lambda>L.
       let L = format_time gmtime time2 L; place = log_place file_name line_num in
       if 1024 \<le> length place \<or> 3 \<le> level then Inl OutOfBounds
       else let line = log_line (g_format_time L) level place 10239 msg;
                L = (case opened L (g_file_handle L) of
                       None \<Rightarrow> L
                     | Some f \<Rightarrow> L\<lparr>contents := (contents L)(f := contents L f @ line)\<rparr>)
            in Inr (if g_std_out L
                    then L\<lparr>std_out := std_out L @ file_name @ '':'' @ dec line_num @ [CHR 0x0A] @ ''[''
                             @ g_log_level ! level @ ''] '' @ take 10239 msg @ [CHR 0x0A]\<rparr>
                    else L))"

section \<open>Where a line goes\<close>

text \<open>The file of the date \<open>d\<close> is open.\<close>

definition logs_to :: "logger \<Rightarrow> tm \<Rightarrow> bool" where
  "logs_to L d \<longleftrightarrow> g_file_handle L > 0 \<and> opened L (g_file_handle L) = Some (log_file_name L d) \<and>
     g_current_day L = word_of_int (tm_mday d)"

definition valid_day :: "tm \<Rightarrow> bool" where
  "valid_day t \<longleftrightarrow> 1 \<le> tm_mday t \<and> tm_mday t \<le> 31"

lemma day_eq:
  assumes "valid_day s" "valid_day t"
  shows "(word_of_int (tm_mday s) :: u32) = word_of_int (tm_mday t) \<longleftrightarrow> tm_mday s = tm_mday t"
proof -
  have "uint (word_of_int (tm_mday s) :: u32) = tm_mday s" "uint (word_of_int (tm_mday t) :: u32) = tm_mday t"
    using assms by (simp_all add: valid_day_def uint_word_of_int_eq take_bit_int_eq_self)
  then show ?thesis by metis
qed

lemma name_of_update [simp]:
  "log_file_name (L\<lparr>g_file_handle := a\<rparr>) t = log_file_name L t"
  "log_file_name (L\<lparr>opened := b\<rparr>) t = log_file_name L t"
  "log_file_name (L\<lparr>g_current_day := c\<rparr>) t = log_file_name L t"
  "log_file_name (L\<lparr>g_last_second := s\<rparr>) t = log_file_name L t"
  "log_file_name (L\<lparr>g_format_time := f\<rparr>) t = log_file_name L t"
  "log_file_name (L\<lparr>contents := e\<rparr>) t = log_file_name L t"
  "log_file_name (L\<lparr>std_out := o'\<rparr>) t = log_file_name L t"
  by (simp_all add: log_file_name_def)

lemma prepared:
  assumes "g_file_handle L = 0 \<or> logs_to L d \<and> valid_day d" "valid_day t" "t = gmtime (time + 28800)"
    and "0 < uv_fs_open (log_file_name L t)" "length (log_file_name L t) < 128"
  shows "\<exists>L'. prepare_file uv_fs_open gmtime time L = Inr L' \<and>
     logs_to L' (if g_file_handle L = 0 \<or> tm_mday t \<noteq> tm_mday d then t else d) \<and>
     contents L' = contents L \<and> g_format_time L' = g_format_time L \<and> g_last_second L' = g_last_second L \<and>
     g_std_out L' = g_std_out L \<and> (\<forall>e. log_file_name L' e = log_file_name L e)"
  using assms
  by (auto simp: prepare_file_def open_file_def Let_def logs_to_def day_eq)

text \<open>The printed time is that of the last second; at the start there is none.\<close>

definition time_current :: "(int \<Rightarrow> tm) \<Rightarrow> logger \<Rightarrow> bool" where
  "time_current gmtime L \<longleftrightarrow> g_last_second L = 0 \<or> g_format_time L = print_time (gmtime (uint (g_last_second L)))"

lemma formatted:
  assumes "time_current gmtime L" "0 \<le> time" "time + 28800 < 2 ^ 32"
  shows "\<exists>s f. format_time gmtime time L = L\<lparr>g_last_second := s, g_format_time := f\<rparr> \<and>
     f = print_time (gmtime (time + 28800)) \<and> uint s = time + 28800"
proof (cases "time + 28800 = uint (g_last_second L)")
  case True
  then have "g_last_second L \<noteq> 0" using assms(2) by auto
  with True assms(1) show ?thesis
    by (intro exI [of _ "g_last_second L"] exI [of _ "g_format_time L"])
      (simp add: format_time_def time_current_def)
next
  case False
  have "uint (word_of_int (time + 28800) :: u32) = time + 28800"
    by (subst uint_word_of_int_eq, rule take_bit_int_eq_self) (use assms(2,3) in simp_all)
  with False show ?thesis
    by (intro exI [of _ "word_of_int (time + 28800)"] exI [of _ "print_time (gmtime (time + 28800))"])
      (simp add: format_time_def Let_def)
qed

text \<open>
  C26: A line is appended to one file and to no other, stamped with its time: to the file of the
  day on which it is written, unless the file that is open is of an earlier date with the same day
  of the month, which the logger takes for today's. \<open>d\<close> is the date of the open file.
\<close>

theorem line_goes_to_days_file:
  assumes "g_file_handle L = 0 \<or> logs_to L d \<and> valid_day d" "time_current gmtime L"
    and "valid_day t" "t = gmtime (time1 + 28800)" "0 \<le> time2" "time2 + 28800 < 2 ^ 32"
    and "0 < uv_fs_open (log_file_name L t)" "length (log_file_name L t) < 128"
    and "level < 3" "length (log_place file_name line_num) < 1024"
    and "d' = (if g_file_handle L = 0 \<or> tm_mday t \<noteq> tm_mday d then t else d)"
  shows "\<exists>L'. logger_log uv_fs_open gmtime time1 time2 file_name line_num level msg L = Inr L' \<and>
     contents L' = (contents L)(log_file_name L d' := contents L (log_file_name L d') @
       log_line (print_time (gmtime (time2 + 28800))) level (log_place file_name line_num) 10239 msg) \<and>
     logs_to L' d' \<and> time_current gmtime L'"
proof -
  from prepared [where L = L and d = d and t = t and gmtime = gmtime and time = time1 and uv_fs_open = uv_fs_open,
      OF assms(1,3,4,7,8)] obtain P where
    prep: "prepare_file uv_fs_open gmtime time1 L = Inr P" and
    P: "logs_to P d'" "contents P = contents L" "g_format_time P = g_format_time L"
      "g_last_second P = g_last_second L" "\<And>e. log_file_name P e = log_file_name L e"
    unfolding assms(11) by blast
  have "time_current gmtime P" using assms(2) by (simp add: time_current_def P(3,4))
  from formatted [OF this assms(5,6)] obtain s where
    fmt: "format_time gmtime time2 P = P\<lparr>g_last_second := s, g_format_time := print_time (gmtime (time2 + 28800))\<rparr>"
    and s: "uint s = time2 + 28800" by blast
  have handle: "opened P (g_file_handle P) = Some (log_file_name L d')" "g_file_handle P > 0"
    "g_current_day P = word_of_int (tm_mday d')"
    using P(1) by (simp_all add: logs_to_def P(5))
  show ?thesis
    using assms(9,10) handle s
    by (auto simp: logger_log_def prep fmt Let_def P(2,5) logs_to_def time_current_def split: if_splits)
qed

definition gm_zero :: "int \<Rightarrow> tm" where
  "gm_zero s = tm_zero\<lparr>tm_year := 120, tm_mday := 1 + s div 86400\<rparr>"

definition fresh_logger :: logger where
  "fresh_logger = \<lparr>g_log_path = ''log/'', g_prefix = ''srv'', g_file_handle = 0, g_current_day = 0,
     g_last_second = 0, g_format_time = [], g_std_out = False, is_init = True, opened = (\<lambda>_. None),
     contents = (\<lambda>_. []), made_dirs = [], std_out = []\<rparr>"

lemma name_length:
  "length (log_file_name fresh_logger (gm_zero 28800)) < 128"
  by (simp add: log_file_name_def fresh_logger_def gm_zero_def tm_zero_def fmt4d_def fmt02d_def pad_left_def
      format_lld_def dec.simps)

theorem line_goes_to_days_file_witness:
  "\<exists>L'. logger_log (\<lambda>_. 3) gm_zero 0 5 ''a.cc'' 7 2 ''down'' fresh_logger = Inr L' \<and>
     contents L' = (\<lambda>_. [])(log_file_name fresh_logger (gm_zero 28800) :=
       log_line (print_time (gm_zero 28805)) 2 (log_place ''a.cc'' 7) 10239 ''down'')"
proof -
  have "length (log_place ''a.cc'' 7) < 1024" by (simp add: log_place_def dec.simps)
  from line_goes_to_days_file [where L = fresh_logger and uv_fs_open = "\<lambda>_. 3" and gmtime = gm_zero
      and t = "gm_zero 28800" and d = "gm_zero 0" and ?time1.0 = 0 and ?time2.0 = 5 and level = 2 and msg = "''down''",
      OF _ _ _ _ _ _ _ name_length _ this refl]
  show ?thesis
    by (simp add: time_current_def valid_day_def gm_zero_def tm_zero_def fresh_logger_def) blast
qed

end
