(* ===== verification/Timer.thy ===== *)
theory Timer
  imports Hyxd_Base "HOL-Library.Signed_Division"
begin

text \<open>
  Timers, in the three layers of the code: libuv's timers on Windows
  (\<open>3rd/libuv/src/win/timer.c\<close>), the timers of the server (\<open>utils/time_list.c\<close>), and
  \<open>Scheduler\<close> for the scripts (\<open>lua_wrapper/scheduler_export_to_lua.cc\<close>). The memory
  of timers is a map from addresses; \<open>free\<close> removes an address and no address is given out twice,
  so an access to freed memory is the error \<open>UseAfterFree\<close>. A script is an argument of the
  model: what its call does to the state, in which it may schedule and cancel timers.
\<close>

section \<open>State\<close>

type_synonym u64 = "64 word"

text \<open>The fields of \<open>uv_timer_t\<close>: \<open>UV__HANDLE_ACTIVE\<close> of the flags, whether there is a
  callback (it is always \<open>on_uv_timer\<close>), and the fields of a timer.\<close>

record uv_timer =
  is_active :: bool
  has_cb :: bool
  due :: u64
  uv_repeat :: u64
  start_id :: u64

text \<open>\<open>struct timer\<close>, whose callback is always \<open>on_lua_repeat_timer\<close>, and
  \<open>struct timer_repeat\<close>, the user data of that callback.\<close>

record timer =
  handle :: uv_timer
  udata :: nat
  repeat_count :: u32

record timer_repeat =
  tr_handler :: u32
  tr_count :: u32

datatype queued = QTimer nat | QOther

text \<open>
  The state: of libuv's loop the time, the counter of started timers, the tree of active timers
  as the list of its elements in order, and the queue of all handles; the memory of timers and
  of their user data; the Lua functions by their reference number; and whatever else scripts
  change.
\<close>

record ('f, 'w) sched =
  loop_time :: u64
  timer_counter :: u64
  tree :: "nat list"
  handle_queue :: "queued list"
  timers :: "nat \<rightharpoonup> timer"
  repeats :: "nat \<rightharpoonup> timer_repeat"
  next_addr :: nat
  handlers :: "u32 \<rightharpoonup> 'f"
  ref_id :: u32
  world :: 'w

text \<open>An access to memory.\<close>

definition deref :: "(nat \<rightharpoonup> 'a) \<Rightarrow> nat \<Rightarrow> 'a result" where
  "deref m a = (case m a of None \<Rightarrow> Inl UseAfterFree | Some x \<Rightarrow> Inr x)"

lemma deref_simps [simp]: "m a = None \<Longrightarrow> deref m a = Inl UseAfterFree" "m a = Some x \<Longrightarrow> deref m a = Inr x"
  by (simp_all add: deref_def)

section \<open>libuv's timers\<close>

definition uv_timer_compare :: "uv_timer \<Rightarrow> uv_timer \<Rightarrow> int" where
  "uv_timer_compare a b =
     (if due a < due b then -1
      else if due a > due b then 1
      else if start_id a < start_id b then -1
      else if start_id a > start_id b then 1
      else 0)"

text \<open>
  \<open>RB_INSERT\<close> on the elements in order: the new element behind the smaller ones; none if an
  equal element is there.
\<close>

fun rb_insert :: "('a \<Rightarrow> 'a \<Rightarrow> int) \<Rightarrow> 'a \<Rightarrow> 'a list \<Rightarrow> 'a list option" where
  "rb_insert cmp a [] = Some [a]"
| "rb_insert cmp a (b # bs) =
     (if cmp a b < 0 then Some (a # b # bs)
      else if cmp a b > 0 then map_option ((#) b) (rb_insert cmp a bs)
      else None)"

definition timer_at :: "('f, 'w) sched \<Rightarrow> nat \<Rightarrow> uv_timer" where
  "timer_at st a = (case timers st a of Some t \<Rightarrow> handle t | None \<Rightarrow> undefined)"

definition set_timer :: "nat \<Rightarrow> timer \<Rightarrow> ('f, 'w) sched \<Rightarrow> ('f, 'w) sched" where
  "set_timer a t st = st\<lparr>timers := (timers st)(a \<mapsto> t)\<rparr>"

definition set_handle :: "nat \<Rightarrow> (uv_timer \<Rightarrow> uv_timer) \<Rightarrow> timer \<Rightarrow> ('f, 'w) sched \<Rightarrow> ('f, 'w) sched" where
  "set_handle a f t st = set_timer a (t\<lparr>handle := f (handle t)\<rparr>) st"

text \<open>
  \<open>uv__handle_init\<close> puts the handle at the end of the loop's queue of handles, for which the
  handle that was last is written to.
\<close>

definition queue_insert_tail :: "nat \<Rightarrow> ('f, 'w) sched \<Rightarrow> ('f, 'w) sched result" where
  "queue_insert_tail a st =
     (let st' = st\<lparr>handle_queue := handle_queue st @ [QTimer a]\<rparr>
      in if handle_queue st = [] then Inr st'
         else (case last (handle_queue st) of
                 QOther \<Rightarrow> Inr st'
               | QTimer b \<Rightarrow> (if timers st b = None then Inl UseAfterFree else Inr st')))"

definition uv_timer_init :: "nat \<Rightarrow> ('f, 'w) sched \<Rightarrow> ('f, 'w) sched result" where
  "uv_timer_init a st =
     rbind (deref (timers st) a) (\<lambda>t.
     rbind (queue_insert_tail a st) (\<lambda>st.
     Inr (set_handle a (\<lambda>h. h\<lparr>is_active := False, has_cb := False, uv_repeat := 0\<rparr>) t st)))"

definition get_clamped_due_time :: "u64 \<Rightarrow> u64 \<Rightarrow> u64" where
  "get_clamped_due_time now timeout =
     (let clamped = now + timeout in if clamped < timeout then -1 else clamped)"

definition uv_timer_stop :: "nat \<Rightarrow> ('f, 'w) sched \<Rightarrow> ('f, 'w) sched result" where
  "uv_timer_stop a st =
     rbind (deref (timers st) a) (\<lambda>t.
     if \<not> is_active (handle t) then Inr st
     else Inr (set_handle a (\<lambda>h. h\<lparr>is_active := False\<rparr>) t (st\<lparr>tree := remove1 a (tree st)\<rparr>)))"

text \<open>The search for the place in the tree reads the timers that are in it.\<close>

definition tree_insert :: "nat \<Rightarrow> ('f, 'w) sched \<Rightarrow> ('f, 'w) sched result" where
  "tree_insert a st =
     (if list_all (\<lambda>b. timers st b \<noteq> None) (tree st)
      then (case rb_insert (\<lambda>a b. uv_timer_compare (timer_at st a) (timer_at st b)) a (tree st) of
              None \<Rightarrow> Inl AssertFailed
            | Some bs \<Rightarrow> Inr (st\<lparr>tree := bs\<rparr>))
      else Inl UseAfterFree)"

definition uv_timer_start :: "nat \<Rightarrow> u64 \<Rightarrow> u64 \<Rightarrow> ('f, 'w) sched \<Rightarrow> ('f, 'w) sched result" where
  "uv_timer_start a timeout rep st =
     rbind (uv_timer_stop a st) (\<lambda>st.
     rbind (deref (timers st) a) (\<lambda>t.
     tree_insert a
       (set_handle a
          (\<lambda>h. h\<lparr>has_cb := True, due := get_clamped_due_time (loop_time st) timeout,
                 uv_repeat := rep, is_active := True, start_id := timer_counter st\<rparr>) t
          (st\<lparr>timer_counter := timer_counter st + 1\<rparr>))))"

definition uv_timer_again :: "nat \<Rightarrow> ('f, 'w) sched \<Rightarrow> ('f, 'w) sched result" where
  "uv_timer_again a st =
     rbind (deref (timers st) a) (\<lambda>t.
     if \<not> has_cb (handle t) then Inr st
     else if uv_repeat (handle t) \<noteq> 0
     then rbind (uv_timer_stop a st) (uv_timer_start a (uv_repeat (handle t)) (uv_repeat (handle t)))
     else Inr st)"

text \<open>One round of the loop of \<open>uv_process_timers\<close>, and the loop, which ends when no timer is due.\<close>

definition fire :: "(nat \<Rightarrow> ('f, 'w) sched \<Rightarrow> ('f, 'w) sched result) \<Rightarrow> nat \<Rightarrow> ('f, 'w) sched \<Rightarrow> ('f, 'w) sched result" where
  "fire timer_cb a st =
     rbind (uv_timer_stop a st) (\<lambda>st. rbind (uv_timer_again a st) (timer_cb a))"

partial_function (option) uv_process_timers ::
  "(nat \<Rightarrow> ('f, 'w) sched \<Rightarrow> ('f, 'w) sched result) \<Rightarrow> ('f, 'w) sched \<Rightarrow> ('f, 'w) sched result option" where
  "uv_process_timers timer_cb st =
     (case tree st of
        [] \<Rightarrow> Some (Inr st)
      | a # _ \<Rightarrow>
          (case deref (timers st) a of
             Inl e \<Rightarrow> Some (Inl e)
           | Inr t \<Rightarrow>
               if due (handle t) \<le> loop_time st
               then (case fire timer_cb a st of
                       Inl e \<Rightarrow> Some (Inl e)
                     | Inr st' \<Rightarrow> uv_process_timers timer_cb st')
               else Some (Inr st)))"

definition uv_update_time :: "u64 \<Rightarrow> ('f, 'w) sched \<Rightarrow> ('f, 'w) sched result" where
  "uv_update_time new_time st =
     (if loop_time st \<le> new_time then Inr (st\<lparr>loop_time := new_time\<rparr>) else Inl AssertFailed)"

section \<open>The scripts' callback\<close>

definition execute_script_handler ::
  "('f \<Rightarrow> ('f, 'w) sched \<Rightarrow> ('f, 'w) sched result) \<Rightarrow> u32 \<Rightarrow> ('f, 'w) sched \<Rightarrow> ('f, 'w) sched result" where
  "execute_script_handler script handler st =
     (case handlers st handler of None \<Rightarrow> Inr st | Some f \<Rightarrow> script f st)"

definition remove_script_handler :: "u32 \<Rightarrow> ('f, 'w) sched \<Rightarrow> ('f, 'w) sched" where
  "remove_script_handler handler st = st\<lparr>handlers := (handlers st)(handler := None)\<rparr>"

definition free_repeat :: "nat \<Rightarrow> ('f, 'w) sched \<Rightarrow> ('f, 'w) sched" where
  "free_repeat a st = st\<lparr>repeats := (repeats st)(a := None)\<rparr>"

definition on_lua_repeat_timer ::
  "('f \<Rightarrow> ('f, 'w) sched \<Rightarrow> ('f, 'w) sched result) \<Rightarrow> nat \<Rightarrow> ('f, 'w) sched \<Rightarrow> ('f, 'w) sched result" where
  "on_lua_repeat_timer script ud st =
     rbind (deref (repeats st) ud) (\<lambda>tr.
     rbind (execute_script_handler script (tr_handler tr) st) (\<lambda>st.
     rbind (deref (repeats st) ud) (\<lambda>tr.
     if tr_count tr = -1 then Inr st
     else
       let tr = tr\<lparr>tr_count := tr_count tr - 1\<rparr>;
           st = st\<lparr>repeats := (repeats st)(ud \<mapsto> tr)\<rparr>
       in if tr_count tr \<le>s 0
          then Inr (free_repeat ud (remove_script_handler (tr_handler tr) st))
          else Inr st)))"

section \<open>The server's timers\<close>

definition alloc_timer :: "nat \<Rightarrow> u32 \<Rightarrow> ('f, 'w) sched \<Rightarrow> (nat \<times> ('f, 'w) sched) result" where
  "alloc_timer ud count st =
     (let a = next_addr st;
          t = \<lparr>handle = \<lparr>is_active = False, has_cb = False, due = 0, uv_repeat = 0, start_id = 0\<rparr>,
               udata = ud, repeat_count = count\<rparr>
      in rbind (uv_timer_init a (set_timer a t (st\<lparr>next_addr := Suc a\<rparr>))) (\<lambda>st. Inr (a, st)))"

definition free_timer :: "nat \<Rightarrow> ('f, 'w) sched \<Rightarrow> ('f, 'w) sched" where
  "free_timer a st = st\<lparr>timers := (timers st)(a := None)\<rparr>"

definition on_uv_timer ::
  "('f \<Rightarrow> ('f, 'w) sched \<Rightarrow> ('f, 'w) sched result) \<Rightarrow> nat \<Rightarrow> ('f, 'w) sched \<Rightarrow> ('f, 'w) sched result" where
  "on_uv_timer script a st =
     rbind (deref (timers st) a) (\<lambda>t.
     if repeat_count t <s 0 then on_lua_repeat_timer script (udata t) st
     else
       let t = t\<lparr>repeat_count := repeat_count t - 1\<rparr>
       in rbind (on_lua_repeat_timer script (udata t) (set_timer a t st)) (\<lambda>st.
          rbind (deref (timers st) a) (\<lambda>t.
          if repeat_count t = 0
          then rbind (uv_timer_stop a st) (\<lambda>st. Inr (free_timer a st))
          else Inr st)))"

text \<open>The times are of type \<open>int\<close> and become \<open>uint64_t\<close>.\<close>

definition schedule_repeat ::
  "nat \<Rightarrow> u32 \<Rightarrow> u32 \<Rightarrow> u32 \<Rightarrow> ('f, 'w) sched \<Rightarrow> (nat \<times> ('f, 'w) sched) result" where
  "schedule_repeat ud after_msec count repeat_msec st =
     rbind (alloc_timer ud count st) (\<lambda>(a, st).
     rbind (uv_timer_start a (scast after_msec) (scast repeat_msec) st) (\<lambda>st. Inr (a, st)))"

definition cancel_timer :: "nat \<Rightarrow> ('f, 'w) sched \<Rightarrow> ('f, 'w) sched result" where
  "cancel_timer a st =
     rbind (deref (timers st) a) (\<lambda>t.
     if repeat_count t = 0 then Inr st
     else rbind (uv_timer_stop a st) (\<lambda>st. Inr (free_timer a st)))"

definition schedule_once :: "nat \<Rightarrow> u32 \<Rightarrow> ('f, 'w) sched \<Rightarrow> (nat \<times> ('f, 'w) sched) result" where
  "schedule_once ud after_msec st = schedule_repeat ud after_msec 1 after_msec st"

definition get_timer_udata :: "nat \<Rightarrow> ('f, 'w) sched \<Rightarrow> nat result" where
  "get_timer_udata a st = rbind (deref (timers st) a) (\<lambda>t. Inr (udata t))"

section \<open>\<open>Scheduler\<close> for scripts\<close>

text \<open>
  The first argument of a script is a function, or something else, for which the reference is
  zero. The result is the timer, or nil.
\<close>

definition ref_function :: "'f option \<Rightarrow> ('f, 'w) sched \<Rightarrow> u32 \<times> ('f, 'w) sched" where
  "ref_function f st =
     (case f of
        None \<Rightarrow> (0, st)
      | Some f \<Rightarrow> (ref_id st + 1,
          st\<lparr>ref_id := ref_id st + 1, handlers := (handlers st)(ref_id st + 1 \<mapsto> f)\<rparr>))"

definition lua_failed :: "u32 \<Rightarrow> ('f, 'w) sched \<Rightarrow> (nat option \<times> ('f, 'w) sched) result" where
  "lua_failed handler st =
     Inr (None, if handler \<noteq> 0 then remove_script_handler handler st else st)"

definition alloc_repeat :: "timer_repeat \<Rightarrow> ('f, 'w) sched \<Rightarrow> nat \<times> ('f, 'w) sched" where
  "alloc_repeat tr st =
     (next_addr st, st\<lparr>next_addr := Suc (next_addr st), repeats := (repeats st)(next_addr st \<mapsto> tr)\<rparr>)"

definition lua_schedule_repeat ::
  "'f option \<Rightarrow> u32 \<Rightarrow> u32 \<Rightarrow> u32 \<Rightarrow> ('f, 'w) sched \<Rightarrow> (nat option \<times> ('f, 'w) sched) result" where
  "lua_schedule_repeat f after_msec count repeat_msec st =
     (let (handler, st) = ref_function f st
      in if handler = 0 then lua_failed handler st
         else if after_msec \<le>s 0 then lua_failed handler st
         else if count = 0 then lua_failed handler st
         else
           let count = (if count <s 0 then -1 else count);
               repeat_msec = (if repeat_msec \<le>s 0 then after_msec else repeat_msec);
               (tr, st) = alloc_repeat \<lparr>tr_handler = handler, tr_count = count\<rparr> st
           in rbind (schedule_repeat tr after_msec count repeat_msec st) (\<lambda>(a, st). Inr (Some a, st)))"

definition lua_schedule_once ::
  "'f option \<Rightarrow> u32 \<Rightarrow> ('f, 'w) sched \<Rightarrow> (nat option \<times> ('f, 'w) sched) result" where
  "lua_schedule_once f after_msec st =
     (let (handler, st) = ref_function f st
      in if handler = 0 then lua_failed handler st
         else if after_msec \<le>s 0 then lua_failed handler st
         else
           let (tr, st) = alloc_repeat \<lparr>tr_handler = handler, tr_count = 1\<rparr> st
           in rbind (schedule_once tr after_msec st) (\<lambda>(a, st). Inr (Some a, st)))"

text \<open>The argument is the timer, if it is user data.\<close>

definition lua_schedule_cancel :: "nat option \<Rightarrow> ('f, 'w) sched \<Rightarrow> ('f, 'w) sched result" where
  "lua_schedule_cancel arg st =
     (case arg of
        None \<Rightarrow> Inr st
      | Some a \<Rightarrow>
          rbind (get_timer_udata a st) (\<lambda>ud.
          rbind (deref (repeats st) ud) (\<lambda>tr.
          cancel_timer a (free_repeat ud (remove_script_handler (tr_handler tr) st)))))"

section \<open>The order of the tree\<close>

text \<open>What a red-black tree asks of its comparison, and what its insertion then does.\<close>

locale comparator =
  fixes cmp :: "'a \<Rightarrow> 'a \<Rightarrow> int"
  assumes cmp_swap: "0 < cmp a b \<longleftrightarrow> cmp b a < 0"
    and cmp_trans: "cmp a b < 0 \<Longrightarrow> cmp b c < 0 \<Longrightarrow> cmp a c < 0"
begin

lemma insert_place:
  assumes "sorted_wrt (\<lambda>a b. cmp a b < 0) bs" "\<forall>b\<in>set bs. cmp a b \<noteq> 0"
  shows "\<exists>pre post. bs = pre @ post \<and> rb_insert cmp a bs = Some (pre @ a # post)
    \<and> (\<forall>b\<in>set pre. cmp b a < 0) \<and> (\<forall>b\<in>set post. cmp a b < 0)"
  using assms
proof (induction bs)
  case Nil
  then show ?case by simp
next
  case (Cons b bs)
  show ?case
  proof (cases "cmp a b < 0")
    case True
    then have "\<forall>x\<in>set (b # bs). cmp a x < 0" using Cons.prems(1) by (auto intro: cmp_trans)
    with True show ?thesis by (intro exI [of _ "[]"] exI [of _ "b # bs"]) simp
  next
    case False
    then have ba: "cmp b a < 0" "0 < cmp a b" using Cons.prems(2) cmp_swap by fastforce+
    obtain pre post where "bs = pre @ post" "rb_insert cmp a bs = Some (pre @ a # post)"
      "\<forall>b\<in>set pre. cmp b a < 0" "\<forall>b\<in>set post. cmp a b < 0"
      using Cons by auto
    with ba show ?thesis by (intro exI [of _ "b # pre"] exI [of _ post]) simp
  qed
qed

lemma place_sorted:
  assumes "sorted_wrt (\<lambda>a b. cmp a b < 0) (pre @ post)"
    "\<forall>b\<in>set pre. cmp b a < 0" "\<forall>b\<in>set post. cmp a b < 0"
  shows "sorted_wrt (\<lambda>a b. cmp a b < 0) (pre @ a # post)"
  using assms by (simp add: sorted_wrt_append)

lemma sorted_distinct: "sorted_wrt (\<lambda>a b. cmp a b < 0) bs \<Longrightarrow> distinct bs"
proof (induction bs)
  case (Cons a bs)
  moreover have "\<not> cmp a a < 0" using cmp_swap [of a a] by linarith
  ultimately show ?case by auto
qed simp

end

interpretation uv_tree: comparator "\<lambda>a b. uv_timer_compare (h a) (h b)" for h
  by unfold_locales (auto simp: uv_timer_compare_def split: if_splits)

section \<open>Well-formed states\<close>

text \<open>
  A timer with its user data: the two counters agree, the function is registered, and there is at
  least one call left.
\<close>

definition repeat_ok :: "('f, 'w) sched \<Rightarrow> timer \<Rightarrow> bool" where
  "repeat_ok st t \<longleftrightarrow>
     (\<exists>tr f. repeats st (udata t) = Some tr \<and> tr_count tr = repeat_count t
        \<and> handlers st (tr_handler tr) = Some f \<and> (repeat_count t = -1 \<or> 0 <s repeat_count t))"

definition timer_ok :: "('f, 'w) sched \<Rightarrow> timer \<Rightarrow> bool" where
  "timer_ok st t \<longleftrightarrow>
     is_active (handle t) \<and> has_cb (handle t) \<and> uv_repeat (handle t) \<noteq> 0
     \<and> start_id (handle t) < timer_counter st \<and> repeat_ok st t"

definition timer_handler :: "('f, 'w) sched \<Rightarrow> nat \<Rightarrow> u32" where
  "timer_handler st a = tr_handler (the (repeats st (udata (the (timers st a)))))"

definition timer_function :: "('f, 'w) sched \<Rightarrow> nat \<Rightarrow> 'f" where
  "timer_function st a = the (handlers st (timer_handler st a))"

abbreviation before :: "('f, 'w) sched \<Rightarrow> nat \<Rightarrow> nat \<Rightarrow> bool" where
  "before st a b \<equiv> uv_timer_compare (timer_at st a) (timer_at st b) < 0"

text \<open>
  The tree holds the timers in memory, in the order of their times; no two of them share their
  user data or their function.
\<close>

definition sched_ok :: "('f, 'w) sched \<Rightarrow> bool" where
  "sched_ok st \<longleftrightarrow>
     sorted_wrt (before st) (tree st) \<and> set (tree st) = dom (timers st)
     \<and> (\<forall>a t. timers st a = Some t \<longrightarrow> timer_ok st t)
     \<and> inj_on (\<lambda>a. udata (the (timers st a))) (dom (timers st))
     \<and> inj_on (timer_handler st) (dom (timers st))"

text \<open>The timers that are due, in order, and what is known of a timer from outside: when it is
  due, its period and how often it will still be called.\<close>

definition due_list :: "('f, 'w) sched \<Rightarrow> nat list" where
  "due_list st = takeWhile (\<lambda>a. due (timer_at st a) \<le> loop_time st) (tree st)"

definition pending :: "('f, 'w) sched \<Rightarrow> nat \<Rightarrow> (u64 \<times> u64 \<times> u32) option" where
  "pending st a = map_option (\<lambda>t. (due (handle t), uv_repeat (handle t), repeat_count t)) (timers st a)"

definition fired :: "u64 \<Rightarrow> u64 \<times> u64 \<times> u32 \<Rightarrow> (u64 \<times> u64 \<times> u32) option" where
  "fired now p = (case p of (d, r, c) \<Rightarrow>
     if c = 1 then None else Some (now + r, r, if c = -1 then -1 else c - 1))"

text \<open>The counters.\<close>

lemma count_left:
  fixes c :: u32
  assumes "0 <s c"
  shows "\<not> c <s 0" "c \<noteq> -1" "c - 1 \<noteq> -1" "c - 1 \<le>s 0 \<longleftrightarrow> c = 1" "c - 1 = 0 \<longleftrightarrow> c = 1" "c \<noteq> 1 \<Longrightarrow> 0 <s c - 1"
proof -
  have c: "0 < sint c" "sint c < 2 ^ 31" using assms sint_lt [of c] by (simp_all add: word_sless_alt)
  then have m: "sint (c - 1) = sint c - 1"
    by (simp add: sint_word_ariths signed_take_bit_int_eq_self)
  have e: "c = 1 \<longleftrightarrow> sint c = 1" by (auto intro: signed_word_eqI)
  show "\<not> c <s 0" "c \<noteq> -1" "c - 1 \<noteq> -1" "c - 1 \<le>s 0 \<longleftrightarrow> c = 1" "c - 1 = 0 \<longleftrightarrow> c = 1" "c \<noteq> 1 \<Longrightarrow> 0 <s c - 1"
    using c m e by (auto simp: word_sless_alt word_sle_eq)
qed

section \<open>A timer that is due\<close>

definition rearmed :: "('f, 'w) sched \<Rightarrow> uv_timer \<Rightarrow> uv_timer" where
  "rearmed st h = h\<lparr>has_cb := True,
     due := get_clamped_due_time (loop_time st) (uv_repeat h), is_active := True, start_id := timer_counter st\<rparr>"

lemma timer_at_update:
  "timer_at (st\<lparr>timers := (timers st)(a \<mapsto> t)\<rparr>) b = (if b = a then handle t else timer_at st b)"
  by (simp add: timer_at_def)

lemma timer_at_cong: "timers st' = timers st \<Longrightarrow> timer_at st' = timer_at st"
  by (simp add: timer_at_def fun_eq_iff)

lemma tree_insert_place:
  fixes st :: "('f, 'w) sched"
  assumes "sorted_wrt (before st) (tree st)" "set (tree st) \<subseteq> dom (timers st)" "a \<notin> set (tree st)"
    and "\<forall>b\<in>set (tree st). start_id (timer_at st b) \<noteq> start_id h"
  shows "\<exists>pre post. tree st = pre @ post
    \<and> (\<forall>b\<in>set pre. uv_timer_compare (timer_at st b) h < 0)
    \<and> (\<forall>b\<in>set post. uv_timer_compare h (timer_at st b) < 0)
    \<and> (\<forall>t. handle t = h \<longrightarrow> tree_insert a (st\<lparr>timer_counter := n, timers := (timers st)(a \<mapsto> t)\<rparr>)
         = Inr (st\<lparr>timer_counter := n, timers := (timers st)(a \<mapsto> t), tree := pre @ a # post\<rparr>))"
proof -
  let ?h = "\<lambda>b. if b = a then h else timer_at st b"
  let ?cmp = "\<lambda>x y. uv_timer_compare (?h x) (?h y)"
  have eq: "?h b = timer_at st b" if "b \<in> set (tree st)" for b using assms(3) that by auto
  have "sorted_wrt (\<lambda>x y. ?cmp x y < 0) (tree st)"
    by (rule sorted_wrt_mono_rel [OF _ assms(1)]) (simp add: eq)
  moreover have "\<forall>b\<in>set (tree st). ?cmp a b \<noteq> 0"
    using assms(4) eq by (auto simp: uv_timer_compare_def split: if_splits)
  ultimately obtain pre post where p: "tree st = pre @ post" "rb_insert ?cmp a (tree st) = Some (pre @ a # post)"
    "\<forall>b\<in>set pre. ?cmp b a < 0" "\<forall>b\<in>set post. ?cmp a b < 0"
    using uv_tree.insert_place [of ?h "tree st" a] by blast
  have "tree_insert a (st\<lparr>timer_counter := n, timers := (timers st)(a \<mapsto> t)\<rparr>)
      = Inr (st\<lparr>timer_counter := n, timers := (timers st)(a \<mapsto> t), tree := pre @ a # post\<rparr>)" if "handle t = h" for t
  proof -
    have at: "timer_at (st\<lparr>timer_counter := n, timers := (timers st)(a \<mapsto> t)\<rparr>) = ?h"
      using that by (auto simp: timer_at_def)
    have "list_all (\<lambda>b. ((timers st)(a \<mapsto> t)) b \<noteq> None) (tree st)"
      using assms(2) by (auto simp: list_all_iff)
    then show ?thesis unfolding tree_insert_def at using p(2) by simp
  qed
  moreover have "\<forall>b\<in>set pre. uv_timer_compare (timer_at st b) h < 0" "\<forall>b\<in>set post. uv_timer_compare h (timer_at st b) < 0"
    using p(3,4) eq p(1) by auto
  ultimately show ?thesis using p(1) by blast
qed

lemma rearm:
  fixes st :: "('f, 'w) sched"
  assumes ok: "sched_ok st" and tree: "tree st = a # bs" and t: "timers st a = Some t"
  obtains pre post where "bs = pre @ post"
    "\<forall>b\<in>set pre. uv_timer_compare (timer_at st b) (rearmed st (handle t)) < 0"
    "\<forall>b\<in>set post. uv_timer_compare (rearmed st (handle t)) (timer_at st b) < 0"
    "rbind (uv_timer_stop a st) (uv_timer_again a)
       = Inr (st\<lparr>timer_counter := timer_counter st + 1,
                timers := (timers st)(a \<mapsto> t\<lparr>handle := rearmed st (handle t)\<rparr>), tree := pre @ a # post\<rparr>)"
proof -
  let ?stopped = "t\<lparr>handle := (handle t)\<lparr>is_active := False\<rparr>\<rparr>"
  let ?st = "st\<lparr>tree := bs, timers := (timers st)(a \<mapsto> ?stopped)\<rparr>"
  let ?h = "rearmed st (handle t)"
  have tok: "timer_ok st u" if "timers st b = Some u" for b u using ok that by (simp add: sched_ok_def)
  have "distinct (tree st)" using ok uv_tree.sorted_distinct [of "timer_at st" "tree st"] by (simp add: sched_ok_def)
  then have a: "a \<notin> set bs" by (simp add: tree)
  have dom: "set (tree st) = dom (timers st)" and srt: "sorted_wrt (before st) (tree st)" using ok by (simp_all add: sched_ok_def)
  have at: "timer_at ?st b = timer_at st b" if "b \<in> set bs" for b using that a by (auto simp: timer_at_def)
  have "sorted_wrt (before ?st) bs"
    using srt unfolding tree by (auto intro!: sorted_wrt_mono_rel [of bs "before st"] simp: at)
  moreover have "set bs \<subseteq> dom (timers ?st)" using dom by (auto simp: tree)
  moreover have "\<forall>b\<in>set bs. start_id (timer_at ?st b) \<noteq> start_id ?h"
  proof
    fix b assume b: "b \<in> set bs"
    then obtain u where u: "timers st b = Some u" using dom tree by auto
    show "start_id (timer_at ?st b) \<noteq> start_id ?h"
      using tok [OF u] a b by (auto simp: at [OF b] timer_at_def u timer_ok_def rearmed_def)
  qed
  ultimately obtain pre post where p: "bs = pre @ post" "\<forall>b\<in>set pre. uv_timer_compare (timer_at ?st b) ?h < 0"
    "\<forall>b\<in>set post. uv_timer_compare ?h (timer_at ?st b) < 0"
    "\<forall>t. handle t = ?h \<longrightarrow> tree_insert a (?st\<lparr>timer_counter := timer_counter st + 1, timers := (timers ?st)(a \<mapsto> t)\<rparr>)
         = Inr (?st\<lparr>timer_counter := timer_counter st + 1, timers := (timers ?st)(a \<mapsto> t), tree := pre @ a # post\<rparr>)"
    using tree_insert_place [of ?st a ?h "timer_counter st + 1"] a by auto
  have stop: "uv_timer_stop a st = Inr ?st"
    using t tok [OF t] by (simp add: uv_timer_stop_def set_handle_def set_timer_def timer_ok_def tree)
  have stop2: "uv_timer_stop a ?st = Inr ?st" by (simp add: uv_timer_stop_def)
  have "uv_timer_again a ?st
       = tree_insert a (?st\<lparr>timer_counter := timer_counter st + 1, timers := (timers ?st)(a \<mapsto> t\<lparr>handle := ?h\<rparr>)\<rparr>)"
    using tok [OF t] unfolding timer_ok_def
    by (simp add: uv_timer_again_def uv_timer_start_def stop2 set_handle_def set_timer_def rearmed_def)
  also have "\<dots> = Inr (st\<lparr>timer_counter := timer_counter st + 1,
                timers := (timers st)(a \<mapsto> t\<lparr>handle := ?h\<rparr>), tree := pre @ a # post\<rparr>)"
    using p(4) by simp
  finally have "rbind (uv_timer_stop a st) (uv_timer_again a) = \<dots>" by (simp add: stop)
  then show ?thesis using p at by (intro that [of pre post]) auto
qed

text \<open>
  What a call of a timer leaves, if the script changes nothing but the world: the timer is gone
  with its user data and its function if this was its last call, and otherwise it has one call
  less and a new place in the tree.
\<close>

definition count_down :: "u32 \<Rightarrow> u32" where
  "count_down c = (if c = -1 then -1 else c - 1)"

definition last_call :: "nat \<Rightarrow> nat \<Rightarrow> u32 \<Rightarrow> nat list \<Rightarrow> 'w \<Rightarrow> ('f, 'w) sched \<Rightarrow> ('f, 'w) sched" where
  "last_call a ud h bs w st =
     st\<lparr>timer_counter := timer_counter st + 1, timers := (timers st)(a := None), tree := bs,
        repeats := (repeats st)(ud := None), handlers := (handlers st)(h := None), world := w\<rparr>"

definition one_call ::
  "nat \<Rightarrow> timer \<Rightarrow> timer_repeat \<Rightarrow> nat list \<Rightarrow> 'w \<Rightarrow> ('f, 'w) sched \<Rightarrow> ('f, 'w) sched" where
  "one_call a t tr bs w st =
     st\<lparr>timer_counter := timer_counter st + 1,
        timers := (timers st)(a \<mapsto> t\<lparr>handle := rearmed st (handle t), repeat_count := count_down (repeat_count t)\<rparr>),
        tree := bs, repeats := (repeats st)(udata t \<mapsto> tr\<lparr>tr_count := count_down (repeat_count t)\<rparr>), world := w\<rparr>"

lemma on_uv_timer_result:
  fixes st :: "('f, 'w) sched"
  assumes pure: "\<And>f st. script f st = Inr (st\<lparr>world := run f (world st)\<rparr>)"
    and tr: "repeats st (udata t) = Some tr" "tr_count tr = repeat_count t" "handlers st (tr_handler tr) = Some f"
    and c: "repeat_count t = -1 \<or> 0 <s repeat_count t"
    and a: "a \<notin> set pre" and h: "is_active h"
  shows "on_uv_timer script a
      (st\<lparr>timer_counter := n, timers := (timers st)(a \<mapsto> t\<lparr>handle := h\<rparr>), tree := pre @ a # post\<rparr>) =
    Inr (if repeat_count t = 1
         then st\<lparr>timer_counter := n, timers := (timers st)(a := None), tree := pre @ post,
                 repeats := (repeats st)(udata t := None), handlers := (handlers st)(tr_handler tr := None),
                 world := run f (world st)\<rparr>
         else st\<lparr>timer_counter := n,
                 timers := (timers st)(a \<mapsto> t\<lparr>handle := h, repeat_count := count_down (repeat_count t)\<rparr>),
                 tree := pre @ a # post, repeats := (repeats st)(udata t \<mapsto> tr\<lparr>tr_count := count_down (repeat_count t)\<rparr>),
                 world := run f (world st)\<rparr>)"
proof (cases "repeat_count t = -1")
  case True
  have e: "tr\<lparr>tr_count := -1\<rparr> = tr" "t\<lparr>handle := h, repeat_count := -1\<rparr> = t\<lparr>handle := h\<rparr>"
    "(repeats st)(udata t \<mapsto> tr) = repeats st"
    using tr True by auto
  have "st\<lparr>timer_counter := n, timers := (timers st)(a \<mapsto> t\<lparr>handle := h\<rparr>), tree := pre @ a # post, world := run f (world st)\<rparr>
    = st\<lparr>timer_counter := n, timers := (timers st)(a \<mapsto> t\<lparr>handle := h, repeat_count := -1\<rparr>), tree := pre @ a # post,
         repeats := (repeats st)(udata t \<mapsto> tr\<lparr>tr_count := -1\<rparr>), world := run f (world st)\<rparr>"
    unfolding e by (cases st) simp
  then show ?thesis
    using True tr
    by (simp add: on_uv_timer_def on_lua_repeat_timer_def execute_script_handler_def pure count_down_def)
next
  case False
  with c have c0: "0 <s repeat_count t" by simp
  note cl = count_left [OF c0]
  show ?thesis
  proof (cases "repeat_count t = 1")
    case True
    then show ?thesis
      using tr a h cl
      by (simp add: on_uv_timer_def on_lua_repeat_timer_def execute_script_handler_def pure set_timer_def Let_def
          free_repeat_def remove_script_handler_def uv_timer_stop_def set_handle_def free_timer_def remove1_append)
  next
    case False
    then show ?thesis
      using tr cl
      by (simp add: on_uv_timer_def on_lua_repeat_timer_def execute_script_handler_def pure set_timer_def Let_def
          count_down_def)
  qed
qed

lemma fire_head:
  fixes st :: "('f, 'w) sched"
  assumes pure: "\<And>f st. script f st = Inr (st\<lparr>world := run f (world st)\<rparr>)"
    and ok: "sched_ok st" and tree: "tree st = a # bs" and t: "timers st a = Some t"
  obtains tr f pre post where "repeats st (udata t) = Some tr" "tr_count tr = repeat_count t"
    "handlers st (tr_handler tr) = Some f" "repeat_count t = -1 \<or> 0 <s repeat_count t" "bs = pre @ post"
    "\<forall>b\<in>set pre. uv_timer_compare (timer_at st b) (rearmed st (handle t)) < 0"
    "\<forall>b\<in>set post. uv_timer_compare (rearmed st (handle t)) (timer_at st b) < 0"
    "fire (on_uv_timer script) a st
       = Inr (if repeat_count t = 1 then last_call a (udata t) (tr_handler tr) bs (run f (world st)) st
              else one_call a t tr (pre @ a # post) (run f (world st)) st)"
proof -
  have "repeat_ok st t" using ok t by (simp add: sched_ok_def timer_ok_def)
  then obtain tr f where tr: "repeats st (udata t) = Some tr" "tr_count tr = repeat_count t"
    "handlers st (tr_handler tr) = Some f" "repeat_count t = -1 \<or> 0 <s repeat_count t"
    by (auto simp: repeat_ok_def)
  have "distinct (tree st)" using ok uv_tree.sorted_distinct [of "timer_at st" "tree st"] by (simp add: sched_ok_def)
  then have a: "a \<notin> set bs" by (simp add: tree)
  obtain pre post where p: "bs = pre @ post"
    "\<forall>b\<in>set pre. uv_timer_compare (timer_at st b) (rearmed st (handle t)) < 0"
    "\<forall>b\<in>set post. uv_timer_compare (rearmed st (handle t)) (timer_at st b) < 0"
    "rbind (uv_timer_stop a st) (uv_timer_again a)
       = Inr (st\<lparr>timer_counter := timer_counter st + 1,
                timers := (timers st)(a \<mapsto> t\<lparr>handle := rearmed st (handle t)\<rparr>), tree := pre @ a # post\<rparr>)"
    by (rule rearm [OF ok tree t])
  have "fire (on_uv_timer script) a st
      = on_uv_timer script a (st\<lparr>timer_counter := timer_counter st + 1,
          timers := (timers st)(a \<mapsto> t\<lparr>handle := rearmed st (handle t)\<rparr>), tree := pre @ a # post\<rparr>)"
    unfolding fire_def rbind_assoc [symmetric] p(4) by simp
  also have "\<dots> = Inr (if repeat_count t = 1 then last_call a (udata t) (tr_handler tr) bs (run f (world st)) st
              else one_call a t tr (pre @ a # post) (run f (world st)) st)"
    by (subst on_uv_timer_result [OF pure tr])
       (use a p(1) in \<open>auto simp: rearmed_def last_call_def one_call_def\<close>)
  finally show ?thesis using tr p that by blast
qed

lemma counter_step: "n \<noteq> -1 \<Longrightarrow> n < n + (1 :: u64)"
proof -
  assume "n \<noteq> -1"
  then have "1 + n \<noteq> 0" by (metis add.commute eq_neg_iff_add_eq_0)
  then have "unat (n + 1) = Suc (unat n)" by (simp add: unatSuc add.commute)
  then show ?thesis by (simp add: word_less_nat_alt)
qed

lemmas counter_later = less_trans [OF _ counter_step]

lemma last_call_ok:
  fixes st st' :: "('f, 'w) sched"
  assumes ok: "sched_ok st" and tree: "tree st = a # bs" and t: "timers st a = Some t"
    and tr: "repeats st (udata t) = Some tr" and n: "timer_counter st \<noteq> -1"
    and st'_def: "st' = last_call a (udata t) (tr_handler tr) bs w st"
  shows "sched_ok st'" "\<forall>b\<in>dom (timers st'). timer_function st' b = timer_function st b"
proof -
  have d: "distinct (tree st)" using ok uv_tree.sorted_distinct [of "timer_at st" "tree st"] by (simp add: sched_ok_def)
  then have a: "a \<notin> set bs" by (simp add: tree)
  have tm: "timers st' = (timers st)(a := None)" by (simp add: st'_def last_call_def)
  have dom: "dom (timers st') = dom (timers st) - {a}" "set bs = dom (timers st')" "dom (timers st') \<subseteq> dom (timers st)"
    using ok tree a by (auto simp: sched_ok_def tm)
  have at: "timer_at st' b = timer_at st b" if "b \<in> set bs" for b using that a by (auto simp: timer_at_def tm)
  have "sorted_wrt (before st) bs" using ok by (simp add: sched_ok_def tree)
  then have s: "sorted_wrt (before st') bs" by (rule sorted_wrt_mono_rel [rotated]) (simp add: at)
  have ud: "udata u \<noteq> udata t" "repeats st' (udata u) = repeats st (udata u)"
    if "timers st' b = Some u" for b u
  proof -
    have b: "timers st b = Some u" "b \<noteq> a" using that by (auto simp: tm split: if_splits)
    then show "udata u \<noteq> udata t"
      using ok t by (auto simp: sched_ok_def inj_on_def dom_def)
    then show "repeats st' (udata u) = repeats st (udata u)" by (simp add: st'_def last_call_def)
  qed
  have th: "timer_handler st' b = timer_handler st b" if b: "b \<in> dom (timers st')" for b
  proof -
    obtain u where "timers st' b = Some u" using b by (auto simp: dom_def)
    moreover from this have "timers st b = Some u" by (auto simp: tm split: if_splits)
    ultimately show ?thesis using ud(2) by (simp add: timer_handler_def)
  qed
  have hd: "timer_handler st b \<noteq> tr_handler tr" if "b \<in> dom (timers st')" for b
  proof -
    have "timer_handler st a = tr_handler tr" by (simp add: timer_handler_def t tr)
    moreover have "b \<noteq> a" "b \<in> dom (timers st)" "a \<in> dom (timers st)" using that dom t by auto
    moreover have "inj_on (timer_handler st) (dom (timers st))" using ok by (simp add: sched_ok_def)
    ultimately show ?thesis by (metis inj_onD)
  qed
  have tok: "timer_ok st' u" if u: "timers st' b = Some u" for b u
  proof -
    have b: "timers st b = Some u" using u by (auto simp: tm split: if_splits)
    then have "timer_ok st u" using ok by (simp add: sched_ok_def)
    moreover have "handlers st' (timer_handler st b) = handlers st (timer_handler st b)"
      using hd [of b] domI [of "timers st'" b u, OF u] by (simp add: st'_def last_call_def)
    moreover have "timer_counter st' = timer_counter st + 1" by (simp add: st'_def last_call_def)
    ultimately show ?thesis
      using ud [OF u] b counter_later [OF _ n] by (auto simp: timer_ok_def repeat_ok_def timer_handler_def)
  qed
  have iu: "inj_on (\<lambda>b. udata (the (timers st' b))) (dom (timers st'))"
  proof -
    have "inj_on (\<lambda>b. udata (the (timers st b))) (dom (timers st'))"
      using ok dom(3) by (auto simp: sched_ok_def intro: inj_on_subset)
    then show ?thesis by (rule inj_on_cong [THEN iffD1, rotated]) (auto simp: tm)
  qed
  have ih: "inj_on (timer_handler st') (dom (timers st'))"
  proof -
    have "inj_on (timer_handler st) (dom (timers st'))"
      using ok dom(3) by (auto simp: sched_ok_def intro: inj_on_subset)
    then show ?thesis by (rule inj_on_cong [THEN iffD1, rotated]) (simp add: th)
  qed
  have tr': "tree st' = bs" by (simp add: st'_def last_call_def)
  show "sched_ok st'" unfolding sched_ok_def tr' using s dom(2) tok iu ih by blast
  show "\<forall>b\<in>dom (timers st'). timer_function st' b = timer_function st b"
    using hd th by (auto simp: timer_function_def st'_def last_call_def)
qed

lemma count_down_ok:
  assumes "c = -1 \<or> 0 <s c" "c \<noteq> 1"
  shows "count_down c = -1 \<or> 0 <s count_down c"
  using assms count_left(6) [of c] by (auto simp: count_down_def)

lemma one_call_ok:
  fixes st st' :: "('f, 'w) sched"
  assumes ok: "sched_ok st" and tree: "tree st = a # pre @ post" and t: "timers st a = Some t"
    and tr: "repeats st (udata t) = Some tr" "handlers st (tr_handler tr) = Some f"
    and c: "repeat_count t = -1 \<or> 0 <s repeat_count t" "repeat_count t \<noteq> 1"
    and pre: "\<forall>b\<in>set pre. uv_timer_compare (timer_at st b) (rearmed st (handle t)) < 0"
    and post: "\<forall>b\<in>set post. uv_timer_compare (rearmed st (handle t)) (timer_at st b) < 0"
    and n: "timer_counter st \<noteq> -1"
    and st'_def: "st' = one_call a t tr (pre @ a # post) w st"
  shows "sched_ok st'" "\<forall>b\<in>dom (timers st'). timer_function st' b = timer_function st b"
proof -
  let ?t = "t\<lparr>handle := rearmed st (handle t), repeat_count := count_down (repeat_count t)\<rparr>"
  have d: "distinct (tree st)" using ok uv_tree.sorted_distinct [of "timer_at st" "tree st"] by (simp add: sched_ok_def)
  then have a: "a \<notin> set (pre @ post)" by (simp add: tree)
  have tm: "timers st' = (timers st)(a \<mapsto> ?t)" by (simp add: st'_def one_call_def)
  have dom: "dom (timers st') = dom (timers st)" using t by (auto simp: tm)
  have at: "timer_at st' b = (if b = a then rearmed st (handle t) else timer_at st b)" for b
    by (simp add: timer_at_def tm)
  have "sorted_wrt (before st) (pre @ post)" using ok by (simp add: sched_ok_def tree)
  then have "sorted_wrt (before st') (pre @ post)"
    by (rule sorted_wrt_mono_rel [rotated]) (use a in \<open>auto simp: at\<close>)
  then have s: "sorted_wrt (before st') (pre @ a # post)"
    by (rule uv_tree.place_sorted) (use a pre post in \<open>auto simp: at\<close>)
  have rp: "repeats st' = (repeats st)(udata t \<mapsto> tr\<lparr>tr_count := count_down (repeat_count t)\<rparr>)"
    by (simp add: st'_def one_call_def)
  have ud: "udata (the (timers st' b)) = udata (the (timers st b))" for b by (simp add: tm t)
  have th: "timer_handler st' b = timer_handler st b" for b by (simp add: timer_handler_def ud rp tr)
  have hd: "handlers st' = handlers st" and tc: "timer_counter st' = timer_counter st + 1"
    by (simp_all add: st'_def one_call_def)
  have tok: "timer_ok st' u" if u: "timers st' b = Some u" for b u
  proof (cases "b = a")
    case True
    then have "u = ?t" using u by (simp add: tm)
    moreover have "timer_ok st t" using ok t by (simp add: sched_ok_def)
    moreover have "timer_counter st < timer_counter st + 1"
      by (rule counter_step [OF n])
    ultimately show ?thesis
      using tr count_down_ok [OF c] by (simp add: timer_ok_def repeat_ok_def rearmed_def tc rp hd)
  next
    case False
    then have b: "timers st b = Some u" using u by (simp add: tm)
    then have "timer_ok st u" using ok by (simp add: sched_ok_def)
    moreover have "udata u \<noteq> udata t" using ok t b False by (auto simp: sched_ok_def inj_on_def dom_def)
    ultimately show ?thesis using counter_later [OF _ n] by (auto simp: timer_ok_def repeat_ok_def tc rp hd)
  qed
  have iu: "inj_on (\<lambda>b. udata (the (timers st' b))) (dom (timers st'))"
    using ok by (simp add: sched_ok_def ud dom)
  have ih: "inj_on (timer_handler st') (dom (timers st'))"
    using ok th unfolding dom by (simp add: sched_ok_def cong: inj_on_cong)
  have tr': "tree st' = pre @ a # post" by (simp add: st'_def one_call_def)
  have "set (pre @ a # post) = dom (timers st')" using ok dom by (simp add: sched_ok_def tree)
  then show "sched_ok st'" unfolding sched_ok_def tr' using s tok iu ih by blast
  show "\<forall>b\<in>dom (timers st'). timer_function st' b = timer_function st b"
    using th hd by (simp add: timer_function_def)
qed

section \<open>A round of the loop\<close>

text \<open>The clock does not overflow when a timer is put back.\<close>

definition no_wrap :: "('f, 'w) sched \<Rightarrow> bool" where
  "no_wrap st \<longleftrightarrow>
     (\<forall>a t. timers st a = Some t \<longrightarrow> unat (loop_time st) + unat (uv_repeat (handle t)) < 2 ^ 64)"

lemma next_due:
  fixes now r :: u64
  assumes "unat now + unat r < 2 ^ 64" "r \<noteq> 0"
  shows "get_clamped_due_time now r = now + r" "now < now + r"
proof -
  have u: "unat (now + r) = unat now + unat r" using assms(1) by (simp add: unat_word_ariths)
  moreover have "0 < unat r" using assms(2) by (simp add: unat_gt_0)
  ultimately show "get_clamped_due_time now r = now + r" "now < now + r"
    by (simp_all add: get_clamped_due_time_def word_less_nat_alt)
qed

lemma takeWhile_insert:
  assumes "\<not> P' a" "\<forall>b\<in>set pre \<union> set post. P' b = P b" "\<forall>b\<in>set post. \<not> P b"
  shows "takeWhile P' (pre @ a # post) = takeWhile P (pre @ post)"
proof -
  have p: "takeWhile P' pre = takeWhile P pre" using assms(2) by (intro takeWhile_cong) auto
  have n: "takeWhile P post = []" using assms(3) by (cases post) auto
  show ?thesis
  proof (cases "\<forall>b\<in>set pre. P b")
    case True
    then have "takeWhile P' (pre @ a # post) = pre" using assms(1,2) by (simp add: takeWhile_append2)
    also have "pre = takeWhile P (pre @ post)" using True n by (simp add: takeWhile_append2)
    finally show ?thesis .
  next
    case False
    then obtain b where b: "b \<in> set pre" "\<not> P b" by blast
    moreover have "\<not> P' b" using b assms(2) by auto
    ultimately show ?thesis using p by (simp add: takeWhile_append1)
  qed
qed

text \<open>One call in terms of what is due and pending.\<close>

definition same_queue :: "('f, 'w) sched \<Rightarrow> ('f, 'w) sched \<Rightarrow> bool" where
  "same_queue st' st \<longleftrightarrow> handle_queue st' = handle_queue st \<and> next_addr st' = next_addr st \<and> ref_id st' = ref_id st"

lemma same_queue_refl [simp]: "same_queue st st"
  by (simp add: same_queue_def)

lemma same_queue_trans: "same_queue s2 s1 \<Longrightarrow> same_queue s1 s0 \<Longrightarrow> same_queue s2 s0"
  by (simp add: same_queue_def)

lemma same_queue_time [simp]: "same_queue s (st\<lparr>loop_time := t\<rparr>) = same_queue s st"
  by (simp add: same_queue_def)

lemma fire_due:
  fixes st :: "('f, 'w) sched"
  assumes pure: "\<And>f st. script f st = Inr (st\<lparr>world := run f (world st)\<rparr>)"
    and ok: "sched_ok st" and due: "due_list st = a # as" and wrap: "no_wrap st" and n: "timer_counter st \<noteq> -1"
  obtains st' t bs where "tree st = a # bs" "timers st a = Some t" "due (handle t) \<le> loop_time st"
    "fire (on_uv_timer script) a st = Inr st'"
    "sched_ok st'" "due_list st' = as" "loop_time st' = loop_time st" "same_queue st' st" "no_wrap st'"
    "timer_counter st' = timer_counter st + 1" "world st' = run (timer_function st a) (world st)"
    "\<And>b. pending st' b = (if b = a then Option.bind (pending st a) (fired (loop_time st)) else pending st b)"
    "\<forall>b\<in>dom (timers st'). timer_function st' b = timer_function st b"
proof -
  obtain bs where tree: "tree st = a # bs" and as: "as = takeWhile (\<lambda>a. due (timer_at st a) \<le> loop_time st) bs"
    and da: "due (timer_at st a) \<le> loop_time st"
    using due by (cases "tree st") (auto simp: due_list_def split: if_splits)
  have "a \<in> dom (timers st)" using ok tree by (auto simp: sched_ok_def)
  then obtain t where t: "timers st a = Some t" by blast
  have d: "distinct (tree st)" using ok uv_tree.sorted_distinct [of "timer_at st" "tree st"] by (simp add: sched_ok_def)
  then have a: "a \<notin> set bs" by (simp add: tree)
  obtain tr f pre post where tr: "repeats st (udata t) = Some tr" "tr_count tr = repeat_count t"
    "handlers st (tr_handler tr) = Some f" "repeat_count t = -1 \<or> 0 <s repeat_count t" and bs: "bs = pre @ post"
    and pre: "\<forall>b\<in>set pre. uv_timer_compare (timer_at st b) (rearmed st (handle t)) < 0"
    and post: "\<forall>b\<in>set post. uv_timer_compare (rearmed st (handle t)) (timer_at st b) < 0"
    and fire: "fire (on_uv_timer script) a st
       = Inr (if repeat_count t = 1 then last_call a (udata t) (tr_handler tr) bs (run f (world st)) st
              else one_call a t tr (pre @ a # post) (run f (world st)) st)"
    by (rule fire_head [OF pure ok tree t])
  have f: "timer_function st a = f" by (simp add: timer_function_def timer_handler_def t tr)
  have "uv_repeat (handle t) \<noteq> 0" using ok t by (auto simp: sched_ok_def timer_ok_def)
  then have nd: "get_clamped_due_time (loop_time st) (uv_repeat (handle t)) = loop_time st + uv_repeat (handle t)"
    "loop_time st < loop_time st + uv_repeat (handle t)"
    using next_due wrap t by (auto simp: no_wrap_def)
  have dt: "due (handle t) \<le> loop_time st" using da by (simp add: timer_at_def t)
  show ?thesis
  proof (cases "repeat_count t = 1")
    case True
    let ?st = "last_call a (udata t) (tr_handler tr) bs (run f (world st)) st"
    note lc = last_call_ok [OF ok tree t tr(1) n refl, of "run f (world st)"]
    have "takeWhile (\<lambda>b. due (timer_at ?st b) \<le> loop_time st) bs = as"
      unfolding as using a by (intro takeWhile_cong) (auto simp: timer_at_def last_call_def)
    then have "due_list ?st = as" by (simp add: due_list_def last_call_def)
    moreover have "no_wrap ?st" using wrap by (auto simp: no_wrap_def last_call_def split: if_splits)
    moreover have "pending ?st b = (if b = a then Option.bind (pending st a) (fired (loop_time st)) else pending st b)" for b
      using True by (simp add: pending_def last_call_def t fired_def)
    ultimately show ?thesis
      using lc fire True by (intro that [OF tree t dt, of ?st]) (simp_all add: f, simp_all add: last_call_def same_queue_def)
  next
    case False
    let ?st = "one_call a t tr (pre @ a # post) (run f (world st)) st"
    note oc = one_call_ok [OF ok tree [unfolded bs] t tr(1,3) tr(4) False pre post n refl, of "run f (world st)"]
    have "takeWhile (\<lambda>b. due (timer_at ?st b) \<le> loop_time st) (pre @ a # post)
        = takeWhile (\<lambda>a. due (timer_at st a) \<le> loop_time st) (pre @ post)"
    proof (rule takeWhile_insert)
      show "\<not> due (timer_at ?st a) \<le> loop_time st"
        using nd by (simp add: timer_at_def one_call_def rearmed_def)
      show "\<forall>b\<in>set pre \<union> set post. (due (timer_at ?st b) \<le> loop_time st) = (due (timer_at st b) \<le> loop_time st)"
        using a bs by (auto simp: timer_at_def one_call_def)
      show "\<forall>b\<in>set post. \<not> due (timer_at st b) \<le> loop_time st"
        using post nd by (fastforce simp: uv_timer_compare_def rearmed_def split: if_splits)
    qed
    then have "due_list ?st = as" by (simp add: due_list_def one_call_def as bs)
    moreover have "no_wrap ?st" using wrap t by (auto simp: no_wrap_def one_call_def rearmed_def split: if_splits)
    moreover have "pending ?st b = (if b = a then Option.bind (pending st a) (fired (loop_time st)) else pending st b)" for b
      using False nd(1) by (simp add: pending_def one_call_def t fired_def rearmed_def count_down_def)
    ultimately show ?thesis
      using oc fire False by (intro that [OF tree t dt, of ?st]) (simp_all add: f, simp_all add: one_call_def same_queue_def)
  qed
qed

lemma process_due:
  fixes st :: "('f, 'w) sched"
  assumes pure: "\<And>f st. script f st = Inr (st\<lparr>world := run f (world st)\<rparr>)"
    and "sched_ok st" "no_wrap st" "unat (timer_counter st) + length (due_list st) < 2 ^ 64"
  shows "\<exists>st'. uv_process_timers (on_uv_timer script) st = Some (Inr st')
    \<and> sched_ok st' \<and> due_list st' = [] \<and> loop_time st' = loop_time st \<and> same_queue st' st
    \<and> unat (timer_counter st') = unat (timer_counter st) + length (due_list st)
    \<and> world st' = fold (\<lambda>a. run (timer_function st a)) (due_list st) (world st)
    \<and> (\<forall>a. pending st' a = (if a \<in> set (due_list st) then Option.bind (pending st a) (fired (loop_time st)) else pending st a))
    \<and> (\<forall>a\<in>dom (timers st'). timer_function st' a = timer_function st a)"
  using assms(2-)
proof (induction "due_list st" arbitrary: st)
  case Nil
  have "uv_process_timers (on_uv_timer script) st = Some (Inr st)"
  proof (cases "tree st")
    case Nil
    then show ?thesis by (simp add: uv_process_timers.simps)
  next
    case (Cons a bs)
    then have "a \<in> dom (timers st)" using Nil.prems(1) by (auto simp: sched_ok_def)
    then obtain t where t: "timers st a = Some t" by blast
    then have "\<not> due (handle t) \<le> loop_time st"
      using Nil.hyps Cons by (auto simp: due_list_def timer_at_def split: if_splits)
    then show ?thesis using Cons t by (simp add: uv_process_timers.simps)
  qed
  then show ?case using Nil by simp
next
  case (Cons a as)
  have len: "unat (timer_counter st) + Suc (length as) < 2 ^ 64" using Cons.prems(3) Cons.hyps(2) by (metis length_Cons)
  have n: "timer_counter st \<noteq> -1"
  proof
    assume "timer_counter st = -1"
    then have "unat (timer_counter st) = 2 ^ 64 - 1"
      by (simp add: unsigned_minus_1_eq_mask mask_eq_exp_minus_1)
    with len show False by simp
  qed
  obtain st1 t bs where s1: "tree st = a # bs" "timers st a = Some t" "due (handle t) \<le> loop_time st"
    "fire (on_uv_timer script) a st = Inr st1"
    "sched_ok st1" "due_list st1 = as" "loop_time st1 = loop_time st" "same_queue st1 st" "no_wrap st1"
    "timer_counter st1 = timer_counter st + 1" "world st1 = run (timer_function st a) (world st)"
    "\<And>b. pending st1 b = (if b = a then Option.bind (pending st a) (fired (loop_time st)) else pending st b)"
    "\<forall>b\<in>dom (timers st1). timer_function st1 b = timer_function st b"
    by (rule fire_due [where script = script and run = run, OF pure Cons.prems(1) Cons.hyps(2) [symmetric] Cons.prems(2) n], rule that)
  have tc: "unat (timer_counter st1) = Suc (unat (timer_counter st))"
    using n by (subst s1(10)) (metis add.commute eq_neg_iff_add_eq_0 unatSuc)
  have "unat (timer_counter st1) + length (due_list st1) < 2 ^ 64" using len by (simp add: tc s1(6))
  from Cons.hyps(1) [OF s1(6) [symmetric] s1(5,9) this]
  obtain st' where s': "uv_process_timers (on_uv_timer script) st1 = Some (Inr st')"
    "sched_ok st'" "due_list st' = []" "loop_time st' = loop_time st1" "same_queue st' st1"
    "unat (timer_counter st') = unat (timer_counter st1) + length (due_list st1)"
    "world st' = fold (\<lambda>a. run (timer_function st1 a)) (due_list st1) (world st1)"
    "\<And>b. pending st' b = (if b \<in> set (due_list st1) then Option.bind (pending st1 b) (fired (loop_time st1)) else pending st1 b)"
    "\<forall>b\<in>dom (timers st'). timer_function st' b = timer_function st1 b" by blast
  have d: "distinct (tree st)" using Cons.prems(1) uv_tree.sorted_distinct [of "timer_at st" "tree st"] by (simp add: sched_ok_def)
  then have "distinct (due_list st)" unfolding due_list_def by (rule distinct_takeWhile)
  then have a: "a \<notin> set as" using Cons.hyps(2) by (metis distinct.simps(2))
  have sub: "dom (timers st') \<subseteq> dom (timers st1)" and as: "set as \<subseteq> dom (timers st1)"
  proof -
    have "timers st1 b \<noteq> None" if "timers st' b \<noteq> None" for b
      using s'(8) [of b] that by (cases "timers st1 b") (auto simp: pending_def split: if_splits)
    then show "dom (timers st') \<subseteq> dom (timers st1)" by blast
    have "set as \<subseteq> set (tree st1)" using s1(6) set_takeWhileD by (fastforce simp: due_list_def)
    then show "set as \<subseteq> dom (timers st1)" using s1(5) by (simp add: sched_ok_def)
  qed
  have "uv_process_timers (on_uv_timer script) st = Some (Inr st')"
    by (subst uv_process_timers.simps) (simp add: s1(1-4) s'(1))
  moreover have "world st' = fold (\<lambda>a. run (timer_function st a)) (due_list st) (world st)"
  proof -
    have "world st' = fold (\<lambda>a. run (timer_function st a)) as (world st1)"
      unfolding s'(7) s1(6)
    proof (rule fold_cong [OF refl refl])
      fix x assume "x \<in> set as"
      then show "run (timer_function st1 x) = run (timer_function st x)" using as s1(13) by (metis subset_iff)
    qed
    then show ?thesis unfolding Cons.hyps(2) [symmetric] by (simp add: s1(11))
  qed
  moreover have "pending st' b = (if b \<in> set (due_list st) then Option.bind (pending st b) (fired (loop_time st)) else pending st b)" for b
    unfolding Cons.hyps(2) [symmetric] using a by (simp add: s'(8) s1(6,7,12))
  moreover have "unat (timer_counter st') = unat (timer_counter st) + length (due_list st)"
    unfolding Cons.hyps(2) [symmetric] by (simp add: s'(6) s1(6) tc)
  moreover have "same_queue st' st" using s'(5) s1(8) by (rule same_queue_trans)
  ultimately show ?case using s'(2-4) s1(7) s'(9) s1(13) sub by (intro exI [of _ st']) (simp add: subset_eq)
qed

section \<open>A new timer\<close>

text \<open>The next addresses and the next reference are not in use, and the last handle of the
  queue is alive.\<close>

definition fresh_ok :: "('f, 'w) sched \<Rightarrow> bool" where
  "fresh_ok st \<longleftrightarrow>
     (\<forall>a t. timers st a = Some t \<longrightarrow> a < next_addr st \<and> udata t < next_addr st
        \<and> timer_handler st a \<noteq> ref_id st + 1) \<and> ref_id st \<noteq> -1"

definition tail_live :: "('f, 'w) sched \<Rightarrow> bool" where
  "tail_live st \<longleftrightarrow>
     handle_queue st = [] \<or> last (handle_queue st) = QOther
     \<or> (\<exists>b\<in>dom (timers st). last (handle_queue st) = QTimer b)"

definition new_handle :: "u32 \<Rightarrow> u32 \<Rightarrow> ('f, 'w) sched \<Rightarrow> uv_timer" where
  "new_handle after rep st =
     \<lparr>is_active = True, has_cb = True, due = get_clamped_due_time (loop_time st) (scast after),
      uv_repeat = scast rep, start_id = timer_counter st\<rparr>"

lemma queue_insert_tail_ok:
  assumes "tail_live st" "dom (timers st) \<subseteq> dom (timers st')" "handle_queue st' = handle_queue st"
  shows "queue_insert_tail a st' = Inr (st'\<lparr>handle_queue := handle_queue st @ [QTimer a]\<rparr>)"
  using assms by (auto simp: queue_insert_tail_def tail_live_def Let_def)

lemma schedule_repeat_result:
  fixes st :: "('f, 'w) sched"
  assumes live: "tail_live st" and fresh: "\<forall>b\<in>dom (timers st). b < next_addr st"
    and srt: "sorted_wrt (before st) (tree st)" "set (tree st) = dom (timers st)"
    and ids: "\<forall>b\<in>set (tree st). start_id (timer_at st b) \<noteq> timer_counter st"
  obtains pre post where "tree st = pre @ post"
    "\<forall>b\<in>set pre. uv_timer_compare (timer_at st b) (new_handle after rep st) < 0"
    "\<forall>b\<in>set post. uv_timer_compare (new_handle after rep st) (timer_at st b) < 0"
    "schedule_repeat ud after count rep st = Inr (next_addr st, st\<lparr>next_addr := Suc (next_addr st),
       handle_queue := handle_queue st @ [QTimer (next_addr st)], timer_counter := timer_counter st + 1,
       timers := (timers st)(next_addr st \<mapsto> \<lparr>handle = new_handle after rep st, udata = ud, repeat_count = count\<rparr>),
       tree := pre @ next_addr st # post\<rparr>)"
proof -
  let ?a = "next_addr st" and ?h = "new_handle after rep st"
  let ?init = "\<lparr>is_active = False, has_cb = False, due = 0, uv_repeat = 0, start_id = 0\<rparr>"
  let ?st = "st\<lparr>next_addr := Suc ?a, timers := (timers st)(?a \<mapsto> \<lparr>handle = ?init, udata = ud, repeat_count = count\<rparr>),
       handle_queue := handle_queue st @ [QTimer ?a]\<rparr>"
  have a: "?a \<notin> set (tree st)" using fresh srt(2) by blast
  have at: "timer_at ?st b = timer_at st b" if "b \<in> set (tree st)" for b using that a by (auto simp: timer_at_def)
  have qi: "queue_insert_tail ?a (st\<lparr>next_addr := Suc ?a, timers := (timers st)(?a \<mapsto> \<lparr>handle = ?init, udata = ud, repeat_count = count\<rparr>)\<rparr>)
      = Inr ?st"
    by (subst queue_insert_tail_ok [OF live]) auto
  have "alloc_timer ud count st = Inr (?a, ?st)"
    by (simp add: alloc_timer_def uv_timer_init_def Let_def set_timer_def set_handle_def qi)
  then have s: "schedule_repeat ud after count rep st
      = rbind (uv_timer_start ?a (scast after) (scast rep) ?st) (\<lambda>st. Inr (?a, st))"
    by (simp add: schedule_repeat_def)
  have "sorted_wrt (before ?st) (tree ?st)"
    using srt(1) by (auto intro!: sorted_wrt_mono_rel [of "tree st" "before st"] simp: at)
  moreover have "set (tree ?st) \<subseteq> dom (timers ?st)" using srt(2) by auto
  moreover have "?a \<notin> set (tree ?st)" using a by simp
  moreover have "\<forall>b\<in>set (tree ?st). start_id (timer_at ?st b) \<noteq> start_id ?h"
    using ids at by (simp add: new_handle_def)
  ultimately have "\<exists>pre post. tree ?st = pre @ post \<and>
    (\<forall>b\<in>set pre. uv_timer_compare (timer_at ?st b) ?h < 0) \<and> (\<forall>b\<in>set post. uv_timer_compare ?h (timer_at ?st b) < 0)
    \<and> (\<forall>t. handle t = ?h \<longrightarrow> tree_insert ?a (?st\<lparr>timer_counter := timer_counter st + 1, timers := (timers ?st)(?a \<mapsto> t)\<rparr>)
         = Inr (?st\<lparr>timer_counter := timer_counter st + 1, timers := (timers ?st)(?a \<mapsto> t), tree := pre @ ?a # post\<rparr>))"
    by (rule tree_insert_place)
  then obtain pre post where p: "tree st = pre @ post"
    "\<forall>b\<in>set pre. uv_timer_compare (timer_at ?st b) ?h < 0" "\<forall>b\<in>set post. uv_timer_compare ?h (timer_at ?st b) < 0"
    "\<forall>t. handle t = ?h \<longrightarrow> tree_insert ?a (?st\<lparr>timer_counter := timer_counter st + 1, timers := (timers ?st)(?a \<mapsto> t)\<rparr>)
         = Inr (?st\<lparr>timer_counter := timer_counter st + 1, timers := (timers ?st)(?a \<mapsto> t), tree := pre @ ?a # post\<rparr>)"
    by (elim exE conjE) simp
  have "uv_timer_start ?a (scast after) (scast rep) ?st
      = tree_insert ?a (?st\<lparr>timer_counter := timer_counter st + 1,
          timers := (timers ?st)(?a \<mapsto> \<lparr>handle = ?h, udata = ud, repeat_count = count\<rparr>)\<rparr>)"
    by (simp add: uv_timer_start_def uv_timer_stop_def set_handle_def set_timer_def new_handle_def)
  with p(4) have "schedule_repeat ud after count rep st = Inr (?a, ?st\<lparr>timer_counter := timer_counter st + 1,
       timers := (timers st)(?a \<mapsto> \<lparr>handle = ?h, udata = ud, repeat_count = count\<rparr>), tree := pre @ ?a # post\<rparr>)"
    unfolding s by simp
  then show ?thesis using p(1-3) at by (intro that [of pre post]) auto
qed

lemma positive_scast: "0 <s x \<Longrightarrow> (scast (x :: u32) :: u64) \<noteq> 0"
proof
  assume x: "0 <s x" and "(scast x :: u64) = 0"
  then have "sint (scast x :: u64) = 0" by simp
  moreover have "sint (scast x :: u64) = sint x" by (rule sint_up_scast) (simp add: is_up)
  ultimately show False using x by (simp add: word_sless_alt)
qed

lemma sign_cases: "\<not> x <s 0 \<Longrightarrow> x \<noteq> 0 \<Longrightarrow> 0 <s (x :: u32)" "\<not> x \<le>s 0 \<longleftrightarrow> 0 <s (x :: u32)" "0 <s x \<Longrightarrow> \<not> x \<le>s 0"
proof -
  have "x = 0 \<longleftrightarrow> sint x = 0" by (auto intro: signed_word_eqI)
  then show "\<not> x <s 0 \<Longrightarrow> x \<noteq> 0 \<Longrightarrow> 0 <s x" "\<not> x \<le>s 0 \<longleftrightarrow> 0 <s x" "0 <s x \<Longrightarrow> \<not> x \<le>s 0"
    by (auto simp: word_sless_alt word_sle_eq)
qed

lemma inj_on_fresh:
  assumes "inj_on g A" "\<forall>b\<in>A. g' b = g b \<and> g b \<noteq> g' a"
  shows "inj_on g' (insert a A)"
  using assms by (auto simp: inj_on_def)

lemma lua_schedule_ok:
  fixes st :: "('f, 'w) sched"
  assumes ok: "sched_ok st" and fresh: "fresh_ok st" and live: "tail_live st" and n: "timer_counter st \<noteq> -1"
    and after: "0 <s after" and count: "count \<noteq> 0"
  shows "\<exists>a st'. lua_schedule_repeat (Some f) after count rep st = Inr (Some a, st')
    \<and> sched_ok st' \<and> a \<notin> dom (timers st) \<and> timer_function st' a = f
    \<and> loop_time st' = loop_time st \<and> world st' = world st \<and> timer_counter st' = timer_counter st + 1
    \<and> pending st' = (pending st)(a \<mapsto>
        (get_clamped_due_time (loop_time st) (scast after), scast (if rep \<le>s 0 then after else rep),
         if count <s 0 then -1 else count))
    \<and> set (tree st') = insert a (set (tree st)) \<and> handle_queue st' = handle_queue st @ [QTimer a]
    \<and> a < next_addr st' \<and> ref_id st' = ref_id st + 1"
proof -
  let ?h = "ref_id st + 1" and ?ud = "next_addr st" and ?a = "Suc (next_addr st)"
  let ?rep = "if rep \<le>s 0 then after else rep" and ?count = "if count <s 0 then -1 else count"
  let ?st = "st\<lparr>ref_id := ?h, handlers := (handlers st)(?h \<mapsto> f), next_addr := Suc ?ud,
      repeats := (repeats st)(?ud \<mapsto> \<lparr>tr_handler = ?h, tr_count = ?count\<rparr>)\<rparr>"
  have h: "?h \<noteq> 0" using fresh by (metis fresh_ok_def add.commute eq_neg_iff_add_eq_0)
  have fr: "b < ?ud" "udata t < ?ud" "timer_handler st b \<noteq> ?h" if "timers st b = Some t" for b t
    using fresh that by (auto simp: fresh_ok_def)
  have tok: "timer_ok st t" if "timers st b = Some t" for b t using ok that by (simp add: sched_ok_def)
  have dom: "set (tree st) = dom (timers st)" and srt: "sorted_wrt (before st) (tree st)" using ok by (simp_all add: sched_ok_def)
  have at: "timer_at ?st = timer_at st" by (rule timer_at_cong) simp
  have "\<forall>b\<in>set (tree ?st). start_id (timer_at ?st b) \<noteq> timer_counter ?st"
    unfolding at using tok dom by (fastforce simp: timer_at_def timer_ok_def)
  moreover have "\<forall>b\<in>dom (timers ?st). b < next_addr ?st" using fr(1) by (fastforce simp: less_SucI)
  moreover have "tail_live ?st" using live by (simp add: tail_live_def)
  moreover have "sorted_wrt (before ?st) (tree ?st)" unfolding at using srt by simp
  ultimately obtain pre post where p: "tree ?st = pre @ post"
    "\<forall>b\<in>set pre. uv_timer_compare (timer_at ?st b) (new_handle after ?rep ?st) < 0"
    "\<forall>b\<in>set post. uv_timer_compare (new_handle after ?rep ?st) (timer_at ?st b) < 0"
    and sr: "schedule_repeat ?ud after ?count ?rep ?st = Inr (next_addr ?st, ?st\<lparr>next_addr := Suc (next_addr ?st),
       handle_queue := handle_queue ?st @ [QTimer (next_addr ?st)], timer_counter := timer_counter ?st + 1,
       timers := (timers ?st)(next_addr ?st \<mapsto> \<lparr>handle = new_handle after ?rep ?st, udata = ?ud, repeat_count = ?count\<rparr>),
       tree := pre @ next_addr ?st # post\<rparr>)"
    using dom by (elim schedule_repeat_result [of ?st after ?rep ?ud ?count]) simp_all
  define t where "t = \<lparr>handle = new_handle after ?rep st, udata = ?ud, repeat_count = ?count\<rparr>"
  define st' where "st' = st\<lparr>ref_id := ?h, handlers := (handlers st)(?h \<mapsto> f), repeats := (repeats st)(?ud \<mapsto> \<lparr>tr_handler = ?h, tr_count = ?count\<rparr>),
       next_addr := Suc ?a, handle_queue := handle_queue st @ [QTimer ?a], timer_counter := timer_counter st + 1,
       timers := (timers st)(?a \<mapsto> t), tree := pre @ ?a # post\<rparr>"
  have nh: "new_handle after ?rep ?st = new_handle after ?rep st" by (simp add: new_handle_def)
  have res: "lua_schedule_repeat (Some f) after count rep st = Inr (Some ?a, st')"
    using sr h after count sign_cases(3) [OF after]
    by (simp add: lua_schedule_repeat_def ref_function_def alloc_repeat_def Let_def nh t_def st'_def)
  have tm: "timers st' = (timers st)(?a \<mapsto> t)" and hd: "handlers st' = (handlers st)(?h \<mapsto> f)"
    and rp: "repeats st' = (repeats st)(?ud \<mapsto> \<lparr>tr_handler = ?h, tr_count = ?count\<rparr>)" and tr: "tree st' = pre @ ?a # post"
    and tc: "timer_counter st' = timer_counter st + 1"
    by (simp_all add: st'_def)
  have a: "?a \<notin> dom (timers st)" using fr(1) by fastforce
  have pp: "tree st = pre @ post" using p(1) by simp
  have at': "timer_at st' b = (if b = ?a then new_handle after ?rep st else timer_at st b)" for b
    by (simp add: timer_at_def tm t_def)
  have "sorted_wrt (before st') (pre @ post)"
    using srt pp a dom by (auto intro!: sorted_wrt_mono_rel [of "pre @ post" "before st"] simp: at')
  then have s: "sorted_wrt (before st') (pre @ ?a # post)"
    by (rule uv_tree.place_sorted) (use p(2,3) pp a dom in \<open>auto simp: at' at nh\<close>)
  have th: "timer_handler st' b = (if b = ?a then ?h else timer_handler st b)" if "b \<in> dom (timers st')" for b
    using that fr(2) by (fastforce simp: timer_handler_def tm rp t_def)
  have tok': "timer_ok st' u" if u: "timers st' b = Some u" for b u
  proof (cases "b = ?a")
    case True
    then have "u = t" using u by (simp add: tm)
    moreover have "(scast ?rep :: u64) \<noteq> 0" using after by (auto intro!: positive_scast simp: sign_cases)
    moreover have "?count = -1 \<or> 0 <s ?count" using count by (simp add: sign_cases)
    ultimately show ?thesis
      using counter_step [OF n] unfolding timer_ok_def repeat_ok_def by (simp add: t_def new_handle_def rp hd tc)
  next
    case False
    then have b: "timers st b = Some u" using u by (simp add: tm)
    have "handlers st' (timer_handler st b) = handlers st (timer_handler st b)" using fr(3) [OF b] by (simp add: hd)
    then show ?thesis
      using tok [OF b] fr(2) [OF b] b counter_later [OF _ n]
      by (auto simp: timer_ok_def repeat_ok_def rp tc timer_handler_def)
  qed
  have dm: "dom (timers st') = insert ?a (dom (timers st))" by (simp add: tm)
  have iu: "inj_on (\<lambda>b. udata (the (timers st' b))) (dom (timers st'))"
    unfolding dm
  proof (rule inj_on_fresh)
    show "inj_on (\<lambda>b. udata (the (timers st b))) (dom (timers st))" using ok by (simp add: sched_ok_def)
    show "\<forall>b\<in>dom (timers st). udata (the (timers st' b)) = udata (the (timers st b))
        \<and> udata (the (timers st b)) \<noteq> udata (the (timers st' ?a))"
      using a fr(2) by (fastforce simp: tm t_def)
  qed
  have ih: "inj_on (timer_handler st') (dom (timers st'))"
    unfolding dm
  proof (rule inj_on_fresh)
    show "inj_on (timer_handler st) (dom (timers st))" using ok by (simp add: sched_ok_def)
    show "\<forall>b\<in>dom (timers st). timer_handler st' b = timer_handler st b \<and> timer_handler st b \<noteq> timer_handler st' ?a"
    proof
      fix b assume b: "b \<in> dom (timers st)"
      then have "b \<noteq> ?a" "timer_handler st b \<noteq> ?h" using a fr(3) by auto
      then show "timer_handler st' b = timer_handler st b \<and> timer_handler st b \<noteq> timer_handler st' ?a"
        using th [of b] th [of ?a] b by (simp add: dm)
    qed
  qed
  have st: "set (tree st') = insert ?a (set (tree st))" by (auto simp: tr pp)
  have "sched_ok st'" unfolding sched_ok_def using s tok' iu ih st dom by (simp add: tr tm)
  moreover have "timer_function st' ?a = f" using th [of ?a] by (simp add: timer_function_def tm hd)
  moreover have "pending st' = (pending st)(?a \<mapsto>
      (get_clamped_due_time (loop_time st) (scast after), scast ?rep, ?count))"
    by (auto simp: pending_def tm t_def new_handle_def)
  moreover have "loop_time st' = loop_time st" "world st' = world st" by (simp_all add: st'_def)
  moreover have "handle_queue st' = handle_queue st @ [QTimer ?a]" "?a < next_addr st'"
    "ref_id st' = ref_id st + 1" by (simp_all add: st'_def)
  ultimately show ?thesis using res a tc st by (intro exI [of _ ?a] exI [of _ st']) simp
qed

section \<open>Rounds of the loop\<close>

text \<open>The rounds of \<open>uv_run\<close>, as far as timers are concerned, at given readings of the clock.\<close>

fun rounds :: "('f \<Rightarrow> ('f, 'w) sched \<Rightarrow> ('f, 'w) sched result) \<Rightarrow> u64 list \<Rightarrow> ('f, 'w) sched \<Rightarrow> ('f, 'w) sched result option" where
  "rounds script [] st = Some (Inr st)"
| "rounds script (t # ts) st =
     (case uv_update_time t st of
        Inl e \<Rightarrow> Some (Inl e)
      | Inr st \<Rightarrow>
          (case uv_process_timers (on_uv_timer script) st of
             None \<Rightarrow> None
           | Some (Inl e) \<Rightarrow> Some (Inl e)
           | Some (Inr st) \<Rightarrow> rounds script ts st))"

text \<open>Readings of the clock, the first not before a time and the others at least a period apart.\<close>

fun paced :: "u64 \<Rightarrow> u64 \<Rightarrow> u64 \<Rightarrow> u64 list \<Rightarrow> bool" where
  "paced now d r [] = True"
| "paced now d r (t # ts) = (now \<le> t \<and> d \<le> t \<and> unat t + unat r < 2 ^ 64 \<and> paced t (t + r) r ts)"

lemma sched_ok_time: "sched_ok (st\<lparr>loop_time := t\<rparr>) = sched_ok st"
  by (simp add: sched_ok_def timer_at_def [abs_def] timer_ok_def repeat_ok_def timer_handler_def [abs_def])

lemma one_element: "set xs = {a} \<Longrightarrow> distinct xs \<Longrightarrow> xs = [a]"
  by (cases xs; cases "tl xs") auto

lemma single_rounds:
  fixes st :: "('f, 'w) sched"
  assumes pure: "\<And>f st. script f st = Inr (st\<lparr>world := run f (world st)\<rparr>)"
    and "sched_ok st" "tree st = [a]" "timer_function st a = f" "pending st a = Some (d, r, c)" "0 <s c"
    "nat (sint c) = length ts" "paced (loop_time st) d r ts" "unat (timer_counter st) + length ts < 2 ^ 64"
  shows "\<exists>st'. rounds script ts st = Some (Inr st') \<and> sched_ok st' \<and> tree st' = []
    \<and> world st' = (run f ^^ length ts) (world st) \<and> same_queue st' st"
  using assms(2-)
proof (induction ts arbitrary: st d c)
  case Nil
  then show ?case by (simp add: word_sless_alt)
next
  case (Cons t ts)
  let ?st = "st\<lparr>loop_time := t\<rparr>"
  obtain u where u: "timers st a = Some u" "due (handle u) = d" "uv_repeat (handle u) = r" "repeat_count u = c"
    using Cons.prems(4) by (auto simp: pending_def)
  have dom: "dom (timers st) = {a}" using Cons.prems(1,2) by (auto simp: sched_ok_def)
  have due: "due_list ?st = [a]" using Cons.prems(2,7) u by (simp add: due_list_def timer_at_def)
  have ok: "sched_ok ?st" using Cons.prems(1) by (simp add: sched_ok_time)
  have only: "b = a \<and> v = u" if "timers st b = Some v" for b v using dom domI [of "timers st" b v] that u(1) by auto
  have wrap: "no_wrap ?st" using Cons.prems(7) u by (auto simp: no_wrap_def dest!: only)
  have "unat (timer_counter ?st) + length (due_list ?st) < 2 ^ 64" using Cons.prems(8) by (simp add: due)
  note pd = process_due [where script = script and run = run, OF pure ok wrap this]
  have same: "pending ?st = pending st" "timer_function ?st = timer_function st"
    by (simp_all add: fun_eq_iff pending_def timer_function_def timer_handler_def)
  from pd
  obtain s1 where s1: "uv_process_timers (on_uv_timer script) ?st = Some (Inr s1)" "sched_ok s1"
    "loop_time s1 = t" "same_queue s1 st" "unat (timer_counter s1) = Suc (unat (timer_counter st))"
    "world s1 = run f (world st)"
    "\<And>b. pending s1 b = (if b = a then fired t (d, r, c) else pending st b)"
    "\<forall>b\<in>dom (timers s1). timer_function s1 b = timer_function ?st b"
    unfolding due using Cons.prems(3,4) by (elim exE conjE) (simp add: same)
  have rds: "rounds script (t # ts) st = rounds script ts s1"
    using Cons.prems(7) s1(1) by (simp add: uv_update_time_def)
  have out: "timers s1 b = None" if "b \<noteq> a" for b
  proof -
    have "timers st b = None" using that only by (cases "timers st b") auto
    then show ?thesis using s1(7) [of b] that by (simp add: pending_def)
  qed
  show ?case
  proof (cases "c = 1")
    case True
    then have "ts = []" using Cons.prems(6) by simp
    moreover have "timers s1 a = None" using s1(7) [of a] True by (simp add: fired_def pending_def)
    then have "dom (timers s1) = {}" using out by (metis dom_eq_empty_conv ext)
    then have "tree s1 = []" using s1(2) by (simp add: sched_ok_def)
    ultimately show ?thesis using rds s1 by simp
  next
    case False
    note cl = count_left [OF Cons.prems(5)]
    have pend: "pending s1 a = Some (t + r, r, c - 1)" using s1(7) [of a] False cl(2) by (simp add: fired_def)
    then have "a \<in> dom (timers s1)" by (auto simp: pending_def)
    then have "set (tree s1) = {a}" using s1(2) out by (auto simp: sched_ok_def)
    moreover have "distinct (tree s1)" using s1(2) uv_tree.sorted_distinct [of "timer_at s1" "tree s1"] by (simp add: sched_ok_def)
    ultimately have tree: "tree s1 = [a]" by (rule one_element)
    have fn: "timer_function s1 a = f"
      using s1(8) \<open>a \<in> dom (timers s1)\<close> Cons.prems(3) by (simp add: timer_function_def timer_handler_def)
    have "0 < sint c" "sint c < 2 ^ 31" using Cons.prems(5) sint_lt [of c] by (simp_all add: word_sless_alt)
    then have "sint (c - 1) = sint c - 1" by (simp add: sint_word_ariths signed_take_bit_int_eq_self)
    then have len: "nat (sint (c - 1)) = length ts" using Cons.prems(6) by simp
    have "\<exists>st'. rounds script ts s1 = Some (Inr st') \<and> sched_ok st' \<and> tree st' = []
        \<and> world st' = (run f ^^ length ts) (world s1) \<and> same_queue st' s1"
      by (rule Cons.IH [OF s1(2) tree fn pend cl(6) [OF False] len])
         (use Cons.prems(7,8) s1(3,5) in simp_all)
    then show ?thesis unfolding rds s1(6) using same_queue_trans [OF _ s1(4)] by (auto simp: funpow_swap1)
  qed
qed

lemma called_count_times:
  fixes st :: "('f, 'w) sched"
  assumes pure: "\<And>f st. script f st = Inr (st\<lparr>world := run f (world st)\<rparr>)"
    and ok: "sched_ok st" "fresh_ok st" "tail_live st" and tree: "tree st = []"
    and args: "0 <s after" "0 <s count" "0 <s rep" and len: "length ts = nat (sint count)"
    and paced: "paced (loop_time st) (get_clamped_due_time (loop_time st) (scast after)) (scast rep) ts"
    and n: "unat (timer_counter st) + length ts + 1 < 2 ^ 64"
  shows "\<exists>a st1 st2. lua_schedule_repeat (Some f) after count rep st = Inr (Some a, st1)
    \<and> rounds script ts st1 = Some (Inr st2) \<and> world st2 = (run f ^^ length ts) (world st)
    \<and> timers st2 = Map.empty \<and> tree st2 = []
    \<and> handle_queue st2 = handle_queue st @ [QTimer a] \<and> a < next_addr st2 \<and> ref_id st2 = ref_id st + 1"
proof -
  have n1: "timer_counter st \<noteq> -1"
  proof
    assume "timer_counter st = -1"
    then have "unat (timer_counter st) = 2 ^ 64 - 1" by (simp add: unsigned_minus_1_eq_mask mask_eq_exp_minus_1)
    with n show False by simp
  qed
  have c: "count \<noteq> 0" using args(2) by (auto simp: word_sless_alt)
  obtain a st1 where s1: "lua_schedule_repeat (Some f) after count rep st = Inr (Some a, st1)" "sched_ok st1"
    "timer_function st1 a = f" "loop_time st1 = loop_time st" "world st1 = world st"
    "timer_counter st1 = timer_counter st + 1"
    "pending st1 = (pending st)(a \<mapsto> (get_clamped_due_time (loop_time st) (scast after),
        scast (if rep \<le>s 0 then after else rep), if count <s 0 then -1 else count))"
    "set (tree st1) = insert a (set (tree st))" "handle_queue st1 = handle_queue st @ [QTimer a]" "a < next_addr st1"
    "ref_id st1 = ref_id st + 1"
    using lua_schedule_ok [OF ok n1 args(1) c, of f rep] by blast
  have "distinct (tree st1)" using s1(2) uv_tree.sorted_distinct [of "timer_at st1" "tree st1"] by (simp add: sched_ok_def)
  then have t1: "tree st1 = [a]" using s1(8) tree by (intro one_element) simp_all
  have pd: "pending st1 a = Some (get_clamped_due_time (loop_time st) (scast after), scast rep, count)"
    using s1(7) args by (simp add: sign_cases(3) count_left(1))
  have tc: "unat (timer_counter st1) = Suc (unat (timer_counter st))"
    unfolding s1(6) using n1 by (metis add.commute eq_neg_iff_add_eq_0 unatSuc)
  have "\<exists>st'. rounds script ts st1 = Some (Inr st') \<and> sched_ok st' \<and> tree st' = []
    \<and> world st' = (run f ^^ length ts) (world st1) \<and> same_queue st' st1"
    by (rule single_rounds [OF pure s1(2) t1 s1(3) pd args(2) len [symmetric]])
       (use paced n in \<open>simp_all add: s1(4) tc\<close>)
  then obtain st2 where s2: "rounds script ts st1 = Some (Inr st2)" "sched_ok st2" "tree st2 = []"
    "world st2 = (run f ^^ length ts) (world st1)" "same_queue st2 st1" by blast
  have "dom (timers st2) = {}" using s2(2,3) by (auto simp: sched_ok_def)
  then have "timers st2 = Map.empty" by simp
  then show ?thesis using s1 s2 by (intro exI [of _ a] exI [of _ st1] exI [of _ st2]) (simp add: same_queue_def)
qed

section \<open>The properties\<close>

text \<open>C6: A round of the loop ends, and calls exactly the timers that are due, each once, in the
  order of their times and of their start, if the scripts leave the timers alone; afterwards none is
  due, a timer with a last call is gone and the others have one call less and are due a period later,
  and the state is well-formed.\<close>

theorem due_timers_called_in_order:
  fixes st :: "('f, 'w) sched"
  assumes "\<And>f st. script f st = Inr (st\<lparr>world := run f (world st)\<rparr>)"
    and "sched_ok st" "no_wrap st" "unat (timer_counter st) + length (due_list st) < 2 ^ 64"
  shows "\<exists>st'. uv_process_timers (on_uv_timer script) st = Some (Inr st')
    \<and> sched_ok st' \<and> due_list st' = []
    \<and> world st' = fold (\<lambda>a. run (timer_function st a)) (due_list st) (world st)
    \<and> (\<forall>a. pending st' a = (if a \<in> set (due_list st) then Option.bind (pending st a) (fired (loop_time st)) else pending st a))"
  using process_due [where script = script and run = run, OF assms] by blast

definition demo_script :: "nat \<Rightarrow> (nat, nat list) sched \<Rightarrow> (nat, nat list) sched result" where
  "demo_script f st = Inr (st\<lparr>world := world st @ [f]\<rparr>)"

text \<open>Two timers that are due, the first for the last time.\<close>

definition demo_sched :: "(nat, nat list) sched" where
  "demo_sched = \<lparr>loop_time = 100, timer_counter = 2, tree = [1, 3], handle_queue = [QOther, QTimer 1, QTimer 3],
     timers = [1 \<mapsto> \<lparr>handle = \<lparr>is_active = True, has_cb = True, due = 50, uv_repeat = 10, start_id = 0\<rparr>, udata = 0, repeat_count = 1\<rparr>,
               3 \<mapsto> \<lparr>handle = \<lparr>is_active = True, has_cb = True, due = 60, uv_repeat = 20, start_id = 1\<rparr>, udata = 2, repeat_count = -1\<rparr>],
     repeats = [0 \<mapsto> \<lparr>tr_handler = 1, tr_count = 1\<rparr>, 2 \<mapsto> \<lparr>tr_handler = 2, tr_count = -1\<rparr>],
     next_addr = 4, handlers = [1 \<mapsto> 7, 2 \<mapsto> 8], ref_id = 2, world = []\<rparr>"

lemma demo_sched_ok: "sched_ok demo_sched" "no_wrap demo_sched" "due_list demo_sched = [1, 3]"
  by (auto simp: sched_ok_def demo_sched_def timer_at_def uv_timer_compare_def timer_ok_def repeat_ok_def
      timer_handler_def inj_on_def no_wrap_def due_list_def word_sless_alt split: if_splits)

theorem due_timers_called_in_order_witness:
  "\<exists>st'. uv_process_timers (on_uv_timer demo_script) demo_sched = Some (Inr st')
    \<and> due_list st' = [] \<and> world st' = [7, 8] \<and> pending st' 1 = None \<and> pending st' 3 = Some (120, 20, -1)"
proof -
  have "timer_function demo_sched 1 = 7" "timer_function demo_sched 3 = 8" "loop_time demo_sched = 100"
    "unat (timer_counter demo_sched) = 2" "world demo_sched = []"
    "pending demo_sched 1 = Some (50, 10, 1)" "pending demo_sched 3 = Some (60, 20, -1)"
    by (simp_all add: demo_sched_def timer_function_def timer_handler_def pending_def)
  then show ?thesis
    using due_timers_called_in_order [of demo_script "\<lambda>f w. w @ [f]" demo_sched]
    by (auto simp: demo_script_def demo_sched_ok fired_def simp del: One_nat_def)
qed

text \<open>C7: In an idle scheduler, a function that a script schedules for a count of calls is called
  exactly that often, once at each of the next rounds of a loop that keeps the period, and then the
  timer is gone.\<close>

theorem scheduled_function_called_count_times:
  fixes st :: "('f, 'w) sched"
  assumes "\<And>f st. script f st = Inr (st\<lparr>world := run f (world st)\<rparr>)"
    and "sched_ok st" "fresh_ok st" "tail_live st" "tree st = []" "0 <s after" "0 <s count" "0 <s rep"
    and "length ts = nat (sint count)"
    and "paced (loop_time st) (get_clamped_due_time (loop_time st) (scast after)) (scast rep) ts"
    and "unat (timer_counter st) + length ts + 1 < 2 ^ 64"
  shows "\<exists>a st1 st2. lua_schedule_repeat (Some f) after count rep st = Inr (Some a, st1)
    \<and> rounds script ts st1 = Some (Inr st2) \<and> world st2 = (run f ^^ length ts) (world st)
    \<and> timers st2 = Map.empty \<and> tree st2 = []"
  using called_count_times [where script = script and run = run, OF assms] by blast

definition idle_sched :: "(nat, nat list) sched" where
  "idle_sched = \<lparr>loop_time = 100, timer_counter = 0, tree = [], handle_queue = [QOther], timers = Map.empty,
     repeats = Map.empty, next_addr = 0, handlers = Map.empty, ref_id = 0, world = []\<rparr>"

lemma idle_sched_ok: "sched_ok idle_sched" "fresh_ok idle_sched" "tail_live idle_sched" "tree idle_sched = []"
  by (simp_all add: sched_ok_def idle_sched_def fresh_ok_def tail_live_def)

theorem scheduled_function_called_count_times_witness:
  "\<exists>a st1 st2. lua_schedule_repeat (Some 7) 5 3 10 idle_sched = Inr (Some a, st1)
    \<and> rounds demo_script [105, 116, 130] st1 = Some (Inr st2) \<and> world st2 = [7, 7, 7]
    \<and> timers st2 = Map.empty \<and> tree st2 = []"
proof -
  have "\<exists>a st1 st2. lua_schedule_repeat (Some 7) 5 3 10 idle_sched = Inr (Some a, st1)
    \<and> rounds demo_script [105, 116, 130] st1 = Some (Inr st2)
    \<and> world st2 = ((\<lambda>w. w @ [7]) ^^ length [105 :: u64, 116, 130]) (world idle_sched)
    \<and> timers st2 = Map.empty \<and> tree st2 = []"
    by (rule scheduled_function_called_count_times [where run = "\<lambda>f w. w @ [f]"])
       (simp_all add: demo_script_def idle_sched_ok word_sless_alt, simp_all add: idle_sched_def get_clamped_due_time_def)
  then show ?thesis by (simp add: idle_sched_def)
qed

text \<open>C33: A script that cancels its own timer while it is called makes the callback read its user
  data after it was freed, whatever is left of the timer's count.\<close>

theorem cancel_in_own_call_reads_freed:
  fixes st :: "('f, 'w) sched"
  assumes ok: "sched_ok st" and due: "due_list st = a # as"
    and f: "timer_function st a = f" and cancel: "\<And>st. script f st = lua_schedule_cancel (Some a) st"
  shows "uv_process_timers (on_uv_timer script) st = Some (Inl UseAfterFree)"
proof -
  obtain bs where tree: "tree st = a # bs" and da: "due (timer_at st a) \<le> loop_time st"
    using due by (cases "tree st") (auto simp: due_list_def split: if_splits)
  have "a \<in> dom (timers st)" using ok tree by (auto simp: sched_ok_def)
  then obtain t where t: "timers st a = Some t" by blast
  then have "repeat_ok st t" using ok by (simp add: sched_ok_def timer_ok_def)
  then obtain tr where tr: "repeats st (udata t) = Some tr" "handlers st (tr_handler tr) = Some f"
    "repeat_count t = -1 \<or> 0 <s repeat_count t"
    using f by (auto simp: repeat_ok_def timer_function_def timer_handler_def t)
  obtain pre post where p: "rbind (uv_timer_stop a st) (uv_timer_again a)
       = Inr (st\<lparr>timer_counter := timer_counter st + 1,
                timers := (timers st)(a \<mapsto> t\<lparr>handle := rearmed st (handle t)\<rparr>), tree := pre @ a # post\<rparr>)"
    by (rule rearm [OF ok tree t])
  have act: "is_active (rearmed st (handle t))" by (simp add: rearmed_def)
  have "fire (on_uv_timer script) a st = Inl UseAfterFree"
    unfolding fire_def rbind_assoc [symmetric] p rbind_simps
    using tr act count_left(1) [of "repeat_count t"]
    by (auto simp: on_uv_timer_def on_lua_repeat_timer_def execute_script_handler_def cancel lua_schedule_cancel_def
        get_timer_udata_def cancel_timer_def uv_timer_stop_def free_repeat_def remove_script_handler_def
        set_timer_def set_handle_def free_timer_def Let_def)
  then show ?thesis
    using da by (subst uv_process_timers.simps) (simp add: tree t timer_at_def)
qed

theorem cancel_in_own_call_reads_freed_witness:
  "uv_process_timers (on_uv_timer (\<lambda>f. lua_schedule_cancel (Some 1))) demo_sched = Some (Inl UseAfterFree)"
  by (rule cancel_in_own_call_reads_freed [OF demo_sched_ok(1,3) refl]) (rule refl)

lemma schedule_behind_freed:
  assumes "handle_queue st \<noteq> []" "last (handle_queue st) = QTimer b" "b < next_addr st" "timers st b = None"
    "ref_id st \<noteq> -1" "0 <s after"
  shows "count \<noteq> 0 \<Longrightarrow> lua_schedule_repeat (Some g) after count rep st = Inl UseAfterFree"
    "lua_schedule_once (Some g) after st = Inl UseAfterFree"
proof -
  have "ref_id st + 1 \<noteq> 0" using assms(5) by (metis add.commute eq_neg_iff_add_eq_0)
  note facts = assms this sign_cases(3) [OF assms(6)]
  show "count \<noteq> 0 \<Longrightarrow> lua_schedule_repeat (Some g) after count rep st = Inl UseAfterFree"
    "lua_schedule_once (Some g) after st = Inl UseAfterFree"
    using facts
    by (auto simp: lua_schedule_repeat_def lua_schedule_once_def schedule_once_def schedule_repeat_def ref_function_def
        alloc_repeat_def alloc_timer_def uv_timer_init_def queue_insert_tail_def set_timer_def Let_def)
qed

text \<open>C32: After a scheduled function had its last call, and no other handle was made in between,
  every further use of \<open>Scheduler.schedule\<close> or \<open>Scheduler.once\<close> writes to freed memory: the
  timer is freed while it is still the last element of libuv's queue of handles.\<close>

theorem next_timer_writes_to_finished_one:
  fixes st :: "('f, 'w) sched"
  assumes "\<And>f st. script f st = Inr (st\<lparr>world := run f (world st)\<rparr>)"
    and "sched_ok st" "fresh_ok st" "tail_live st" "tree st = []" "0 <s after" "0 <s count" "0 <s rep"
    and "length ts = nat (sint count)"
    and "paced (loop_time st) (get_clamped_due_time (loop_time st) (scast after)) (scast rep) ts"
    and "unat (timer_counter st) + length ts + 1 < 2 ^ 64"
    and "ref_id st + 1 \<noteq> -1" "0 <s after'" "count' \<noteq> 0"
  shows "\<exists>a st1 st2. lua_schedule_repeat (Some f) after count rep st = Inr (Some a, st1)
    \<and> rounds script ts st1 = Some (Inr st2)
    \<and> lua_schedule_repeat (Some g) after' count' rep' st2 = Inl UseAfterFree
    \<and> lua_schedule_once (Some g) after' st2 = Inl UseAfterFree"
proof -
  obtain a st1 st2 where s: "lua_schedule_repeat (Some f) after count rep st = Inr (Some a, st1)"
    "rounds script ts st1 = Some (Inr st2)" "timers st2 = Map.empty"
    "handle_queue st2 = handle_queue st @ [QTimer a]" "a < next_addr st2" "ref_id st2 = ref_id st + 1"
    using called_count_times [where script = script and run = run, OF assms(1-11)] by blast
  moreover have "lua_schedule_repeat (Some g) after' count' rep' st2 = Inl UseAfterFree"
    "lua_schedule_once (Some g) after' st2 = Inl UseAfterFree"
    using schedule_behind_freed [of st2 a after'] assms(12-14) s by simp_all
  ultimately show ?thesis by blast
qed

theorem next_timer_writes_to_finished_one_witness:
  "\<exists>a st1 st2. lua_schedule_repeat (Some 7) 5 1 10 idle_sched = Inr (Some a, st1)
    \<and> rounds demo_script [105] st1 = Some (Inr st2)
    \<and> lua_schedule_repeat (Some 8) 5 1 10 st2 = Inl UseAfterFree
    \<and> lua_schedule_once (Some 8) 5 st2 = Inl UseAfterFree"
  by (rule next_timer_writes_to_finished_one [where run = "\<lambda>f w. w @ [f]"])
     (simp_all add: demo_script_def idle_sched_ok word_sless_alt, simp_all add: idle_sched_def get_clamped_due_time_def)

end
