(* ===== verification/End_To_End.thy ===== *)
theory End_To_End
  imports Netbus
begin

text \<open>
  From one server to another: the commands that a service of one process sends with
  \<open>session::send_msg\<close> over a TCP session, and the commands that the services of the process at
  the other end of the connection are called with. Between them lie \<open>encode_msg_to_raw\<close>,
  \<open>tp_protocol::package\<close>, the network, which cuts the bytes as it likes, \<open>uv_alloc_buf\<close>,
  \<open>after_read\<close>, \<open>on_recv_tcp_data\<close>, \<open>decode_raw_cmd\<close>, \<open>decode_cmd_msg\<close> and the service table.
\<close>

section \<open>Sending\<close>

primrec send_all :: "'m env \<Rightarrow> sid \<Rightarrow> 'm cmd_msg list \<Rightarrow> ('a, 'm) node \<Rightarrow> ('a, 'm) node result" where
  "send_all E i [] n = Inr n"
| "send_all E i (m # ms) n = rbind (send_msg E i m n) (send_all E i ms)"

definition payload :: "'m protobuf \<Rightarrow> 'm cmd_msg \<Rightarrow> byte list option" where
  "payload lib msg =
     (case body msg of
        None \<Rightarrow> Some []
      | Some (PbBody m) \<Rightarrow> serialize_partial lib m (byte_size lib m)
      | Some (JsonBody _) \<Rightarrow> None)"

definition packet :: "'m protobuf \<Rightarrow> 'm cmd_msg \<Rightarrow> byte list" where
  "packet lib msg = fst (tp_package (header_bytes msg @ the (payload lib msg)))"

lemma send_msg_packet:
  assumes "sessions n i = Some (UvSession s)" "socket_type s = TCP_SOCKET" "wbuf_ok (wbuf E)" "serializer_ok (pb E)"
    "g_proto_type (protos n) = PROTO_BUF" "payload (pb E) msg = Some bs"
  shows "send_msg E i msg n
    = Inr (emit (UvWrite i (OwnBlock (packet (pb E) msg)) AfterWrite) (n\<lparr>wr_live := wr_live n + 1\<rparr>))"
proof -
  have d: "send_data i (header_bytes msg @ bs) n
    = Inr (emit (UvWrite i (OwnBlock (packet (pb E) msg)) AfterWrite) (n\<lparr>wr_live := wr_live n + 1\<rparr>))"
    using assms(1,2,6) by (simp add: send_data_def uv_send_data_def Let_def packet_def case_prod_unfold)
  show ?thesis
  proof (cases "body msg")
    case None
    then have "bs = []" using assms(6) by (simp add: payload_def)
    obtain raw where "encode_msg_to_raw (pb E) (wbuf E) (protos n) msg = Inr (Some (raw, 8))" "take 8 raw = header_bytes msg"
      by (rule encode_empty [OF assms(3) None, of "protos n" "pb E"]) (use assms(5) in simp)
    then show ?thesis using d \<open>bs = []\<close> by (simp add: send_msg_def)
  next
    case (Some b)
    then obtain m where b: "body msg = Some (PbBody m)" "serialize_partial (pb E) m (byte_size (pb E) m) = Some bs"
      using assms(6) by (cases b) (simp_all add: payload_def)
    obtain raw where "encode_msg_to_raw (pb E) (wbuf E) (protos n) msg = Inr (Some (raw, 8 + length bs))"
      "take (8 + length bs) raw = header_bytes msg @ bs"
      by (rule encode_pb [OF assms(3-5) b])
    then show ?thesis using d by (simp add: send_msg_def)
  qed
qed

lemma send_all_packets:
  assumes "sessions n i = Some (UvSession s)" "socket_type s = TCP_SOCKET" "wbuf_ok (wbuf E)" "serializer_ok (pb E)"
    "g_proto_type (protos n) = PROTO_BUF" "\<forall>m\<in>set msgs. payload (pb E) m \<noteq> None"
  shows "\<exists>n'. send_all E i msgs n = Inr n'
    \<and> events n' = events n @ map (\<lambda>m. UvWrite i (OwnBlock (packet (pb E) m)) AfterWrite) msgs"
  using assms
proof (induction msgs arbitrary: n)
  case (Cons m ms)
  let ?n = "emit (UvWrite i (OwnBlock (packet (pb E) m)) AfterWrite) (n\<lparr>wr_live := wr_live n + 1\<rparr>)"
  obtain bs where "payload (pb E) m = Some bs" using Cons.prems(6) by auto
  from send_msg_packet [OF Cons.prems(1-5) this] have "send_msg E i m n = Inr ?n" .
  moreover obtain n' where "send_all E i ms ?n = Inr n'"
    "events n' = events ?n @ map (\<lambda>m. UvWrite i (OwnBlock (packet (pb E) m)) AfterWrite) ms"
    using Cons.IH [of ?n] Cons.prems by (auto simp: emit_def)
  ultimately show ?case by (simp add: emit_def)
qed simp

section \<open>The stream\<close>

lemma frame_at_packet:
  assumes "length (header_bytes msg @ the (payload lib msg)) + 2 < 65536"
  shows "frame_at tp_read_header (packet lib msg @ rest) = Some (int (length (packet lib msg)), 2)"
proof -
  have h: "tp_read_header (packet lib msg) (int (length (packet lib msg))) = Some (int (length (packet lib msg)), 2)"
    using tp_package_header [of "header_bytes msg @ the (payload lib msg)"] assms
    by (simp add: packet_def tp_package_length)
  have l: "0 < length (packet lib msg)" by (simp add: packet_def tp_package_length)
  then have "frame_at tp_read_header (packet lib msg) = Some (int (length (packet lib msg)), 2)"
    using h by (simp add: frame_at_def)
  then show ?thesis by (rule tp_framing.frame_at_append)
qed

lemma frames_packets:
  assumes "\<forall>m\<in>set msgs. length (header_bytes m @ the (payload lib m)) + 2 < 65536"
  shows "frames tp_read_header (concat (map (packet lib) msgs)) = (map (\<lambda>m. (packet lib m, 2)) msgs, [])"
  using assms
proof (induction msgs)
  case (Cons m ms)
  then have "frame_at tp_read_header (packet lib m @ concat (map (packet lib) ms)) = Some (int (length (packet lib m)), 2)"
    by (intro frame_at_packet) simp
  from frames_Some [OF this] Cons show ?case by simp
qed simp

section \<open>Dispatch\<close>

text \<open>No method of a service changes the command map.\<close>

lemma protos_send_data: "send_data i bs n = Inr n' \<Longrightarrow> protos n' = protos n"
  by (auto simp: send_data_def uv_send_data_def emit_def Let_def split: option.splits session.splits if_splits prod.splits)

definition keeps_protos :: "(('a, 'm) node \<Rightarrow> ('a, 'm) node result) \<Rightarrow> bool" where
  "keeps_protos f \<longleftrightarrow> (\<forall>n n'. f n = Inr n' \<longrightarrow> protos n' = protos n)"

lemma protos_do_action:
  assumes "\<forall>i. keeps_protos (cl i)"
  shows "keeps_protos (do_action E cl a)"
  using assms unfolding keeps_protos_def
  by (cases a) (auto simp: send_msg_def send_raw_cmd_def update_session_def put_session_def
      dest: protos_send_data split: sum.splits option.splits)

lemma protos_run_prog:
  assumes "\<forall>i. keeps_protos (cl i)" "run_prog E cl p n = Inr (b, n')"
  shows "protos n' = protos n"
  by (rule run_prog_inv [where I = "\<lambda>m. protos m = protos n", OF assms(2) all_actions_True])
     (use protos_do_action [OF assms(1)] in \<open>auto simp: keeps_protos_def\<close>)

lemma protos_close: "\<forall>i. keeps_protos (close_session E depth i)"
proof (induction depth)
  case (Suc depth)
  show ?case
    unfolding keeps_protos_def
  proof (intro allI impI)
    fix i and n n' :: "('a, 'b) node"
    assume c: "close_session E (Suc depth) i n = Inr n'"
    have b: "protos m = protos n" if "broadcast_disconnect E (close_session E depth) i n = Inr m" for m
    proof (rule notify_inv [where I = "\<lambda>m. protos m = protos n", OF that [unfolded broadcast_disconnect_def]])
      fix k svc b and m m' :: "('a, 'b) node"
      assume "protos m = protos n" "run_prog E (close_session E depth) (on_session_disconnect svc i (int k)) m = Inr (b, m')"
      then show "protos m' = protos n" using protos_run_prog [OF Suc.IH] by metis
    qed simp
    have "protos m' = protos m" if "shutdown_session E i m = Inr m'" for m m' :: "('a, 'b) node"
      using that by (auto simp: shutdown_session_def Let_def emit_def put_session_def split: option.splits session.splits)
    with b c show "protos n' = protos n"
      by (auto split: option.splits session.splits if_splits elim!: rbind_InrE)
  qed
qed (simp add: keeps_protos_def)

lemma protos_closeD: "close_session E depth i n = Inr n' \<Longrightarrow> protos n' = protos n"
  using protos_close [of E depth] unfolding keeps_protos_def by blast

text \<open>
  What is done with one command: the method of the service that is registered for its type, and
  the end of the session if the method refuses.
\<close>

definition handle_msg :: "'m env \<Rightarrow> nat \<Rightarrow> sid \<Rightarrow> 'm cmd_msg \<Rightarrow> ('a, 'm) node \<Rightarrow> ('a, 'm) node result" where
  "handle_msg E depth i msg n =
     rbind (run_prog E (close_session E depth)
              (on_session_recv_cmd (the (slot_of (g_service_set n) (stype msg))) i msg) n)
       (\<lambda>(ok, n). if ok then Inr n else close_session E depth i n)"

text \<open>A command that the receiver can read, of the bytes the sender's library makes of it.\<close>

definition understood :: "'m protobuf \<Rightarrow> 'm protobuf \<Rightarrow> proto_state \<Rightarrow> 'm cmd_msg \<Rightarrow> bool" where
  "understood lib lib' ps msg \<longleftrightarrow>
     0 \<le> ctype msg \<and> ctype msg < 65536 \<and>
     (case payload lib msg of
        None \<Rightarrow> False
      | Some bs \<Rightarrow> length bs + 10 \<le> 4096 \<and>
          (\<forall>m. body msg = Some (PbBody m) \<longrightarrow> bs \<noteq> [] \<and>
             (\<exists>name m0. g_pb_cmd_map ps (ctype msg) = Some name \<and> create_message lib' name = Some m0
                \<and> parse_from_array lib' m0 bs = Some m)))"

definition served :: "('a, 'm) service option list \<Rightarrow> 'm cmd_msg \<Rightarrow> bool" where
  "served tab msg \<longleftrightarrow>
     (case slot_of tab (stype msg) of None \<Rightarrow> False | Some svc \<Rightarrow> \<not> using_raw_cmd svc)"

lemma understood_payload:
  assumes "understood lib lib' ps msg"
  shows "payload lib msg \<noteq> None" "length (header_bytes msg @ the (payload lib msg)) + 2 \<le> 4096"
  using assms by (auto simp: understood_def mem_simps split: option.splits)

lemma decode_understood:
  assumes "understood lib lib' ps msg" "0 \<le> stype msg" "stype msg < 65536" "g_proto_type ps = PROTO_BUF"
    and "payload lib msg = Some bs"
  shows "decode_cmd_msg lib' (header_bytes msg @ bs) (8 + int (length bs)) ps = (Some msg, ps)"
proof (cases "body msg")
  case None
  then have "bs = []" using assms(5) by (simp add: payload_def)
  then show ?thesis
    using assms decode_empty_msg [of lib' msg ps] None by (simp add: understood_def)
next
  case (Some b)
  then obtain m where b: "body msg = Some (PbBody m)"
    using assms(5) by (cases b) (simp_all add: payload_def)
  obtain name m0 where "bs \<noteq> []" "g_pb_cmd_map ps (ctype msg) = Some name" "create_message lib' name = Some m0"
    "parse_from_array lib' m0 bs = Some m"
    using assms(1,5) b by (auto simp: understood_def)
  then show ?thesis
    using decode_pb_msg [of ps bs msg name lib' m0 m] assms b
    by (simp add: understood_def PROTO_BUF_def PROTO_JSON_def)
qed

lemma dispatch_packet:
  assumes "understood lib (pb E) (protos n) msg" "served (g_service_set n) msg" "length (g_service_set n) = MAX_SERVICE"
    and "g_proto_type (protos n) = PROTO_BUF"
  shows "dispatch_tcp E depth i (packet lib msg, 2) n = handle_msg E depth i msg n"
proof -
  obtain bs where bs: "payload lib msg = Some bs" using understood_payload(1) [OF assms(1)] by blast
  have p: "drop 2 (packet lib msg) = header_bytes msg @ bs" "int (length (packet lib msg)) - 2 = 8 + int (length bs)"
    by (simp_all add: packet_def bs tp_package_body tp_package_length mem_simps)
  obtain svc where svc: "slot_of (g_service_set n) (stype msg) = Some svc" "\<not> using_raw_cmd svc"
    using assms(2) by (auto simp: served_def split: option.splits)
  then have at: "service_at (g_service_set n) (stype msg) = Inr (Some svc)"
    by (auto simp: slot_of_def split: sum.splits)
  then have st: "0 \<le> stype msg" "stype msg < 65536"
    using assms(3) by (auto simp: service_at_def MAX_SERVICE_def split: if_splits)
  have ct: "ctype msg mod 65536 = ctype msg" using assms(1) by (simp add: understood_def)
  have "on_recv_raw_cmd E depth i \<lparr>raw_stype = stype msg, raw_ctype = ctype msg, raw_utag = utag msg,
           raw_data = header_bytes msg @ bs, raw_len = 8 + int (length bs)\<rparr> n
      = run_prog E (close_session E depth) (on_session_recv_cmd svc i msg) n"
    using svc decode_understood [OF assms(1) st assms(4) bs] by (simp add: on_recv_raw_cmd_def at)
  then show ?thesis
    using st ct svc(1)
    by (simp add: dispatch_tcp_def p on_recv_client_command_def decode_raw_header handle_msg_def)
qed

lemma handle_keeps:
  assumes "handle_msg E depth i msg n = Inr n'"
  shows "protos n' = protos n" "g_service_set n' = g_service_set n"
proof -
  obtain ok m where m: "run_prog E (close_session E depth)
      (on_session_recv_cmd (the (slot_of (g_service_set n) (stype msg))) i msg) n = Inr (ok, m)"
    "(if ok then Inr m else close_session E depth i m) = Inr n'"
    using assms by (auto simp: handle_msg_def elim!: rbind_InrE)
  then show "protos n' = protos n"
    using protos_run_prog [OF protos_close m(1)] protos_closeD [of E depth i m n'] by (auto split: if_splits)
  have "progress n n'"
  proof -
    have "progress n m" by (rule progress_run_prog [OF _ m(1)]) (rule progress_close)
    then show ?thesis
      using m(2) progress_close [of E depth i m n'] by (auto split: if_splits intro: progress_trans)
  qed
  then show "g_service_set n' = g_service_set n" by (rule progress_services)
qed

lemma deliver_packets:
  assumes "\<forall>m\<in>set msgs. understood lib (pb E) (protos n) m" "\<forall>m\<in>set msgs. served (g_service_set n) m"
    and "length (g_service_set n) = MAX_SERVICE" "g_proto_type (protos n) = PROTO_BUF"
  shows "deliver (dispatch_tcp E depth i) (map (\<lambda>m. (packet lib m, 2)) msgs) n = deliver (handle_msg E depth i) msgs n"
  using assms
proof (induction msgs arbitrary: n)
  case (Cons m ms)
  have d: "dispatch_tcp E depth i (packet lib m, 2) n = handle_msg E depth i m n"
    by (rule dispatch_packet) (use Cons.prems in simp_all)
  show ?case
  proof (cases "handle_msg E depth i m n")
    case (Inr n')
    with handle_keeps [OF Inr] Cons d show ?thesis by simp
  qed (simp add: d)
qed simp

section \<open>From sender to receiver\<close>

text \<open>
  C1: Commands arrive. What a service sends over a TCP session, in any number of commands that
  the receiver's libraries and services know, reaches the services behind the connection as the
  same commands, in the same order and each exactly once, however the network cuts the bytes
  into reads; nothing is left in the buffer.
\<close>

theorem sent_commands_dispatched:
  assumes "sessions n1 j = Some (UvSession s)" "socket_type s = TCP_SOCKET"
    and "wbuf_ok (wbuf E1)" "serializer_ok (pb E1)" "g_proto_type (protos n1) = PROTO_BUF"
    and "length (g_service_set n2) = MAX_SERVICE" "g_proto_type (protos n2) = PROTO_BUF"
    and "\<forall>m\<in>set msgs. understood (pb E1) (pb E2) (protos n2) m \<and> served (g_service_set n2) m"
    and "length block_buf = 4096"
  shows "\<exists>n1' es. send_all E1 j msgs n1 = Inr n1' \<and> events n1' = events n1 @ es \<and>
    concat (map (wire_bytes n1') es) = concat (map (packet (pb E1)) msgs) \<and>
    (\<forall>cs. concat (map snd cs) = concat (map (wire_bytes n1') es) \<and> pieces_fit tp_read_header [] (map snd cs) \<longrightarrow>
      (\<exists>r'. received r' = [] \<and>
         reads (\<lambda>buf. uv_read E2 depth stack malloc buf i) cs
             (hs, uv_connection i block_buf bt TCP_SOCKET peer n2) =
           Some (map_result (\<lambda>n. (hs, set_rx i r' n))
             (deliver (handle_msg E2 depth i) msgs (uv_connection i block_buf bt TCP_SOCKET peer n2)))))"
proof -
  let ?conn = "uv_connection i block_buf bt TCP_SOCKET peer n2"
  let ?es = "map (\<lambda>m. UvWrite j (OwnBlock (packet (pb E1) m)) AfterWrite) msgs"
  have pl: "\<forall>m\<in>set msgs. payload (pb E1) m \<noteq> None"
    and len: "\<forall>m\<in>set msgs. length (header_bytes m @ the (payload (pb E1) m)) + 2 \<le> 4096"
    using assms(8) understood_payload by blast+
  obtain n1' where n1': "send_all E1 j msgs n1 = Inr n1'" "events n1' = events n1 @ ?es"
    using send_all_packets [OF assms(1-5) pl] by blast
  have wire: "concat (map (wire_bytes n1') ?es) = concat (map (packet (pb E1)) msgs)"
    by (simp add: comp_def wire_bytes_def)
  have len': "\<forall>m\<in>set msgs. length (header_bytes m @ the (payload (pb E1) m)) + 2 < 65536" using len by force
  note fr = frames_packets [OF len']
  have pk: "length (packet (pb E1) m) \<le> 4096" if "m \<in> set msgs" for m
    using len that by (simp add: packet_def tp_package_length)
  have fit: "fits tp_read_header (concat (map (packet (pb E1)) msgs))"
    using pk by (auto simp: fits_def fr RECV_LEN_def zero_size_at_def)
  have cn: "protos ?conn = protos n2" "g_service_set ?conn = g_service_set n2"
    by (simp_all add: uv_connection_def emit_def put_session_def)
  have dl: "deliver (dispatch_tcp E2 depth i) (map (\<lambda>m. (packet (pb E1) m, 2)) msgs) ?conn
      = deliver (handle_msg E2 depth i) msgs ?conn"
    by (rule deliver_packets) (use assms(6-8) cn in simp_all)
  have "\<exists>r'. received r' = [] \<and> reads (\<lambda>buf. uv_read E2 depth stack malloc buf i) cs (hs, ?conn) =
      Some (map_result (\<lambda>n. (hs, set_rx i r' n)) (deliver (handle_msg E2 depth i) msgs ?conn))"
    if "concat (map snd cs) = concat (map (packet (pb E1)) msgs)" "pieces_fit tp_read_header [] (map snd cs)" for cs
  proof -
    have "\<exists>r'. rx_ok r' \<and> received r' = [] \<and> reads (\<lambda>buf. uv_read E2 depth stack malloc buf i) cs (hs, ?conn) =
      Some (map_result (\<lambda>n. (hs, set_rx i r' n)) (deliver (dispatch_tcp E2 depth i) (map (\<lambda>m. (packet (pb E1) m, 2)) msgs) ?conn))"
      by (rule tcp_stream_reads [OF accepted_at]) (use that fit fr assms(9) accepted_rx_ok in simp_all)
    then show ?thesis unfolding dl by blast
  qed
  then show ?thesis using n1' wire by (intro exI [of _ n1'] exI [of _ ?es]) simp
qed

text \<open>A service that keeps the commands it gets, and two commands in two reads.\<close>

definition recorder :: "(byte list cmd_msg list, byte list) service" where
  "recorder = service_default\<lparr>on_session_recv_cmd := (\<lambda>i m. GetApp (\<lambda>a. PutApp (a @ [m]) (Ret True)))\<rparr>"

definition recording_node :: "(byte list cmd_msg list, byte list) node" where
  "recording_node = (demo_node recorder [])\<lparr>protos := register_protobuf_cmd_map [(3, ''Echo'')] proto_state_init\<rparr>"

definition two_msgs :: "byte list cmd_msg list" where
  "two_msgs = [\<lparr>stype = 3, ctype = 3, utag = 9, body = Some (PbBody [4, 5])\<rparr>, \<lparr>stype = 3, ctype = 7, utag = 8, body = None\<rparr>]"

lemma two_packets: "map (packet echo_pb) two_msgs = [[12, 0, 3, 0, 3, 0, 9, 0, 0, 0, 4, 5], [10, 0, 3, 0, 7, 0, 8, 0, 0, 0]]"
  by (simp add: two_msgs_def packet_def payload_def echo_pb_def tp_package_eq header_bytes_def u16_bytes_def u32_bytes_def
      drop_bit_eq_div)

lemma recorder_handles:
  assumes "g_service_set n = g_service_set recording_node"
  shows "deliver (handle_msg demo_env depth i) two_msgs n = Inr (n\<lparr>app := app n @ two_msgs\<rparr>)"
proof -
  have "slot_of (g_service_set recording_node) 3 = Some recorder"
    using demo_node_table(1,2) [of recorder "[]"]
    by (simp add: recording_node_def slot_of_def service_at_def MAX_SERVICE_def)
  then show ?thesis by (simp add: two_msgs_def handle_msg_def recorder_def assms)
qed

definition sending_node :: "(unit, byte list) node" where
  "sending_node = demo_node service_default ()"

lemma sending_session:
  "sessions sending_node 1 = Some (UvSession (uv_session_create (replicate 4096 0) TCP_SOCKET))"
  unfolding sending_node_def by (rule demo_node_session)

theorem sent_commands_dispatched_witness:
  "\<exists>n1' es. send_all demo_env 1 two_msgs sending_node = Inr n1'
    \<and> events n1' = es \<and> concat (map (wire_bytes n1') es)
        = [12, 0, 3, 0, 3, 0, 9, 0, 0, 0, 4, 5, 10, 0, 3, 0, 7, 0, 8, 0, 0, 0]
    \<and> (\<exists>r' n. reads (\<lambda>buf. uv_read demo_env 9 [] (\<lambda>_. None) buf 1)
           [(None, [12, 0, 3, 0, 3]), (None, [0, 9, 0, 0, 0, 4, 5, 10, 0, 3, 0, 7, 0, 8, 0, 0, 0])]
           (ws_hs0, uv_connection 1 (replicate 4096 0) TCP_SOCKET TCP_SOCKET (''1.2.3.4'', 5) recording_node)
         = Some (Inr (ws_hs0, set_rx 1 r' n)) \<and> app n = two_msgs)"
proof -
  let ?cs = "[(None :: uv_buf option, [12 :: byte, 0, 3, 0, 3]), (None, [0, 9, 0, 0, 0, 4, 5, 10, 0, 3, 0, 7, 0, 8, 0, 0, 0])]"
  let ?conn = "uv_connection 1 (replicate 4096 0) TCP_SOCKET TCP_SOCKET (''1.2.3.4'', 5) recording_node"
  have w: "concat (map (packet (pb demo_env)) two_msgs) = concat (map snd ?cs)"
    using two_packets by (simp add: demo_env_def)
  have fr: "frames tp_read_header [12, 0, 3, 0, 3] = ([], [12, 0, 3, 0, 3])"
    by (simp add: frames.simps tp_read_header_def le16_def sint_u32_small)
  have pieces: "pieces_fit tp_read_header [] (map snd ?cs)" by (simp add: fr RECV_LEN_def)
  have tab: "slot_of (g_service_set recording_node) 3 = Some recorder"
    using demo_node_table(1,2) [of recorder "[]"]
    by (simp add: recording_node_def slot_of_def service_at_def MAX_SERVICE_def)
  have "\<exists>n1' es. send_all demo_env 1 two_msgs sending_node = Inr n1' \<and>
    events n1' = events sending_node @ es \<and>
    concat (map (wire_bytes n1') es) = concat (map (packet (pb demo_env)) two_msgs) \<and>
    (\<forall>cs. concat (map snd cs) = concat (map (wire_bytes n1') es) \<and> pieces_fit tp_read_header [] (map snd cs) \<longrightarrow>
      (\<exists>r'. received r' = [] \<and> reads (\<lambda>buf. uv_read demo_env 9 [] (\<lambda>_. None) buf 1) cs (ws_hs0, ?conn) =
         Some (map_result (\<lambda>n. (ws_hs0, set_rx 1 r' n)) (deliver (handle_msg demo_env 9 1) two_msgs ?conn))))"
  proof (rule sent_commands_dispatched [OF sending_session])
    have "served (g_service_set recording_node) m" if "m \<in> set two_msgs" for m
      using that tab by (auto simp: two_msgs_def served_def recorder_def service_default_def)
    moreover have "\<forall>m\<in>set two_msgs. understood (pb demo_env) (pb demo_env) (protos recording_node) m"
      by (simp add: two_msgs_def understood_def demo_env_def payload_def echo_pb_def recording_node_def
          register_protobuf_cmd_map_def)
    ultimately show "\<forall>m\<in>set two_msgs. understood (pb demo_env) (pb demo_env) (protos recording_node) m
        \<and> served (g_service_set recording_node) m" by blast
  qed (simp_all add: uv_session_create_def demo_env_def wbuf_ok_def serializer_ok_def echo_pb_def demo_node_def sending_node_def
      proto_state_init_def recording_node_def register_protobuf_cmd_map_def)
  then obtain n1' es where 1: "send_all demo_env 1 two_msgs sending_node = Inr n1'"
    "events n1' = events sending_node @ es"
    "concat (map (wire_bytes n1') es) = concat (map snd ?cs)"
    "\<And>cs. concat (map snd cs) = concat (map (wire_bytes n1') es) \<Longrightarrow> pieces_fit tp_read_header [] (map snd cs) \<Longrightarrow>
      \<exists>r'. received r' = [] \<and> reads (\<lambda>buf. uv_read demo_env 9 [] (\<lambda>_. None) buf 1) cs (ws_hs0, ?conn) =
         Some (map_result (\<lambda>n. (ws_hs0, set_rx 1 r' n)) (deliver (handle_msg demo_env 9 1) two_msgs ?conn))"
    unfolding w by blast
  obtain r' where "reads (\<lambda>buf. uv_read demo_env 9 [] (\<lambda>_. None) buf 1) ?cs (ws_hs0, ?conn) =
         Some (map_result (\<lambda>n. (ws_hs0, set_rx 1 r' n)) (deliver (handle_msg demo_env 9 1) two_msgs ?conn))"
    using 1(4) [OF 1(3) [symmetric] pieces] by blast
  moreover have "deliver (handle_msg demo_env 9 1) two_msgs ?conn = Inr (?conn\<lparr>app := app ?conn @ two_msgs\<rparr>)"
    by (rule recorder_handles) (simp add: uv_connection_def put_session_def emit_def)
  moreover have "app ?conn = []" by (simp add: uv_connection_def put_session_def emit_def recording_node_def demo_node_def)
  ultimately have "\<exists>r' n. reads (\<lambda>buf. uv_read demo_env 9 [] (\<lambda>_. None) buf 1) ?cs (ws_hs0, ?conn)
      = Some (Inr (ws_hs0, set_rx 1 r' n)) \<and> app n = two_msgs"
    by (intro exI [of _ r'] exI [of _ "?conn\<lparr>app := app ?conn @ two_msgs\<rparr>"]) simp
  moreover have "events n1' = es" using 1(2) by (simp add: sending_node_def demo_node_def)
  ultimately show ?thesis using 1(1,3) by (intro exI [of _ n1'] exI [of _ es] conjI) simp_all
qed

end
