(* ===== verification/Database.thy ===== *)
theory Database
  imports Hyxd_Base "HOL-Library.Multiset"
begin

text \<open>
  The two database clients, \<open>database/redis_wrapper.cc\<close> and \<open>mysql_wrapper.cc\<close>, on the
  thread pool of libuv (\<open>3rd/libuv/src/threadpool.c\<close>): connecting, querying and closing are
  requests that the thread of the loop queues, that a worker thread executes, and whose
  completion the thread of the loop delivers to a callback. The threads run interleaved: a step
  of the relation \<open>db_step\<close> is one access of one thread to what it shares with the others (the
  queues, a connection's context, its mutex). The two clients differ in the functions they pass
  to \<open>uv_queue_work\<close>; these are a \<open>driver\<close>, and the locale \<open>db_driver\<close> is what the common
  proof needs of them, interpreted for both.

  The client libraries (hiredis, libmysql) are not in the repository: what they answer to a call
  is part of a step's label, the null pointer included. A handle they are given must be one that
  they returned and that was not closed; anything else is an error of the C program. The text of
  a query is passed to \<open>redisCommand\<close> as its format: what hiredis makes of a format without
  arguments is the parameter \<open>fmt\<close>, \<open>None\<close> if the format asks for an argument.

  The work functions take memory from \<open>small_alloc\<close>, which has no lock (theory \<open>Cache_Race\<close>
  has what two calls at once do to its free list). A thread enters it and leaves it in two
  steps; if it enters while another thread is inside, the program has a data race, and its run
  ends in \<open>DataRace\<close>. The thread of the loop is inside for the length of one of its own steps: a
  worker that would enter meanwhile could as well have entered just before.
\<close>

section \<open>Memory shared by the threads\<close>

text \<open>
  \<open>struct redis_context\<close> and \<open>struct mysql_context\<close>. A mutex is the thread that holds it. No
  function locks a mutex that its thread holds already.
\<close>

record db_context =
  pConn :: "nat option"
  ctx_lock :: "nat option"
  is_closed :: bool

record db_mem =
  contexts :: "nat \<Rightarrow> db_context option"
  live_conns :: "nat set"
  allocating :: "nat option"     \<comment> \<open>the worker inside \<open>small_alloc\<close>\<close>

record 'c connect_req =
  c_args :: 'c
  c_udata :: nat
  c_err :: "string option"
  c_context :: "nat option"

record 'v query_req =
  q_context :: nat
  q_cmd :: string
  q_udata :: nat
  q_err :: "string option"
  q_result :: "'v option"

text \<open>An access of a worker: it waits, it goes on, or it fails.\<close>

datatype 'x outcome = Blocks | Goes 'x | Fails c_error

definition obind :: "'x outcome \<Rightarrow> ('x \<Rightarrow> 'y outcome) \<Rightarrow> 'y outcome" where
  "obind x f = (case x of Blocks \<Rightarrow> Blocks | Goes y \<Rightarrow> f y | Fails e \<Rightarrow> Fails e)"

lemma obind_simps [simp]: "obind Blocks f = Blocks" "obind (Goes y) f = f y" "obind (Fails e) f = Fails e"
  by (simp_all add: obind_def)

definition the_context :: "nat \<Rightarrow> db_mem \<Rightarrow> db_context outcome" where
  "the_context a m = (case contexts m a of None \<Rightarrow> Fails UseAfterFree | Some c \<Rightarrow> Goes c)"

definition put_context :: "nat \<Rightarrow> db_context \<Rightarrow> db_mem \<Rightarrow> db_mem" where
  "put_context a c m = m\<lparr>contexts := (contexts m)(a \<mapsto> c)\<rparr>"

definition uv_mutex_lock :: "nat \<Rightarrow> nat \<Rightarrow> db_mem \<Rightarrow> db_mem outcome" where
  "uv_mutex_lock t a m = obind (the_context a m) (\<lambda>c.
     if ctx_lock c = None then Goes (put_context a (c\<lparr>ctx_lock := Some t\<rparr>) m) else Blocks)"

definition uv_mutex_unlock :: "nat \<Rightarrow> db_mem \<Rightarrow> db_mem outcome" where
  "uv_mutex_unlock a m = obind (the_context a m) (\<lambda>c. Goes (put_context a (c\<lparr>ctx_lock := None\<rparr>) m))"

text \<open>
  A call of \<open>small_alloc\<close> on thread \<open>t\<close>. What the call changes, memory that no other thread has
  a pointer to yet, is put at its start.
\<close>

definition small_alloc_enter :: "nat \<Rightarrow> db_mem \<Rightarrow> db_mem outcome" where
  "small_alloc_enter t m =
     (if allocating m = None then Goes (m\<lparr>allocating := Some t\<rparr>) else Fails DataRace)"

definition small_alloc_leave :: "db_mem \<Rightarrow> db_mem" where
  "small_alloc_leave m = m\<lparr>allocating := None\<rparr>"

text \<open>A handle that is passed to its library.\<close>

definition library_handle :: "nat option \<Rightarrow> db_mem \<Rightarrow> nat outcome" where
  "library_handle rc m =
     (case rc of None \<Rightarrow> Fails NullDeref
      | Some k \<Rightarrow> if k \<in> live_conns m then Goes k else Fails UseAfterFree)"

text \<open>
  What happens, in order: a query is accepted, a command goes to the server and is answered, a
  callback is called.
\<close>

datatype ('v, 'a) event =
    Asked nat string nat                                  \<comment> \<open>context, command, \<open>udata\<close>\<close>
  | Command nat nat string 'a                             \<comment> \<open>of whose \<open>udata\<close>, on which handle\<close>
  | Answered "string option" "'v option" nat              \<comment> \<open>\<open>query_cb(err, result, udata)\<close>\<close>
  | Opened "string option" "nat option" nat               \<comment> \<open>\<open>open_cb(err, context, udata)\<close>\<close>

section \<open>The functions the workers run\<close>

text \<open>
  \<open>connect_work\<close>. \<open>ans\<close> is what the library answers: the object it allocated and the text
  of the error if the connection failed, or null. \<open>a\<close> is the address of the new context. A
  \<open>MYSQL\<close> object whose connection failed is never closed. The context, or the copy of the
  error's text, comes from \<open>small_alloc\<close>: the function is inside it at \<open>K_Inside\<close>.
\<close>

datatype connect_pos = K_Begin | K_Inside

fun redis_connect_work ::
  "nat \<Rightarrow> (string option \<times> nat) option \<Rightarrow> nat \<Rightarrow> 'c connect_req \<Rightarrow> connect_pos \<Rightarrow> db_mem
     \<Rightarrow> ('c connect_req \<times> connect_pos option \<times> db_mem) outcome" where
  "redis_connect_work t ans a r K_Begin m =
     (case ans of
        None \<Rightarrow> Fails NullDeref
      | Some (Some e, rc) \<Rightarrow>
          obind (small_alloc_enter t m) (\<lambda>m. Goes (r\<lparr>c_err := Some e, c_context := None\<rparr>, Some K_Inside, m))
      | Some (None, rc) \<Rightarrow>
          obind (small_alloc_enter t m) (\<lambda>m.
            Goes (r\<lparr>c_err := None, c_context := Some a\<rparr>, Some K_Inside,
                  put_context a \<lparr>pConn = Some rc, ctx_lock = None, is_closed = False\<rparr>
                    (m\<lparr>live_conns := insert rc (live_conns m)\<rparr>))))"
| "redis_connect_work t ans a r K_Inside m = Goes (r, None, small_alloc_leave m)"

fun mysql_connect_work ::
  "nat \<Rightarrow> (string option \<times> nat) option \<Rightarrow> nat \<Rightarrow> 'c connect_req \<Rightarrow> connect_pos \<Rightarrow> db_mem
     \<Rightarrow> ('c connect_req \<times> connect_pos option \<times> db_mem) outcome" where
  "mysql_connect_work t ans a r K_Begin m =
     (case ans of
        None \<Rightarrow> Fails NullDeref
      | Some (None, conn) \<Rightarrow>
          obind (small_alloc_enter t m) (\<lambda>m.
            Goes (r\<lparr>c_err := None, c_context := Some a\<rparr>, Some K_Inside,
                  put_context a \<lparr>pConn = Some conn, ctx_lock = None, is_closed = False\<rparr>
                    (m\<lparr>live_conns := insert conn (live_conns m)\<rparr>)))
      | Some (Some e, conn) \<Rightarrow>
          obind (small_alloc_enter t m) (\<lambda>m.
            Goes (r\<lparr>c_err := Some e, c_context := None\<rparr>, Some K_Inside,
                  m\<lparr>live_conns := insert conn (live_conns m)\<rparr>)))"
| "mysql_connect_work t ans a r K_Inside m = Goes (r, None, small_alloc_leave m)"

text \<open>
  \<open>query_work\<close> and \<open>close_work\<close>, one access at a time. A position holds the local variables
  that are still needed; \<open>None\<close> is the return. \<open>t\<close> is the worker. The reply of hiredis is
  read (\<open>replay->type\<close>) without a check for null; the text of an error is copied with
  \<open>my_strdup\<close>, the position inside it is \<open>R_Copied\<close>.
\<close>

datatype 'v redis_reply = Reply_Error string | Reply_Value 'v

datatype 'v redis_pos =
    R_Begin
  | R_Read "nat option"                    \<comment> \<open>\<open>rc\<close> read, mutex not yet locked\<close>
  | R_Locked "nat option"
  | R_Replied "'v redis_reply"             \<comment> \<open>\<open>replay\<close>\<close>
  | R_Copied                               \<comment> \<open>inside \<open>small_alloc\<close>\<close>
  | R_Stored

fun redis_query_work ::
  "(string \<Rightarrow> string option) \<Rightarrow> nat \<Rightarrow> 'v redis_reply option \<Rightarrow> 'v query_req \<Rightarrow> 'v redis_pos \<Rightarrow> db_mem
     \<Rightarrow> ('v query_req \<times> 'v redis_pos option \<times> db_mem \<times> ('v, 'v redis_reply option) event list) outcome" where
  "redis_query_work fmt t ans r R_Begin m =
     obind (the_context (q_context r) m) (\<lambda>c. Goes (r, Some (R_Read (pConn c)), m, []))"
| "redis_query_work fmt t ans r (R_Read rc) m =
     obind (uv_mutex_lock t (q_context r) m) (\<lambda>m. Goes (r, Some (R_Locked rc), m, []))"
| "redis_query_work fmt t ans r (R_Locked rc) m =
     obind (library_handle rc m) (\<lambda>k.
       case fmt (q_cmd r) of
         None \<Rightarrow> Fails UseUninit
       | Some wire \<Rightarrow>
           (case ans of
              None \<Rightarrow> Fails NullDeref
            | Some replay \<Rightarrow> Goes (r, Some (R_Replied replay), m, [Command (q_udata r) k wire ans])))"
| "redis_query_work fmt t ans r (R_Replied replay) m =
     (case replay of
        Reply_Error str \<Rightarrow>
          obind (small_alloc_enter t m)
            (\<lambda>m. Goes (r\<lparr>q_err := Some str, q_result := None\<rparr>, Some R_Copied, m, []))
      | Reply_Value v \<Rightarrow> Goes (r\<lparr>q_err := None, q_result := Some v\<rparr>, Some R_Stored, m, []))"
| "redis_query_work fmt t ans r R_Copied m = Goes (r, Some R_Stored, small_alloc_leave m, [])"
| "redis_query_work fmt t ans r R_Stored m =
     obind (uv_mutex_unlock (q_context r) m) (\<lambda>m. Goes (r, None, m, []))"

text \<open>\<open>mysql_query\<close> fails with a message, or \<open>mysql_store_result\<close> gives the rows, if any.\<close>

datatype 'v mysql_answer = My_Error string | My_Result "'v option"

datatype mysql_pos =
    M_Begin
  | M_Locked
  | M_Read "nat option"
  | M_Failed string
  | M_Copied                               \<comment> \<open>inside \<open>small_alloc\<close>\<close>
  | M_Stored

fun mysql_query_work ::
  "nat \<Rightarrow> 'v mysql_answer \<Rightarrow> 'v query_req \<Rightarrow> mysql_pos \<Rightarrow> db_mem
     \<Rightarrow> ('v query_req \<times> mysql_pos option \<times> db_mem \<times> ('v, 'v mysql_answer) event list) outcome" where
  "mysql_query_work t ans r M_Begin m =
     obind (uv_mutex_lock t (q_context r) m) (\<lambda>m. Goes (r, Some M_Locked, m, []))"
| "mysql_query_work t ans r M_Locked m =
     obind (the_context (q_context r) m) (\<lambda>c. Goes (r, Some (M_Read (pConn c)), m, []))"
| "mysql_query_work t ans r (M_Read conn) m =
     obind (library_handle conn m) (\<lambda>k.
       case ans of
         My_Error e \<Rightarrow> Goes (r, Some (M_Failed e), m, [Command (q_udata r) k (q_cmd r) ans])
       | My_Result res \<Rightarrow>
           Goes (r\<lparr>q_err := None, q_result := res\<rparr>, Some M_Stored, m, [Command (q_udata r) k (q_cmd r) ans]))"
| "mysql_query_work t ans r (M_Failed e) m =
     obind (small_alloc_enter t m)
       (\<lambda>m. Goes (r\<lparr>q_err := Some e, q_result := None\<rparr>, Some M_Copied, m, []))"
| "mysql_query_work t ans r M_Copied m = Goes (r, Some M_Stored, small_alloc_leave m, [])"
| "mysql_query_work t ans r M_Stored m =
     obind (uv_mutex_unlock (q_context r) m) (\<lambda>m. Goes (r, None, m, []))"

datatype close_pos = C_Begin | C_Locked | C_Freed | C_Cleared

text \<open>\<open>redisFree(c)\<close> or \<open>mysql_close(pConn)\<close>.\<close>

definition close_handle :: "nat \<Rightarrow> db_mem \<Rightarrow> db_mem outcome" where
  "close_handle a m = obind (the_context a m) (\<lambda>c. obind (library_handle (pConn c) m) (\<lambda>k.
     Goes (m\<lparr>live_conns := live_conns m - {k}\<rparr>)))"

fun redis_close_work :: "nat \<Rightarrow> nat \<Rightarrow> close_pos \<Rightarrow> db_mem \<Rightarrow> (close_pos option \<times> db_mem) outcome" where
  "redis_close_work t a C_Begin m = obind (uv_mutex_lock t a m) (\<lambda>m. Goes (Some C_Locked, m))"
| "redis_close_work t a C_Locked m = obind (close_handle a m) (\<lambda>m. Goes (Some C_Freed, m))"
| "redis_close_work t a C_Freed m =
     obind (the_context a m) (\<lambda>c. Goes (Some C_Cleared, put_context a (c\<lparr>pConn := None\<rparr>) m))"
| "redis_close_work t a C_Cleared m = obind (uv_mutex_unlock a m) (\<lambda>m. Goes (None, m))"

fun mysql_close_work :: "nat \<Rightarrow> nat \<Rightarrow> close_pos \<Rightarrow> db_mem \<Rightarrow> (close_pos option \<times> db_mem) outcome" where
  "mysql_close_work t a C_Begin m = obind (uv_mutex_lock t a m) (\<lambda>m. Goes (Some C_Locked, m))"
| "mysql_close_work t a C_Locked m = obind (close_handle a m) (\<lambda>m. Goes (Some C_Freed, m))"
| "mysql_close_work t a C_Freed m = obind (uv_mutex_unlock a m) (\<lambda>m. Goes (None, m))"
| "mysql_close_work t a C_Cleared m = obind (uv_mutex_unlock a m) (\<lambda>m. Goes (None, m))"

text \<open>The functions a client passes to \<open>uv_queue_work\<close>, and where they start.\<close>

record ('c, 'v, 'a, 'p) driver =
  d_connect :: "nat \<Rightarrow> (string option \<times> nat) option \<Rightarrow> nat \<Rightarrow> 'c connect_req \<Rightarrow> connect_pos \<Rightarrow> db_mem
                  \<Rightarrow> ('c connect_req \<times> connect_pos option \<times> db_mem) outcome"
  d_query :: "nat \<Rightarrow> 'a \<Rightarrow> 'v query_req \<Rightarrow> 'p \<Rightarrow> db_mem
                \<Rightarrow> ('v query_req \<times> 'p option \<times> db_mem \<times> ('v, 'a) event list) outcome"
  d_query0 :: 'p
  d_close :: "nat \<Rightarrow> nat \<Rightarrow> close_pos \<Rightarrow> db_mem \<Rightarrow> (close_pos option \<times> db_mem) outcome"

definition redis :: "(string \<Rightarrow> string option) \<Rightarrow> ('c, 'v, 'v redis_reply option, 'v redis_pos) driver" where
  "redis fmt = \<lparr>d_connect = redis_connect_work, d_query = redis_query_work fmt, d_query0 = R_Begin,
            d_close = redis_close_work\<rparr>"

definition mysql :: "('c, 'v, 'v mysql_answer, mysql_pos) driver" where
  "mysql = \<lparr>d_connect = mysql_connect_work, d_query = mysql_query_work, d_query0 = M_Begin,
            d_close = mysql_close_work\<rparr>"

lemma driver_simps [simp]:
  "d_connect (redis fmt) = redis_connect_work" "d_query (redis fmt) = redis_query_work fmt"
  "d_query0 (redis fmt) = R_Begin" "d_close (redis fmt) = redis_close_work"
  "d_connect mysql = mysql_connect_work" "d_query mysql = mysql_query_work"
  "d_query0 mysql = M_Begin" "d_close mysql = mysql_close_work"
  by (simp_all add: redis_def mysql_def)

section \<open>The thread pool\<close>

datatype ('c, 'v) work = Connect "'c connect_req" | Query "'v query_req" | Close nat

text \<open>What a worker executes, with its position; the last argument tells the return.\<close>

datatype ('c, 'v, 'p) task =
    Connecting "'c connect_req" "connect_pos option"
  | Querying "'v query_req" "'p option"
  | Closing nat "close_pos option"

text \<open>
  \<open>wq\<close> is the queue of the pool, \<open>completed\<close> the queue \<open>loop->wq\<close>, and \<open>batch\<close> the
  local queue of \<open>uv__work_done\<close>.
\<close>

record ('c, 'v, 'a, 'p) db_state =
  wq :: "('c, 'v) work list"
  workers :: "nat \<Rightarrow> ('c, 'v, 'p) task option"
  completed :: "('c, 'v) work list"
  batch :: "('c, 'v) work list"
  mem :: db_mem
  log :: "('v, 'a) event list"

definition db_start :: "('c, 'v, 'a, 'p) db_state" where
  "db_start = \<lparr>wq = [], workers = Map.empty, completed = [], batch = [],
               mem = \<lparr>contexts = Map.empty, live_conns = {}, allocating = None\<rparr>, log = []\<rparr>"

definition uv_queue_work :: "('c, 'v) work \<Rightarrow> ('c, 'v, 'a, 'p) db_state \<Rightarrow> ('c, 'v, 'a, 'p) db_state" where
  "uv_queue_work w st = st\<lparr>wq := wq st @ [w]\<rparr>"

text \<open>The worker takes the head of the queue and calls its work function.\<close>

fun task_of :: "('c, 'v, 'a, 'p) driver \<Rightarrow> ('c, 'v) work \<Rightarrow> ('c, 'v, 'p) task" where
  "task_of D (Connect r) = Connecting r (Some K_Begin)"
| "task_of D (Query r) = Querying r (Some (d_query0 D))"
| "task_of D (Close a) = Closing a (Some C_Begin)"

fun work_of :: "('c, 'v, 'p) task \<Rightarrow> ('c, 'v) work" where
  "work_of (Connecting r _) = Connect r"
| "work_of (Querying r _) = Query r"
| "work_of (Closing a _) = Close a"

fun returned :: "('c, 'v, 'p) task \<Rightarrow> bool" where
  "returned (Connecting r p) = (p = None)"
| "returned (Querying r p) = (p = None)"
| "returned (Closing a p) = (p = None)"

definition worker_takes ::
  "('c, 'v, 'a, 'p) driver \<Rightarrow> nat \<Rightarrow> ('c, 'v, 'a, 'p) db_state \<Rightarrow> ('c, 'v, 'a, 'p) db_state" where
  "worker_takes D t st = st\<lparr>wq := tl (wq st), workers := (workers st)(t \<mapsto> task_of D (hd (wq st)))\<rparr>"

definition worker_returns ::
  "nat \<Rightarrow> ('c, 'v, 'p) task \<Rightarrow> ('c, 'v, 'a, 'p) db_state \<Rightarrow> ('c, 'v, 'a, 'p) db_state" where
  "worker_returns t x st = st\<lparr>workers := (workers st)(t := None), completed := completed st @ [work_of x]\<rparr>"

text \<open>\<open>uv__work_done\<close> takes over the completed requests and then delivers them one by one.\<close>

definition work_done_moves :: "('c, 'v, 'a, 'p) db_state \<Rightarrow> ('c, 'v, 'a, 'p) db_state" where
  "work_done_moves st = st\<lparr>batch := completed st, completed := []\<rparr>"

section \<open>The operations and callbacks of the clients\<close>

text \<open>The thread of the loop allocates and frees, too: it must not find a worker inside.\<close>

definition loop_allocates ::
  "('c, 'v, 'a, 'p) db_state \<Rightarrow> ('c, 'v, 'a, 'p) db_state result \<Rightarrow> ('c, 'v, 'a, 'p) db_state result" where
  "loop_allocates st r = (if allocating (mem st) = None then r else Inl DataRace)"

definition on_connect_complete ::
  "'c connect_req \<Rightarrow> ('c, 'v, 'a, 'p) db_state \<Rightarrow> ('c, 'v, 'a, 'p) db_state result" where
  "on_connect_complete r st =
     loop_allocates st (Inr (st\<lparr>log := log st @ [Opened (c_err r) (c_context r) (c_udata r)]\<rparr>))"

definition on_query_complete ::
  "'v query_req \<Rightarrow> ('c, 'v, 'a, 'p) db_state \<Rightarrow> ('c, 'v, 'a, 'p) db_state result" where
  "on_query_complete r st =
     loop_allocates st (Inr (st\<lparr>log := log st @ [Answered (q_err r) (q_result r) (q_udata r)]\<rparr>))"

definition on_close_complete ::
  "nat \<Rightarrow> ('c, 'v, 'a, 'p) db_state \<Rightarrow> ('c, 'v, 'a, 'p) db_state result" where
  "on_close_complete a st =
     (case contexts (mem st) a of
        None \<Rightarrow> Inl BadFree
      | Some c \<Rightarrow>
          loop_allocates st (Inr (st\<lparr>mem := (mem st)\<lparr>contexts := (contexts (mem st))(a := None)\<rparr>\<rparr>)))"

fun on_complete :: "('c, 'v) work \<Rightarrow> ('c, 'v, 'a, 'p) db_state \<Rightarrow> ('c, 'v, 'a, 'p) db_state result" where
  "on_complete (Connect r) st = on_connect_complete r st"
| "on_complete (Query r) st = on_query_complete r st"
| "on_complete (Close a) st = on_close_complete a st"

definition work_done_delivers :: "('c, 'v, 'a, 'p) db_state \<Rightarrow> ('c, 'v, 'a, 'p) db_state result" where
  "work_done_delivers st = on_complete (hd (batch st)) (st\<lparr>batch := tl (batch st)\<rparr>)"

definition db_connect :: "'c \<Rightarrow> nat \<Rightarrow> ('c, 'v, 'a, 'p) db_state \<Rightarrow> ('c, 'v, 'a, 'p) db_state result" where
  "db_connect args udata st =
     loop_allocates st
       (Inr (uv_queue_work (Connect \<lparr>c_args = args, c_udata = udata, c_err = None, c_context = None\<rparr>) st))"

definition db_close :: "nat \<Rightarrow> ('c, 'v, 'a, 'p) db_state \<Rightarrow> ('c, 'v, 'a, 'p) db_state result" where
  "db_close a st =
     (case contexts (mem st) a of
        None \<Rightarrow> Inl UseAfterFree
      | Some c \<Rightarrow>
          if is_closed c then Inr st
          else loop_allocates st
            (Inr (uv_queue_work (Close a) (st\<lparr>mem := put_context a (c\<lparr>is_closed := True\<rparr>) (mem st)\<rparr>))))"

definition db_query ::
  "nat \<Rightarrow> string \<Rightarrow> nat \<Rightarrow> ('c, 'v, 'a, 'p) db_state \<Rightarrow> ('c, 'v, 'a, 'p) db_state result" where
  "db_query a cmd udata st =
     (case contexts (mem st) a of
        None \<Rightarrow> Inl UseAfterFree
      | Some c \<Rightarrow>
          if is_closed c then Inr st
          else loop_allocates st (Inr (uv_queue_work
            (Query \<lparr>q_context = a, q_cmd = cmd, q_udata = udata, q_err = None, q_result = None\<rparr>)
            (st\<lparr>log := log st @ [Asked a cmd udata]\<rparr>))))"

text \<open>\<open>Do_Alloc\<close> is any other use of \<open>small_alloc\<close> on the thread of the loop.\<close>

datatype 'c db_op = Do_Connect 'c nat | Do_Query nat string nat | Do_Close nat | Do_Alloc

fun do_op :: "'c db_op \<Rightarrow> ('c, 'v, 'a, 'p) db_state \<Rightarrow> ('c, 'v, 'a, 'p) db_state result" where
  "do_op (Do_Connect args udata) st = db_connect args udata st"
| "do_op (Do_Query a cmd udata) st = db_query a cmd udata st"
| "do_op (Do_Close a) st = db_close a st"
| "do_op Do_Alloc st = loop_allocates st (Inr st)"

section \<open>Steps\<close>

text \<open>
  The program calls an operation on the thread of the loop (\<open>Calls\<close>), in a callback or
  elsewhere; every other label is a step of the pool.
\<close>

datatype ('c, 'a) label =
    Calls "'c db_op"
  | Takes nat
  | Connects nat "(string option \<times> nat) option" nat
  | Queries nat 'a
  | Closes nat
  | Returns nat
  | Moves
  | Delivers

definition set_task ::
  "nat \<Rightarrow> ('c, 'v, 'p) task \<Rightarrow> db_mem \<Rightarrow> ('v, 'a) event list \<Rightarrow> ('c, 'v, 'a, 'p) db_state \<Rightarrow> ('c, 'v, 'a, 'p) db_state" where
  "set_task t x m evs st = st\<lparr>workers := (workers st)(t \<mapsto> x), mem := m, log := log st @ evs\<rparr>"

inductive db_step ::
  "('c, 'v, 'a, 'p) driver \<Rightarrow> nat \<Rightarrow> ('c, 'v, 'a, 'p) db_state \<Rightarrow> ('c, 'a) label
     \<Rightarrow> ('c, 'v, 'a, 'p) db_state result \<Rightarrow> bool" for D nthreads where
  calls: "db_step D nthreads st (Calls op) (do_op op st)"
| takes: "t < nthreads \<Longrightarrow> workers st t = None \<Longrightarrow> wq st \<noteq> [] \<Longrightarrow>
     db_step D nthreads st (Takes t) (Inr (worker_takes D t st))"
| connects: "t < nthreads \<Longrightarrow> workers st t = Some (Connecting r (Some p)) \<Longrightarrow>
     contexts (mem st) a = None \<Longrightarrow> (\<forall>e k. ans = Some (e, k) \<longrightarrow> k \<notin> live_conns (mem st)) \<Longrightarrow>
     d_connect D t ans a r p (mem st) = Goes (r', p', m') \<Longrightarrow>
     db_step D nthreads st (Connects t ans a) (Inr (set_task t (Connecting r' p') m' [] st))"
| connect_fails: "t < nthreads \<Longrightarrow> workers st t = Some (Connecting r (Some p)) \<Longrightarrow>
     contexts (mem st) a = None \<Longrightarrow> (\<forall>e k. ans = Some (e, k) \<longrightarrow> k \<notin> live_conns (mem st)) \<Longrightarrow>
     d_connect D t ans a r p (mem st) = Fails e \<Longrightarrow>
     db_step D nthreads st (Connects t ans a) (Inl e)"
| queries: "t < nthreads \<Longrightarrow> workers st t = Some (Querying r (Some p)) \<Longrightarrow>
     d_query D t ans r p (mem st) = Goes (r', p', m', evs) \<Longrightarrow>
     db_step D nthreads st (Queries t ans) (Inr (set_task t (Querying r' p') m' evs st))"
| query_fails: "t < nthreads \<Longrightarrow> workers st t = Some (Querying r (Some p)) \<Longrightarrow>
     d_query D t ans r p (mem st) = Fails e \<Longrightarrow>
     db_step D nthreads st (Queries t ans) (Inl e)"
| closes: "t < nthreads \<Longrightarrow> workers st t = Some (Closing a (Some p)) \<Longrightarrow>
     d_close D t a p (mem st) = Goes (p', m') \<Longrightarrow>
     db_step D nthreads st (Closes t) (Inr (set_task t (Closing a p') m' [] st))"
| close_fails: "t < nthreads \<Longrightarrow> workers st t = Some (Closing a (Some p)) \<Longrightarrow>
     d_close D t a p (mem st) = Fails e \<Longrightarrow>
     db_step D nthreads st (Closes t) (Inl e)"
| returns: "t < nthreads \<Longrightarrow> workers st t = Some x \<Longrightarrow> returned x \<Longrightarrow>
     db_step D nthreads st (Returns t) (Inr (worker_returns t x st))"
| moves: "batch st = [] \<Longrightarrow> completed st \<noteq> [] \<Longrightarrow>
     db_step D nthreads st Moves (Inr (work_done_moves st))"
| delivers: "batch st \<noteq> [] \<Longrightarrow> db_step D nthreads st Delivers (work_done_delivers st)"

inductive_cases db_stepE: "db_step D n st l r"
inductive_cases calls_stepE [elim!]: "db_step D n st (Calls op) r"

text \<open>Everything the program can reach when its steps satisfy \<open>ok\<close>.\<close>

inductive db_reach ::
  "('c, 'v, 'a, 'p) driver \<Rightarrow> nat \<Rightarrow> (('c, 'v, 'a, 'p) db_state \<Rightarrow> ('c, 'a) label \<Rightarrow> bool)
     \<Rightarrow> ('c, 'v, 'a, 'p) db_state result \<Rightarrow> bool" for D nthreads ok where
  start: "db_reach D nthreads ok (Inr db_start)"
| step: "db_reach D nthreads ok (Inr st) \<Longrightarrow> ok st l \<Longrightarrow> db_step D nthreads st l r \<Longrightarrow>
     db_reach D nthreads ok r"

text \<open>\<open>k\<close> steps of the pool alone.\<close>

definition is_call :: "('c, 'a) label \<Rightarrow> bool" where
  "is_call l = (case l of Calls op \<Rightarrow> True | _ \<Rightarrow> False)"

inductive pool_run ::
  "('c, 'v, 'a, 'p) driver \<Rightarrow> nat \<Rightarrow> (('c, 'v, 'a, 'p) db_state \<Rightarrow> ('c, 'a) label \<Rightarrow> bool)
     \<Rightarrow> nat \<Rightarrow> ('c, 'v, 'a, 'p) db_state \<Rightarrow> ('c, 'v, 'a, 'p) db_state \<Rightarrow> bool" for D nthreads ok where
  stop: "pool_run D nthreads ok 0 st st"
| more: "pool_run D nthreads ok k st st' \<Longrightarrow> \<not> is_call l \<Longrightarrow> ok st' l \<Longrightarrow>
     db_step D nthreads st' l (Inr st'') \<Longrightarrow> pool_run D nthreads ok (Suc k) st st''"

text \<open>The requests that are not yet delivered.\<close>

definition pending :: "nat \<Rightarrow> ('c, 'v, 'a, 'p) db_state \<Rightarrow> ('c, 'v) work list" where
  "pending n st = wq st @ map work_of (List.map_filter (workers st) [0..<n]) @ batch st @ completed st"

definition queries_context :: "nat \<Rightarrow> ('c, 'v) work \<Rightarrow> bool" where
  "queries_context a w = (case w of Query r \<Rightarrow> q_context r = a | _ \<Rightarrow> False)"

text \<open>
  A polite program does not use a context that was freed, closes a context only when the answers
  to its queries have arrived, and queries with texts the library can send: \<open>texts cmd\<close> is the
  command that \<open>cmd\<close> stands for (\<open>fmt\<close> for Redis, the text itself for MySQL). The answers of the
  libraries and the order of the threads are not its to choose.
\<close>

definition polite_op ::
  "(string \<Rightarrow> string option) \<Rightarrow> nat \<Rightarrow> ('c, 'v, 'a, 'p) db_state \<Rightarrow> 'c db_op \<Rightarrow> bool" where
  "polite_op texts n st op =
     (case op of
        Do_Connect args udata \<Rightarrow> True
      | Do_Query a cmd udata \<Rightarrow> contexts (mem st) a \<noteq> None \<and> texts cmd \<noteq> None
      | Do_Close a \<Rightarrow> contexts (mem st) a \<noteq> None \<and> \<not> list_ex (queries_context a) (pending n st)
      | Do_Alloc \<Rightarrow> True)"

definition polite ::
  "(string \<Rightarrow> string option) \<Rightarrow> nat \<Rightarrow> ('c, 'v, 'a, 'p) db_state \<Rightarrow> ('c, 'a) label \<Rightarrow> bool" where
  "polite texts n st l = (case l of Calls op \<Rightarrow> polite_op texts n st op | _ \<Rightarrow> True)"

text \<open>The answers that are not the null pointer; libmysql has one only for a new connection.\<close>

definition redis_answers :: "'v redis_reply option \<Rightarrow> bool" where
  "redis_answers ans \<longleftrightarrow> ans \<noteq> None"

definition mysql_answers :: "'v mysql_answer \<Rightarrow> bool" where
  "mysql_answers ans \<longleftrightarrow> True"

definition null_answer :: "('a \<Rightarrow> bool) \<Rightarrow> ('c, 'a) label \<Rightarrow> bool" where
  "null_answer given l =
     (case l of Connects t ans a \<Rightarrow> ans = None | Queries t ans \<Rightarrow> \<not> given ans | _ \<Rightarrow> False)"

text \<open>The worker that makes a step; \<open>None\<close> is the thread of the loop.\<close>

fun label_thread :: "('c, 'a) label \<Rightarrow> nat option" where
  "label_thread (Calls op) = None"
| "label_thread (Takes t) = Some t"
| "label_thread (Connects t ans a) = Some t"
| "label_thread (Queries t ans) = Some t"
| "label_thread (Closes t) = Some t"
| "label_thread (Returns t) = Some t"
| "label_thread Moves = None"
| "label_thread Delivers = None"

text \<open>A work function inside \<open>small_alloc\<close>, and a step that finds another thread there.\<close>

fun in_small_alloc :: "('p \<Rightarrow> bool) \<Rightarrow> ('c, 'v, 'p) task \<Rightarrow> bool" where
  "in_small_alloc copies (Connecting r p) = (p = Some K_Inside)"
| "in_small_alloc copies (Querying r p) = (case p of None \<Rightarrow> False | Some q \<Rightarrow> copies q)"
| "in_small_alloc copies (Closing a p) = False"

definition another_allocates ::
  "('p \<Rightarrow> bool) \<Rightarrow> ('c, 'v, 'a, 'p) db_state \<Rightarrow> ('c, 'a) label \<Rightarrow> bool" where
  "another_allocates copies st l \<longleftrightarrow>
     (\<exists>t x. allocating (mem st) = Some t \<and> workers st t = Some x \<and> in_small_alloc copies x \<and>
        label_thread l \<noteq> Some t)"

text \<open>What an answer of the server means for the callback.\<close>

fun redis_reads :: "'v redis_reply option \<Rightarrow> string option \<times> 'v option" where
  "redis_reads (Some (Reply_Error e)) = (Some e, None)"
| "redis_reads (Some (Reply_Value v)) = (None, Some v)"
| "redis_reads None = (None, None)"

fun mysql_reads :: "'v mysql_answer \<Rightarrow> string option \<times> 'v option" where
  "mysql_reads (My_Error e) = (Some e, None)"
| "mysql_reads (My_Result res) = (None, res)"

section \<open>Stages of a request\<close>

text \<open>
  The queues and the workers together hold a multiset of requests, each in a stage; a step
  moves one request to another stage.
\<close>

datatype ('c, 'v, 'p) stage = Waiting "('c, 'v) work" | Running nat "('c, 'v, 'p) task" | Finished "('c, 'v) work"

fun stage_work :: "('c, 'v, 'p) stage \<Rightarrow> ('c, 'v) work" where
  "stage_work (Waiting w) = w"
| "stage_work (Running t x) = work_of x"
| "stage_work (Finished w) = w"

definition one_running :: "nat \<Rightarrow> ('c, 'v, 'p) task option \<Rightarrow> ('c, 'v, 'p) stage multiset" where
  "one_running t x = (case x of None \<Rightarrow> {#} | Some y \<Rightarrow> {#Running t y#})"

lemma one_running_simps [simp]: "one_running t None = {#}" "one_running t (Some y) = {#Running t y#}"
  by (simp_all add: one_running_def)

definition all_running :: "nat \<Rightarrow> (nat \<Rightarrow> ('c, 'v, 'p) task option) \<Rightarrow> ('c, 'v, 'p) stage multiset" where
  "all_running n w = (\<Sum>t<n. one_running t (w t))"

definition stages :: "nat \<Rightarrow> ('c, 'v, 'a, 'p) db_state \<Rightarrow> ('c, 'v, 'p) stage multiset" where
  "stages n st = image_mset Waiting (mset (wq st)) + all_running n (workers st)
                 + image_mset Finished (mset (batch st) + mset (completed st))"

lemma all_running_remove:
  assumes "t < n"
  shows "all_running n w = one_running t (w t) + all_running n (w(t := None))"
proof -
  have "all_running n w' = one_running t (w' t) + (\<Sum>i\<in>{..<n} - {t}. one_running i (w' i))" for w' :: "nat \<Rightarrow> ('a, 'b, 'c) task option"
    unfolding all_running_def using assms by (intro sum.remove) auto
  note this [of w] this [of "w(t := None)"]
  moreover have "(\<Sum>i\<in>{..<n} - {t}. one_running i ((w(t := None)) i)) = (\<Sum>i\<in>{..<n} - {t}. one_running i (w i))"
    by (rule sum.cong) auto
  ultimately show ?thesis by simp
qed

lemma all_running_put:
  assumes "t < n"
  shows "all_running n (w(t \<mapsto> x)) = add_mset (Running t x) (all_running n (w(t := None)))"
  using all_running_remove [OF assms, of "w(t \<mapsto> x)"] by simp

lemma all_running_take:
  assumes "t < n" "w t = Some x"
  shows "all_running n w = add_mset (Running t x) (all_running n (w(t := None)))"
  using all_running_remove [OF assms(1), of w] assms(2) by simp

lemma Running_in_stages: "Running t x \<in># stages n st \<longleftrightarrow> t < n \<and> workers st t = Some x"
proof -
  have "Running t x \<in># all_running n w \<longleftrightarrow> t < n \<and> w t = Some x" for w :: "nat \<Rightarrow> ('a, 'b, 'c) task option"
    by (auto simp: all_running_def set_mset_sum one_running_def split: option.splits)
  then show ?thesis by (auto simp: stages_def)
qed

lemma Running_notin_rest: "Running t y \<notin># stages n (st\<lparr>workers := (workers st)(t := None)\<rparr>)"
  by (simp add: Running_in_stages)

lemma stages_start [simp]: "stages n db_start = {#}"
  by (simp add: stages_def db_start_def all_running_def)

lemma mset_pending: "mset (pending n st) = image_mset stage_work (stages n st)"
proof -
  have "mset (map work_of (List.map_filter w [0..<n])) = image_mset stage_work (all_running n w)"
    for w :: "nat \<Rightarrow> ('a, 'b, 'd) task option"
    by (induction n) (simp_all add: all_running_def lessThan_Suc List.map_filter_def one_running_def split: option.splits)
  then show ?thesis
    by (simp add: pending_def stages_def multiset.map_comp o_def ac_simps)
qed

text \<open>The move of each step.\<close>

lemma stages_queue: "stages n (uv_queue_work w st) = add_mset (Waiting w) (stages n st)"
  by (simp add: stages_def uv_queue_work_def)

lemma stages_takes:
  assumes "t < n" "workers st t = None" "wq st \<noteq> []"
  obtains N w where "stages n st = add_mset (Waiting w) N"
    "stages n (worker_takes D t st) = add_mset (Running t (task_of D w)) N" "\<And>y. Running t y \<notin># N"
proof -
  from assms(3) obtain w ws where w: "wq st = w # ws" by (cases "wq st") auto
  have "(workers st)(t := None) = workers st" using assms(2) by auto
  with w show thesis
    by (intro that [of w "stages n (st\<lparr>wq := ws\<rparr>)"])
      (simp_all add: stages_def worker_takes_def all_running_put [OF assms(1)],
        use assms Running_in_stages [of t _ n st] in \<open>auto simp: stages_def\<close>)
qed

lemma stages_set_task:
  assumes "t < n" "workers st t = Some x"
  obtains N where "stages n st = add_mset (Running t x) N"
    "\<And>y m evs. stages n (set_task t y m evs st) = add_mset (Running t y) N" "\<And>y. Running t y \<notin># N"
  by (intro that [of "stages n (st\<lparr>workers := (workers st)(t := None)\<rparr>)"])
    (simp_all add: Running_notin_rest, simp_all add: stages_def set_task_def all_running_put [OF assms(1)] all_running_take [where w = "workers st", OF assms])

lemma stages_returns:
  assumes "t < n" "workers st t = Some x"
  obtains N where "stages n st = add_mset (Running t x) N"
    "stages n (worker_returns t x st) = add_mset (Finished (work_of x)) N" "\<And>y. Running t y \<notin># N"
  by (intro that [of "stages n (st\<lparr>workers := (workers st)(t := None)\<rparr>)"])
    (simp_all add: Running_notin_rest, simp_all add: stages_def worker_returns_def all_running_take [where w = "workers st", OF assms])

lemma stages_moves: "batch st = [] \<Longrightarrow> stages n (work_done_moves st) = stages n st"
  by (simp add: stages_def work_done_moves_def)

lemma stages_delivers:
  assumes "batch st \<noteq> []"
  obtains N w where "stages n st = add_mset (Finished w) N" "stages n (st\<lparr>batch := tl (batch st)\<rparr>) = N"
    "w = hd (batch st)"
proof -
  from assms obtain w ws where "batch st = w # ws" by (cases "batch st") auto
  then show thesis by (intro that [of w "stages n (st\<lparr>batch := ws\<rparr>)"]) (simp_all add: stages_def)
qed

lemma stages_mem_log [simp]: "stages n (st\<lparr>mem := m\<rparr>) = stages n st" "stages n (st\<lparr>log := L\<rparr>) = stages n st"
  by (simp_all add: stages_def)

end
