(* ===== verification/Database_Safe.thy ===== *)
theory Database_Safe
  imports Database
begin

text \<open>
  What holds in every state that a polite program reaches on the thread pool: the ledger of the
  requests, the mutexes, the handles, and the answers on their way.
\<close>

section \<open>The ledger of the requests\<close>

text \<open>What a request keeps from the call of the operation to its completion.\<close>

datatype key = KConnect | KQuery nat string nat | KClose nat

fun key_of :: "('c, 'v) work \<Rightarrow> key" where
  "key_of (Connect r) = KConnect"
| "key_of (Query r) = KQuery (q_context r) (q_cmd r) (q_udata r)"
| "key_of (Close a) = KClose a"

definition query_of :: "nat \<Rightarrow> key \<Rightarrow> bool" where
  "query_of u k = (case k of KQuery a cmd v \<Rightarrow> v = u | _ \<Rightarrow> False)"

lemma query_of_simps [simp]:
  "\<not> query_of u KConnect" "query_of u (KQuery a cmd v) \<longleftrightarrow> v = u" "\<not> query_of u (KClose a)"
  by (simp_all add: query_of_def)

text \<open>How often the program asked, the server was asked, and a callback was called, for \<open>u\<close>.\<close>

definition asks :: "nat \<Rightarrow> ('v, 'a) event list \<Rightarrow> nat" where
  "asks u L = length (filter (\<lambda>e. case e of Asked a cmd v \<Rightarrow> v = u | _ \<Rightarrow> False) L)"

definition commands :: "nat \<Rightarrow> ('v, 'a) event list \<Rightarrow> nat" where
  "commands u L = length (filter (\<lambda>e. case e of Command v k cmd a \<Rightarrow> v = u | _ \<Rightarrow> False) L)"

definition answers :: "nat \<Rightarrow> ('v, 'a) event list \<Rightarrow> nat" where
  "answers u L = length (filter (\<lambda>e. case e of Answered e v w \<Rightarrow> w = u | _ \<Rightarrow> False) L)"

lemma log_counts [simp]:
  "asks u [] = 0" "commands u [] = 0" "answers u [] = 0"
  "asks u (L @ L') = asks u L + asks u L'"
  "commands u (L @ L') = commands u L + commands u L'"
  "answers u (L @ L') = answers u L + answers u L'"
  "asks u (Asked a cmd v # L) = of_bool (v = u) + asks u L"
  "asks u (Command v k cmd b # L) = asks u L"
  "asks u (Answered e res v # L) = asks u L"
  "asks u (Opened e c v # L) = asks u L"
  "commands u (Asked a cmd v # L) = commands u L"
  "commands u (Command v k cmd b # L) = of_bool (v = u) + commands u L"
  "commands u (Answered e res v # L) = commands u L"
  "commands u (Opened e c v # L) = commands u L"
  "answers u (Asked a cmd v # L) = answers u L"
  "answers u (Command v k cmd b # L) = answers u L"
  "answers u (Answered e res v # L) = of_bool (v = u) + answers u L"
  "answers u (Opened e c v # L) = answers u L"
  by (simp_all add: asks_def commands_def answers_def)

definition ledger :: "key multiset \<Rightarrow> (nat \<Rightarrow> bool option) \<Rightarrow> ('v, 'a) event list \<Rightarrow> bool" where
  "ledger K V L \<longleftrightarrow>
     (\<forall>a cmd u. KQuery a cmd u \<in># K \<longrightarrow> V a = Some False \<and> Asked a cmd u \<in> set L) \<and>
     (\<forall>a. count K (KClose a) = of_bool (V a = Some True)) \<and>
     (\<forall>u. asks u L = answers u L + size (filter_mset (query_of u) K))"

lemma ledgerD:
  assumes "ledger K V L"
  shows "KQuery a cmd u \<in># K \<Longrightarrow> V a = Some False"
    and "KQuery a cmd u \<in># K \<Longrightarrow> Asked a cmd u \<in> set L"
    and "count K (KClose a) = of_bool (V a = Some True)"
    and "asks u L = answers u L + size (filter_mset (query_of u) K)"
  using assms by (auto simp: ledger_def)

lemma ledger_start: "ledger {#} Map.empty []"
  by (simp add: ledger_def)

lemma ledger_asked:
  assumes "ledger K V L" "V a = Some False"
  shows "ledger (add_mset (KQuery a cmd u) K) V (L @ [Asked a cmd u])"
  using assms by (auto simp: ledger_def)

lemma ledger_connect: "ledger K V L \<Longrightarrow> ledger (add_mset KConnect K) V L"
  by (auto simp: ledger_def)

lemma ledger_close:
  assumes "ledger K V L" "V a = Some False" "\<And>cmd u. KQuery a cmd u \<notin># K"
  shows "ledger (add_mset (KClose a) K) (V(a \<mapsto> True)) L"
  using assms by (auto simp: ledger_def)

lemma ledger_opened:
  assumes "ledger K V L" "V a = None"
  shows "ledger K (V(a \<mapsto> False)) L"
  using assms by (auto simp: ledger_def)

lemma ledger_commands:
  assumes "ledger K V L" "\<And>e. e \<in> set evs \<Longrightarrow> \<exists>u k cmd b. e = Command u k cmd b"
  shows "ledger K V (L @ evs)"
proof -
  from assms(2) have "asks u evs = 0 \<and> answers u evs = 0" for u
    by (induction evs) fastforce+
  with assms(1) show ?thesis by (auto simp: ledger_def)
qed

lemma ledger_connected: "ledger (add_mset KConnect K) V L \<Longrightarrow> ledger K V (L @ [Opened e c u])"
  by (auto simp: ledger_def)

lemma ledger_answered: "ledger (add_mset (KQuery a cmd u) K) V L \<Longrightarrow> ledger K V (L @ [Answered e res u])"
  by (auto simp: ledger_def)

lemma ledger_closed:
  assumes "ledger (add_mset (KClose a) K) V L"
  shows "V a = Some True" "ledger K (V(a := None)) L"
proof -
  from assms have "count (add_mset (KClose a) K) (KClose a) = of_bool (V a = Some True)"
    by (rule ledgerD)
  then show a: "V a = Some True" by (cases "V a = Some True") auto
  with assms have "count K (KClose a) = 0" by (auto simp: ledger_def dest: spec [of _ a])
  moreover from assms have "count K (KClose b) = of_bool (V b = Some True)" if "b \<noteq> a" for b
    using that ledgerD(3) [OF assms, of b] by simp
  moreover have "KQuery a cmd u \<notin># K" for cmd u
    using ledgerD(1) [OF assms, of a cmd u] a by auto
  ultimately show "ledger K (V(a := None)) L"
    using assms by (auto simp: ledger_def)
qed

section \<open>What a driver promises\<close>

definition view :: "db_mem \<Rightarrow> nat \<Rightarrow> bool option" where
  "view m a = map_option is_closed (contexts m a)"

lemma view_put [simp]: "view (put_context a c m) = (view m)(a \<mapsto> is_closed c)"
  by (auto simp: view_def put_context_def)

text \<open>The mutex of a context after an access of thread \<open>t\<close>, which held it (\<open>was\<close>) or not.\<close>

definition lock_moves :: "nat \<Rightarrow> nat option \<Rightarrow> bool \<Rightarrow> bool \<Rightarrow> nat option \<Rightarrow> bool" where
  "lock_moves t l was now l' \<longleftrightarrow>
     l' = (if now then Some t else if was then None else l) \<and> (now \<and> \<not> was \<longrightarrow> l = None)"

definition c_inside :: "close_pos option \<Rightarrow> bool" where
  "c_inside p \<longleftrightarrow> p \<noteq> None \<and> p \<noteq> Some C_Begin"

definition c_freed :: "close_pos option \<Rightarrow> bool" where
  "c_freed p \<longleftrightarrow> p = None \<or> p = Some C_Freed \<or> p = Some C_Cleared"

fun c_left :: "close_pos option \<Rightarrow> nat" where
  "c_left None = 0"
| "c_left (Some C_Begin) = 4"
| "c_left (Some C_Locked) = 3"
| "c_left (Some C_Freed) = 2"
| "c_left (Some C_Cleared) = 1"

lemma c_flags [simp]:
  "\<not> c_inside None" "\<not> c_inside (Some C_Begin)" "c_inside (Some C_Locked)" "c_inside (Some C_Freed)" "c_inside (Some C_Cleared)"
  "c_freed None" "\<not> c_freed (Some C_Begin)" "\<not> c_freed (Some C_Locked)" "c_freed (Some C_Freed)" "c_freed (Some C_Cleared)"
  by (simp_all add: c_inside_def c_freed_def)

fun k_left :: "connect_pos option \<Rightarrow> nat" where
  "k_left None = 0"
| "k_left (Some K_Inside) = 1"
| "k_left (Some K_Begin) = 2"

definition mem_finite :: "db_mem \<Rightarrow> bool" where
  "mem_finite m \<longleftrightarrow> finite (dom (contexts m)) \<and> finite (live_conns m)"

lemma mem_finite_put [simp]: "mem_finite m \<Longrightarrow> mem_finite (put_context a c m)"
  by (simp add: mem_finite_def put_context_def)

text \<open>
  \<open>inside\<close>: the thread holds the mutex; \<open>copies\<close>: it is inside \<open>small_alloc\<close>. \<open>knows k\<close>: the
  handle it has read, if any, is \<open>k\<close>. \<open>sent\<close>: the command went to the server. \<open>traced P\<close>: the
  answer on its way satisfies \<open>P\<close>. A work function fails for two reasons only: a null answer
  of the library, and another thread inside \<open>small_alloc\<close>.
\<close>

locale db_driver =
  fixes D :: "('c, 'v, 'a, 'p) driver"
    and inside sent copies :: "'p \<Rightarrow> bool"
    and left :: "'p \<Rightarrow> nat"
    and knows :: "nat \<Rightarrow> 'p \<Rightarrow> bool"
    and traced :: "('a \<Rightarrow> bool) \<Rightarrow> 'v query_req \<Rightarrow> 'p \<Rightarrow> bool"
    and reads :: "'a \<Rightarrow> string option \<times> 'v option"
    and given :: "'a \<Rightarrow> bool"
    and texts :: "string \<Rightarrow> string option"
  assumes some_given: "\<exists>ans. given ans"
    and connect_finite: "mem_finite m \<Longrightarrow> d_connect D t opened a cr kp m = Goes (cr', kp', m') \<Longrightarrow> mem_finite m'"
    and query_finite: "mem_finite m \<Longrightarrow> d_query D t ans r p m = Goes (r', p', m', evs) \<Longrightarrow> mem_finite m'"
    and close_finite: "mem_finite m \<Longrightarrow> d_close D t a cp m = Goes (cp', m') \<Longrightarrow> mem_finite m'"
    and connect_alloc: "d_connect D t opened a cr kp m = Goes (cr', kp', m') \<Longrightarrow>
      lock_moves t (allocating m) (kp = K_Inside) (kp' = Some K_Inside) (allocating m')"
    and query_alloc: "d_query D t ans r p m = Goes (r', p', m', evs) \<Longrightarrow>
      lock_moves t (allocating m) (copies p) (case_option False copies p') (allocating m')"
    and close_alloc: "d_close D t a cp m = Goes (cp', m') \<Longrightarrow> allocating m' = allocating m"
    and copies_inside: "copies p \<Longrightarrow> inside p"
    and query_starts: "\<not> inside (d_query0 D)" "\<not> sent (d_query0 D)" "\<not> copies (d_query0 D)" "knows k (d_query0 D)" "traced P r (d_query0 D)"
    and traced_mono: "traced P r p \<Longrightarrow> (\<And>b. P b \<Longrightarrow> Q b) \<Longrightarrow> traced Q r p"
    and query_steps: "contexts m (q_context r) = Some c \<Longrightarrow> pConn c = Some k \<Longrightarrow> k \<in> live_conns m \<Longrightarrow>
      knows k p \<Longrightarrow> (inside p \<longleftrightarrow> ctx_lock c = Some t) \<Longrightarrow> texts (q_cmd r) = Some wire \<Longrightarrow> traced P r p \<Longrightarrow>
      (case d_query D t ans r p m of
         Blocks \<Rightarrow> \<not> inside p \<and> ctx_lock c \<noteq> None
       | Fails e \<Rightarrow> e = NullDeref \<and> \<not> given ans \<or> e = DataRace \<and> \<not> copies p \<and> allocating m \<noteq> None
       | Goes (r', p', m', evs) \<Rightarrow>
           (\<exists>l. contexts m' = (contexts m)(q_context r \<mapsto> c\<lparr>ctx_lock := l\<rparr>) \<and>
                lock_moves t (ctx_lock c) (inside p) (case_option False inside p') l) \<and>
           live_conns m' = live_conns m \<and>
           q_context r' = q_context r \<and> q_cmd r' = q_cmd r \<and> q_udata r' = q_udata r \<and>
           (\<forall>e \<in> set evs. \<exists>b. e = Command (q_udata r) k wire b) \<and>
           length evs + of_bool (sent p) = of_bool (case_option True sent p') \<and>
           case_option 0 left p' < left p \<and>
           (case p' of
              None \<Rightarrow> \<exists>b. (P b \<or> Command (q_udata r) k wire b \<in> set evs) \<and> reads b = (q_err r', q_result r')
            | Some q \<Rightarrow> knows k q \<and> traced (\<lambda>b. P b \<or> Command (q_udata r) k wire b \<in> set evs) r' q))"
    and connect_steps: "contexts m a = None \<Longrightarrow> (\<forall>ce k. opened = Some (ce, k) \<longrightarrow> k \<notin> live_conns m) \<Longrightarrow>
      (case d_connect D t opened a cr kp m of
         Blocks \<Rightarrow> False
       | Fails e \<Rightarrow> e = NullDeref \<and> opened = None \<or> e = DataRace \<and> kp \<noteq> K_Inside \<and> allocating m \<noteq> None
       | Goes (cr', kp', m') \<Rightarrow> live_conns m \<subseteq> live_conns m' \<and> k_left kp' < k_left (Some kp) \<and>
           (contexts m' = contexts m \<or>
            (\<exists>ce k. opened = Some (ce, k) \<and> k \<in> live_conns m' \<and>
               contexts m' = (contexts m)(a \<mapsto> \<lparr>pConn = Some k, ctx_lock = None, is_closed = False\<rparr>))))"
    and close_steps: "contexts m a = Some c \<Longrightarrow> (c_inside (Some cp) \<longleftrightarrow> ctx_lock c = Some t) \<Longrightarrow>
      (\<not> c_freed (Some cp) \<Longrightarrow> \<exists>k \<in> live_conns m. pConn c = Some k) \<Longrightarrow>
      (case d_close D t a cp m of
         Blocks \<Rightarrow> \<not> c_inside (Some cp) \<and> ctx_lock c \<noteq> None
       | Fails e \<Rightarrow> False
       | Goes (cp', m') \<Rightarrow>
           (\<exists>c'. contexts m' = (contexts m)(a \<mapsto> c') \<and> is_closed c' = is_closed c \<and>
              lock_moves t (ctx_lock c) (c_inside (Some cp)) (c_inside cp') (ctx_lock c') \<and>
              (\<not> c_freed cp' \<longrightarrow> pConn c' = pConn c)) \<and>
           c_left cp' < c_left (Some cp) \<and> (c_freed (Some cp) \<longrightarrow> c_freed cp') \<and>
           (\<forall>k \<in> live_conns m. pConn c \<noteq> Some k \<or> c_freed (Some cp) \<or> \<not> c_freed cp' \<longrightarrow> k \<in> live_conns m'))"
begin

end

section \<open>The invariant\<close>

definition key :: "('c, 'v, 'p) stage \<Rightarrow> key" where
  "key s = key_of (stage_work s)"

definition keys :: "('c, 'v, 'p) stage multiset \<Rightarrow> key multiset" where
  "keys M = image_mset key M"

lemma keys_add [simp]: "keys {#} = {#}" "keys (add_mset s M) = add_mset (key s) (keys M)"
  by (simp_all add: keys_def)

fun runs :: "nat \<Rightarrow> ('c, 'v, 'p) stage \<Rightarrow> bool" where
  "runs t (Running t' x) = (t' = t)"
| "runs t _ = False"

text \<open>The handle of context \<open>a\<close> has been closed.\<close>

fun conn_done :: "nat \<Rightarrow> ('c, 'v, 'p) stage \<Rightarrow> bool" where
  "conn_done a (Running t (Closing b p)) = (b = a \<and> c_freed p)"
| "conn_done a (Finished (Close b)) = (b = a)"
| "conn_done a _ = False"

text \<open>Thread \<open>t\<close> holds the mutex of context \<open>a\<close>.\<close>

fun holds_by :: "('p \<Rightarrow> bool) \<Rightarrow> nat \<Rightarrow> nat \<Rightarrow> ('c, 'v, 'p) stage \<Rightarrow> bool" where
  "holds_by ins a t (Running t' (Querying r p)) = (t' = t \<and> q_context r = a \<and> case_option False ins p)"
| "holds_by ins a t (Running t' (Closing b p)) = (t' = t \<and> b = a \<and> c_inside p)"
| "holds_by ins a t _ = False"

fun sent_by :: "('p \<Rightarrow> bool) \<Rightarrow> nat \<Rightarrow> ('c, 'v, 'p) stage \<Rightarrow> bool" where
  "sent_by snt u (Running t (Querying r p)) = (q_udata r = u \<and> case_option True snt p)"
| "sent_by snt u (Finished (Query r)) = (q_udata r = u)"
| "sent_by snt u _ = False"

lemma conn_done_key: "conn_done a s \<Longrightarrow> key s = KClose a"
  by (induction a s rule: conn_done.induct) (auto simp: key_def)

lemma holds_by_runs: "holds_by ins a t s \<Longrightarrow> runs t s"
  by (induction ins a t s rule: holds_by.induct) auto

text \<open>The server got the text of request \<open>r\<close> and answered \<open>b\<close>.\<close>

definition sent_text ::
  "(string \<Rightarrow> string option) \<Rightarrow> ('v, 'a) event list \<Rightarrow> 'v query_req \<Rightarrow> 'a \<Rightarrow> bool" where
  "sent_text tx L r b \<longleftrightarrow> (\<exists>k wire. tx (q_cmd r) = Some wire \<and> Command (q_udata r) k wire b \<in> set L)"

lemma sent_text_mono: "sent_text tx L r b \<Longrightarrow> set L \<subseteq> set L' \<Longrightarrow> sent_text tx L' r b"
  by (auto simp: sent_text_def)

lemma sent_text_cong:
  "q_cmd r' = q_cmd r \<Longrightarrow> q_udata r' = q_udata r \<Longrightarrow> sent_text tx L r' = sent_text tx L r"
  by (simp add: sent_text_def fun_eq_iff)

fun textual :: "(string \<Rightarrow> string option) \<Rightarrow> ('c, 'v) work \<Rightarrow> bool" where
  "textual tx (Query r) = (tx (q_cmd r) \<noteq> None)"
| "textual tx _ = True"

lemma Suc_of_bool: "Suc n = of_bool b \<longleftrightarrow> b \<and> n = 0"
  by (cases b) auto

lemma key_in_keys: "s \<in># M \<Longrightarrow> key s \<in># keys M"
  by (simp add: keys_def)

lemma not_done_if_open:
  assumes "ledger (keys M) V L" "V a \<noteq> Some True" "s \<in># M"
  shows "\<not> conn_done a s"
proof
  assume "conn_done a s"
  then have "key s = KClose a" by (rule conn_done_key)
  with key_in_keys [OF assms(3)] have "KClose a \<in># keys M" by simp
  then have "0 < count (keys M) (KClose a)" by simp
  with ledgerD(3) [OF assms(1), of a] assms(2) show False by simp
qed

lemma not_done_if_alone:
  assumes "ledger (add_mset (KClose a) (keys N)) V L" "s \<in># N"
  shows "\<not> conn_done a s"
proof
  assume "conn_done a s"
  then have "key s = KClose a" by (rule conn_done_key)
  with key_in_keys [OF assms(2)] have "KClose a \<in># keys N" by simp
  then have "1 < count (add_mset (KClose a) (keys N)) (KClose a)" by simp
  with ledgerD(3) [OF assms(1), of a] show False by (cases "V a = Some True") simp_all
qed

lemma queries_context_key: "key_of w = KQuery a cmd u \<Longrightarrow> queries_context a w"
  by (cases w) (auto simp: queries_context_def)

context db_driver
begin

definition replied :: "('v, 'a) event list \<Rightarrow> 'v query_req \<Rightarrow> bool" where
  "replied L r \<longleftrightarrow> (\<exists>b. sent_text texts L r b \<and> reads b = (q_err r, q_result r))"

definition stage_ok :: "db_mem \<Rightarrow> ('v, 'a) event list \<Rightarrow> ('c, 'v, 'p) stage \<Rightarrow> bool" where
  "stage_ok m L s =
     (case s of
        Running t (Querying r (Some p)) \<Rightarrow>
          traced (sent_text texts L r) r p \<and>
          (\<forall>c k. contexts m (q_context r) = Some c \<longrightarrow> pConn c = Some k \<longrightarrow> knows k p)
      | Running t (Querying r None) \<Rightarrow> replied L r
      | Finished (Query r) \<Rightarrow> replied L r
      | _ \<Rightarrow> True)"

definition locks :: "('c, 'v, 'p) stage multiset \<Rightarrow> db_mem \<Rightarrow> bool" where
  "locks M m \<longleftrightarrow> (\<forall>a c. contexts m a = Some c \<longrightarrow>
     (\<forall>t. ctx_lock c = Some t \<longleftrightarrow> (\<exists>s \<in># M. holds_by inside a t s)))"

definition open_handle :: "('c, 'v, 'p) stage multiset \<Rightarrow> db_mem \<Rightarrow> nat \<Rightarrow> db_context \<Rightarrow> bool" where
  "open_handle M m a c \<longleftrightarrow> contexts m a = Some c \<and> (\<forall>s \<in># M. \<not> conn_done a s)"

definition handles :: "('c, 'v, 'p) stage multiset \<Rightarrow> db_mem \<Rightarrow> bool" where
  "handles M m \<longleftrightarrow>
     (\<forall>a c. open_handle M m a c \<longrightarrow> (\<exists>k \<in> live_conns m. pConn c = Some k)) \<and>
     (\<forall>a b c d. open_handle M m a c \<longrightarrow> open_handle M m b d \<longrightarrow> pConn c = pConn d \<longrightarrow> a = b)"

definition sends :: "('c, 'v, 'p) stage multiset \<Rightarrow> ('v, 'a) event list \<Rightarrow> bool" where
  "sends M L \<longleftrightarrow> (\<forall>u. commands u L = answers u L + size (filter_mset (sent_by sent u) M))"

definition replies :: "('v, 'a) event list \<Rightarrow> bool" where
  "replies L \<longleftrightarrow> (\<forall>e v u. Answered e v u \<in> set L \<longrightarrow>
     (\<exists>a cmd wire k b. Asked a cmd u \<in> set L \<and> texts cmd = Some wire \<and> Command u k wire b \<in> set L \<and>
        reads b = (e, v)))"

definition db_inv :: "('c, 'v, 'p) stage multiset \<Rightarrow> db_mem \<Rightarrow> ('v, 'a) event list \<Rightarrow> bool" where
  "db_inv M m L \<longleftrightarrow> ledger (keys M) (view m) L \<and> locks M m \<and> handles M m \<and>
     (\<forall>s \<in># M. stage_ok m L s \<and> textual texts (stage_work s)) \<and> sends M L \<and> replies L"

lemma db_invD:
  assumes "db_inv M m L"
  shows "ledger (keys M) (view m) L" "locks M m" "handles M m"
    "\<And>s. s \<in># M \<Longrightarrow> stage_ok m L s" "sends M L" "replies L"
    "\<And>s. s \<in># M \<Longrightarrow> textual texts (stage_work s)"
  using assms by (simp_all add: db_inv_def)

lemma replied_mono: "replied L r \<Longrightarrow> set L \<subseteq> set L' \<Longrightarrow> replied L' r"
  unfolding replied_def by (metis sent_text_mono)

lemma stage_ok_more:
  assumes "stage_ok m L s" "set L \<subseteq> set L'"
    and "\<And>t r p c' k. s = Running t (Querying r p) \<Longrightarrow> contexts m' (q_context r) = Some c' \<Longrightarrow> pConn c' = Some k \<Longrightarrow>
           \<exists>c. contexts m (q_context r) = Some c \<and> pConn c = Some k"
  shows "stage_ok m' L' s"
proof -
  have "traced (sent_text texts L' r) r p" if "traced (sent_text texts L r) r p" for r p
    using that by (rule traced_mono) (rule sent_text_mono [OF _ assms(2)])
  moreover have "replied L r \<Longrightarrow> replied L' r" for r
    using assms(2) by (rule replied_mono [rotated])
  ultimately have mono: "traced (sent_text texts L r) r p \<Longrightarrow> traced (sent_text texts L' r) r p"
    "replied L r \<Longrightarrow> replied L' r" for r p by blast+
  show ?thesis
  proof (cases s)
    case (Running t x)
    show ?thesis
    proof (cases x)
      case (Querying r p)
      show ?thesis
      proof (cases p)
        case (Some q)
        have "knows k q" if "contexts m' (q_context r) = Some c'" "pConn c' = Some k" for c' k
          using assms(1) assms(3) [OF _ that] Running Querying Some by (auto simp: stage_ok_def)
        with assms(1) mono(1) Running Querying Some show ?thesis by (simp add: stage_ok_def)
      qed (use assms(1) mono(2) Running Querying in \<open>simp add: stage_ok_def\<close>)
    qed (simp_all add: stage_ok_def Running)
  next
    case (Finished w)
    with assms(1) mono(2) show ?thesis by (cases w) (simp_all add: stage_ok_def)
  qed (simp add: stage_ok_def)
qed

lemma inv_start: "db_inv {#} \<lparr>contexts = Map.empty, live_conns = {}, allocating = None\<rparr> []"
proof -
  have "view \<lparr>contexts = Map.empty, live_conns = {}, allocating = None\<rparr> = Map.empty" by (simp add: view_def fun_eq_iff)
  then show ?thesis
    by (simp add: db_inv_def ledger_start locks_def handles_def open_handle_def sends_def replies_def)
qed

text \<open>A request that changes its stage and nothing else.\<close>

lemma inv_rename:
  assumes inv: "db_inv (add_mset s N) m L" and "key s' = key s"
    and "\<And>a t. holds_by inside a t s' = holds_by inside a t s" "\<And>a. conn_done a s' = conn_done a s"
    and "\<And>u. sent_by sent u s' = sent_by sent u s" "stage_ok m L s'"
    and "textual texts (stage_work s) \<Longrightarrow> textual texts (stage_work s')"
  shows "db_inv (add_mset s' N) m L"
proof -
  have "open_handle (add_mset s' N) m = open_handle (add_mset s N) m"
    using assms by (simp add: open_handle_def fun_eq_iff)
  with assms show ?thesis
    unfolding db_inv_def by (auto simp: locks_def handles_def sends_def)
qed

lemma inv_takes:
  assumes "db_inv (add_mset (Waiting w) N) m L"
  shows "db_inv (add_mset (Running t (task_of D w)) N) m L"
  using query_starts
  by (intro inv_rename [OF assms]; cases w) (simp_all add: key_def stage_ok_def)

lemma inv_returns:
  assumes "db_inv (add_mset (Running t x) N) m L" "returned x"
  shows "db_inv (add_mset (Finished (work_of x)) N) m L"
  using assms(2) db_invD(4) [OF assms(1), of "Running t x"]
  by (intro inv_rename [OF assms(1)]; cases x) (simp_all add: key_def stage_ok_def)

lemma locks_more:
  assumes "locks M m" "\<And>a t. holds_by inside a t s = False"
    and "\<And>a c. contexts m' a = Some c \<Longrightarrow> \<exists>d. contexts m a = Some d \<and> ctx_lock d = ctx_lock c"
  shows "locks (add_mset s M) m'"
  unfolding locks_def
proof (intro allI impI)
  fix a c t assume "contexts m' a = Some c"
  from assms(3) [OF this] obtain d where "contexts m a = Some d" "ctx_lock d = ctx_lock c" by blast
  with assms(1,2) show "(ctx_lock c = Some t) = (\<exists>s\<in>#add_mset s M. holds_by inside a t s)"
    by (fastforce simp: locks_def)
qed

lemma handles_more:
  assumes "handles M m" "live_conns m \<subseteq> live_conns m'"
    and "\<And>a c. open_handle M' m' a c \<Longrightarrow> \<exists>d. open_handle M m a d \<and> pConn d = pConn c"
  shows "handles M' m'"
  unfolding handles_def
proof (intro conjI allI impI)
  fix a c assume "open_handle M' m' a c"
  from assms(3) [OF this] obtain d where "open_handle M m a d" "pConn d = pConn c" by blast
  with assms(1,2) show "\<exists>k\<in>live_conns m'. pConn c = Some k" unfolding handles_def by (metis subsetD)
next
  fix a b c d assume "open_handle M' m' a c" "open_handle M' m' b d" "pConn c = pConn d"
  with assms(3) [of a c] assms(3) [of b d] assms(1) show "a = b" unfolding handles_def by metis
qed

lemma replies_more:
  assumes "replies L" "\<And>e v u. Answered e v u \<notin> set evs"
  shows "replies (L @ evs)"
  unfolding replies_def
proof (intro allI impI)
  fix e v u assume "Answered e v u \<in> set (L @ evs)"
  with assms(2) have "Answered e v u \<in> set L" by simp
  with assms(1) obtain a cmd wire k b where
    "Asked a cmd u \<in> set L" "texts cmd = Some wire" "Command u k wire b \<in> set L" "reads b = (e, v)"
    unfolding replies_def by blast
  then show "\<exists>a cmd wire k b. Asked a cmd u \<in> set (L @ evs) \<and> texts cmd = Some wire \<and>
      Command u k wire b \<in> set (L @ evs) \<and> reads b = (e, v)"
    by (metis Un_iff set_append)
qed

text \<open>The operations.\<close>

lemma inv_calls_connect:
  assumes "db_inv M m L"
  shows "db_inv (add_mset (Waiting (Connect r)) M) m L"
  using assms unfolding db_inv_def
  by (auto simp: key_def ledger_connect locks_def handles_def open_handle_def sends_def stage_ok_def)

lemma inv_calls_query:
  assumes "db_inv M m L" "contexts m (q_context r) = Some c" "\<not> is_closed c" "texts (q_cmd r) \<noteq> None"
  shows "db_inv (add_mset (Waiting (Query r)) M) m (L @ [Asked (q_context r) (q_cmd r) (q_udata r)])"
proof -
  have "view m (q_context r) = Some False" using assms(2,3) by (simp add: view_def)
  then have "ledger (keys (add_mset (Waiting (Query r)) M)) (view m) (L @ [Asked (q_context r) (q_cmd r) (q_udata r)])"
    using ledger_asked [OF db_invD(1) [OF assms(1)]] by (simp add: key_def)
  moreover have "stage_ok m (L @ [e]) s" if "s \<in># M" for s e
    by (rule stage_ok_more [OF db_invD(4) [OF assms(1) that]]) auto
  moreover have "replies (L @ [Asked b cmd u])" for b cmd u
    by (rule replies_more [OF db_invD(6) [OF assms(1)]]) simp
  moreover have "locks (add_mset (Waiting (Query r)) M) m"
    by (rule locks_more [OF db_invD(2) [OF assms(1)]]) auto
  moreover have "handles (add_mset (Waiting (Query r)) M) m"
    by (rule handles_more [OF db_invD(3) [OF assms(1)]]) (auto simp: open_handle_def)
  ultimately show ?thesis
    using db_invD(5,7) [OF assms(1)] assms(4) unfolding db_inv_def by (auto simp: sends_def stage_ok_def)
qed

lemma inv_calls_close:
  assumes "db_inv M m L" "contexts m a = Some c" "\<not> is_closed c" "\<And>cmd u. KQuery a cmd u \<notin># keys M"
  shows "db_inv (add_mset (Waiting (Close a)) M) (put_context a (c\<lparr>is_closed := True\<rparr>) m) L"
proof -
  have V: "view m a = Some False" using assms(2,3) by (simp add: view_def)
  let ?m = "put_context a (c\<lparr>is_closed := True\<rparr>) m"
  have same: "contexts ?m b = Some d \<Longrightarrow> \<exists>d'. contexts m b = Some d' \<and> ctx_lock d' = ctx_lock d \<and> pConn d' = pConn d" for b d
    using assms(2) by (auto simp: put_context_def split: if_splits)
  have "ledger (keys (add_mset (Waiting (Close a)) M)) (view ?m) L"
    using ledger_close [OF db_invD(1) [OF assms(1)] V assms(4)] by (simp add: key_def)
  moreover have "locks (add_mset (Waiting (Close a)) M) ?m"
    by (rule locks_more [OF db_invD(2) [OF assms(1)]]) (use same in auto)
  moreover have "handles (add_mset (Waiting (Close a)) M) ?m"
    by (rule handles_more [OF db_invD(3) [OF assms(1)]])
      (use assms(2) in \<open>auto simp: open_handle_def put_context_def split: if_splits\<close>)
  moreover have "stage_ok ?m L s" if "s \<in># M" for s
  proof (rule stage_ok_more [OF db_invD(4) [OF assms(1) that] order.refl])
    fix b d k assume "contexts ?m b = Some d" "pConn d = Some k"
    with same [of b d] show "\<exists>c. contexts m b = Some c \<and> pConn c = Some k" by auto
  qed
  ultimately show ?thesis
    using assms(1) unfolding db_inv_def by (auto simp: sends_def stage_ok_def)
qed

text \<open>The accesses of the workers.\<close>

lemma query_context:
  assumes "db_inv M m L" "s \<in># M" "key s = KQuery a cmd u"
  shows "\<exists>c. contexts m a = Some c \<and> \<not> is_closed c"
  using ledgerD(1) [OF db_invD(1) [OF assms(1)]] key_in_keys [OF assms(2)] assms(3)
  by (auto simp: view_def)

lemma close_context:
  assumes "db_inv M m L" "s \<in># M" "key s = KClose a"
  shows "\<exists>c. contexts m a = Some c \<and> is_closed c"
proof -
  from key_in_keys [OF assms(2)] assms(3) have "0 < count (keys M) (KClose a)" by simp
  with ledgerD(3) [OF db_invD(1) [OF assms(1)], of a] show ?thesis
    by (cases "view m a = Some True") (auto simp: view_def)
qed

lemma holder_context:
  assumes "db_inv M m L" "s \<in># M" "holds_by inside a t s"
  shows "\<exists>c. contexts m a = Some c"
proof -
  from assms(3) have "(\<exists>cmd u. key s = KQuery a cmd u) \<or> key s = KClose a"
    by (cases "(inside, a, t, s)" rule: holds_by.cases) (auto simp: key_def)
  with query_context [OF assms(1,2)] close_context [OF assms(1,2)] show ?thesis by blast
qed

lemma open_handle_live:
  assumes "db_inv M m L" "contexts m a = Some c" "\<not> is_closed c"
  shows "\<exists>k \<in> live_conns m. pConn c = Some k"
proof -
  from assms(2,3) have "view m a \<noteq> Some True" by (simp add: view_def)
  then have "open_handle M m a c"
    using not_done_if_open [OF db_invD(1) [OF assms(1)]] assms(2) by (simp add: open_handle_def)
  with db_invD(3) [OF assms(1)] show ?thesis by (simp add: handles_def)
qed

lemma inv_connects:
  assumes inv: "db_inv (add_mset (Running t (Connecting r p)) N) m L"
    and new: "contexts m a = None" "k \<notin> live_conns m" "live_conns m \<subseteq> live_conns m'"
    and m': "contexts m' = (contexts m)(a \<mapsto> \<lparr>pConn = Some k, ctx_lock = None, is_closed = False\<rparr>)" "k \<in> live_conns m'"
  shows "db_inv (add_mset (Running t (Connecting r' p')) N) m' L"
proof -
  let ?s = "Running t (Connecting r p)" and ?s' = "Running t (Connecting r' p')"
  let ?c = "\<lparr>pConn = Some k, ctx_lock = None, is_closed = False\<rparr>"
  have V: "view m' = (view m)(a \<mapsto> False)" using m'(1) by (auto simp: view_def)
  have "view m a = None" using new(1) by (simp add: view_def)
  then have "ledger (keys (add_mset ?s' N)) (view m') L"
    using ledger_opened [OF db_invD(1) [OF inv]] by (simp add: key_def V)
  moreover have "locks (add_mset ?s' N) m'"
    unfolding locks_def
  proof (intro allI impI)
    fix b c t' assume c: "contexts m' b = Some c"
    show "(ctx_lock c = Some t') = (\<exists>s\<in>#add_mset ?s' N. holds_by inside b t' s)"
    proof (cases "b = a")
      case True
      have "\<not> holds_by inside a t' s" if "s \<in># N" for s
        using holder_context [OF inv, of s a t'] that new(1) by auto
      with True c m'(1) show ?thesis by auto
    next
      case False
      with c m'(1) db_invD(2) [OF inv] show ?thesis by (simp add: locks_def)
    qed
  qed
  moreover have "handles (add_mset ?s' N) m'"
  proof -
    have old: "\<And>b c. open_handle (add_mset ?s N) m b c \<Longrightarrow> \<exists>k'\<in>live_conns m. pConn c = Some k'"
      "\<And>b b' c d. open_handle (add_mset ?s N) m b c \<Longrightarrow> open_handle (add_mset ?s N) m b' d \<Longrightarrow> pConn c = pConn d \<Longrightarrow> b = b'"
      using db_invD(3) [OF inv] unfolding handles_def by blast+
    have o: "open_handle (add_mset ?s' N) m' b c \<Longrightarrow> b = a \<and> c = ?c \<or> b \<noteq> a \<and> open_handle (add_mset ?s N) m b c" for b c
      using m'(1) by (auto simp: open_handle_def split: if_splits)
    show ?thesis
      unfolding handles_def
    proof (intro conjI allI impI)
      fix b c assume "open_handle (add_mset ?s' N) m' b c"
      from o [OF this] show "\<exists>k\<in>live_conns m'. pConn c = Some k"
        using old(1) [of b c] m'(2) new(3) by auto
    next
      fix b b' c d assume "open_handle (add_mset ?s' N) m' b c" "open_handle (add_mset ?s' N) m' b' d" "pConn c = pConn d"
      with o [of b c] o [of b' d] show "b = b'"
        using old(1) [of b c] old(1) [of b' d] old(2) [of b c b' d] new(2) by auto
    qed
  qed
  moreover have "stage_ok m' L s" if s: "s \<in># N" for s
  proof (rule stage_ok_more [OF db_invD(4) [OF inv] order.refl])
    fix t' r p c' k' assume "s = Running t' (Querying r p)" "contexts m' (q_context r) = Some c'" "pConn c' = Some k'"
    moreover from this have "q_context r \<noteq> a"
      using query_context [OF inv, of s] s new(1) by (auto simp: key_def)
    ultimately show "\<exists>c. contexts m (q_context r) = Some c \<and> pConn c = Some k'" using m'(1) by auto
  qed (use s in simp)
  ultimately show ?thesis
    using inv unfolding db_inv_def by (auto simp: sends_def stage_ok_def)
qed

lemma inv_connects_not:
  assumes inv: "db_inv (add_mset (Running t (Connecting r p)) N) m L"
    and "contexts m' = contexts m" "live_conns m \<subseteq> live_conns m'"
  shows "db_inv (add_mset (Running t (Connecting r' p')) N) m' L"
proof -
  let ?s = "Running t (Connecting r' p')"
  have inv': "db_inv (add_mset ?s N) m L"
    by (rule inv_rename [OF inv]) (simp_all add: key_def stage_ok_def)
  have "view m' = view m" using assms(2) by (simp add: view_def fun_eq_iff)
  moreover have "handles (add_mset ?s N) m'"
    by (rule handles_more [OF db_invD(3) [OF inv'] assms(3)]) (simp add: open_handle_def assms(2))
  moreover have "stage_ok m' L s" if "s \<in># add_mset ?s N" for s
    by (rule stage_ok_more [OF db_invD(4) [OF inv' that] order.refl]) (simp add: assms(2))
  ultimately show ?thesis
    using inv' unfolding db_inv_def by (simp add: locks_def assms(2))
qed

lemma locks_moved:
  assumes "locks (add_mset s N) m" "contexts m a = Some c" "contexts m' = (contexts m)(a \<mapsto> c')"
    and "\<And>b t'. holds_by inside b t' s = (b = a \<and> t' = t \<and> was)"
    and "\<And>b t'. holds_by inside b t' s' = (b = a \<and> t' = t \<and> now)"
    and "\<And>b x. x \<in># N \<Longrightarrow> \<not> holds_by inside b t x"
    and "lock_moves t (ctx_lock c) was now (ctx_lock c')"
  shows "locks (add_mset s' N) m'"
  unfolding locks_def
proof (intro allI impI)
  fix b d t' assume d: "contexts m' b = Some d"
  show "(ctx_lock d = Some t') = (\<exists>x\<in>#add_mset s' N. holds_by inside b t' x)"
  proof (cases "b = a")
    case True
    with d assms(3) have "d = c'" by simp
    moreover have "(ctx_lock c = Some t'') = (t'' = t \<and> was \<or> (\<exists>x\<in>#N. holds_by inside a t'' x))" for t''
      using assms(1,2,4) by (fastforce simp: locks_def)
    from this [of t] this [of t'] have "(ctx_lock c' = Some t') = (t' = t \<and> now \<or> (\<exists>x\<in>#N. holds_by inside a t' x))"
      using assms(6,7) by (auto simp: lock_moves_def split: if_splits)
    ultimately show ?thesis using True assms(5) by auto
  next
    case False
    with d assms(1,3-5) show ?thesis by (simp add: locks_def)
  qed
qed

lemma not_holding: "(\<And>y. Running t y \<notin># N) \<Longrightarrow> x \<in># N \<Longrightarrow> \<not> holds_by inside b t x"
  by (auto dest: holds_by_runs elim!: runs.elims)

lemma query_ready:
  assumes inv: "db_inv (add_mset (Running t (Querying r (Some p))) N) m L" and alone: "\<And>y. Running t y \<notin># N"
  obtains c k wire where "contexts m (q_context r) = Some c" "\<not> is_closed c" "pConn c = Some k" "k \<in> live_conns m"
    "knows k p" "inside p \<longleftrightarrow> ctx_lock c = Some t" "traced (sent_text texts L r) r p" "texts (q_cmd r) = Some wire"
proof -
  let ?s = "Running t (Querying r (Some p))"
  obtain c where c: "contexts m (q_context r) = Some c" "\<not> is_closed c"
    using query_context [OF inv, of ?s] by (auto simp: key_def)
  obtain k where k: "k \<in> live_conns m" "pConn c = Some k"
    using open_handle_live [OF inv c] by blast
  have "stage_ok m L ?s" using db_invD(4) [OF inv] by simp
  moreover have "inside p \<longleftrightarrow> ctx_lock c = Some t"
    using db_invD(2) [OF inv] c(1) not_holding [OF alone] by (auto simp: locks_def)
  moreover obtain wire where "texts (q_cmd r) = Some wire"
    using db_invD(7) [OF inv, of ?s] by auto
  ultimately show thesis using c k that by (simp add: stage_ok_def)
qed

lemma inv_queries:
  assumes inv: "db_inv (add_mset (Running t (Querying r (Some p))) N) m L" and alone: "\<And>y. Running t y \<notin># N"
    and go: "d_query D t ans r p m = Goes (r', p', m', evs)"
  shows "db_inv (add_mset (Running t (Querying r' p')) N) m' (L @ evs)"
proof -
  let ?s = "Running t (Querying r (Some p))" and ?s' = "Running t (Querying r' p')"
  let ?P = "sent_text texts L r"
  obtain c k wire where c: "contexts m (q_context r) = Some c" "\<not> is_closed c" "pConn c = Some k" "k \<in> live_conns m"
    "knows k p" "inside p \<longleftrightarrow> ctx_lock c = Some t" "traced ?P r p" "texts (q_cmd r) = Some wire"
    using query_ready [OF inv alone] by blast
  note st = query_steps [OF c(1,3-6,8,7), of ans, unfolded go, simplified]
  from st obtain l where ctx: "contexts m' = (contexts m)(q_context r \<mapsto> c\<lparr>ctx_lock := l\<rparr>)"
    and l: "lock_moves t (ctx_lock c) (inside p) (case_option False inside p') l" by blast
  from st have live: "live_conns m' = live_conns m" by simp
  from st have r': "q_context r' = q_context r" "q_cmd r' = q_cmd r" "q_udata r' = q_udata r" by simp_all
  have evs: "e \<in> set evs \<Longrightarrow> \<exists>b. e = Command (q_udata r) k wire b" for e using st by blast
  then have counts: "answers u evs = 0" "commands u evs = (if u = q_udata r then length evs else 0)" for u
    by (induction evs) fastforce+
  have "view m' = view m" using c(1) by (simp add: view_def ctx fun_eq_iff)
  moreover have "ledger (keys (add_mset ?s' N)) (view m) (L @ evs)"
    using ledger_commands [OF db_invD(1) [OF inv], of evs] evs r' by (fastforce simp: key_def)
  moreover have "locks (add_mset ?s' N) m'"
    by (rule locks_moved [OF db_invD(2) [OF inv] c(1) ctx _ _ not_holding [OF alone]])
      (use r' l in auto)
  moreover have "handles (add_mset ?s' N) m'"
    by (rule handles_more [OF db_invD(3) [OF inv]])
      (use c(1) live in \<open>auto simp: open_handle_def ctx split: if_splits\<close>)
  moreover have "stage_ok m' (L @ evs) s" if s: "s \<in># N" for s
  proof (rule stage_ok_more [OF db_invD(4) [OF inv]])
    fix b d k' assume "contexts m' b = Some d" "pConn d = Some k'"
    with c(1) show "\<exists>c. contexts m b = Some c \<and> pConn c = Some k'" by (auto simp: ctx split: if_splits)
  qed (use s in auto)
  moreover have more: "sent_text texts (L @ evs) r b" if "?P b \<or> Command (q_udata r) k wire b \<in> set evs" for b
    using that c(8) by (auto simp: sent_text_def)
  have "stage_ok m' (L @ evs) ?s'"
  proof (cases p')
    case None
    with st obtain b where "?P b \<or> Command (q_udata r) k wire b \<in> set evs" "reads b = (q_err r', q_result r')"
      by auto
    with None more [of b] show ?thesis
      by (auto simp: stage_ok_def replied_def sent_text_cong [OF r'(2,3)])
  next
    case (Some q)
    with st have "knows k q" "traced (\<lambda>b. ?P b \<or> Command (q_udata r) k wire b \<in> set evs) r' q" by auto
    moreover from this(2) have "traced (sent_text texts (L @ evs) r) r' q"
      by (rule traced_mono) (rule more)
    ultimately show ?thesis
      using Some r'(1) c(3) by (auto simp: stage_ok_def ctx sent_text_cong [OF r'(2,3)])
  qed
  moreover have "sends (add_mset ?s' N) (L @ evs)"
    using db_invD(5) [OF inv] st r' unfolding sends_def
    by (auto simp: counts Suc_of_bool split: option.splits)
  moreover have "replies (L @ evs)"
    by (rule replies_more [OF db_invD(6) [OF inv]]) (use evs in blast)
  moreover have "textual texts (stage_work s)" if "s \<in># add_mset ?s' N" for s
    using that db_invD(7) [OF inv] c(8) r' by auto
  ultimately show ?thesis unfolding db_inv_def by auto
qed

lemma close_ready:
  assumes inv: "db_inv (add_mset (Running t (Closing a (Some p))) N) m L" and alone: "\<And>y. Running t y \<notin># N"
  obtains c where "contexts m a = Some c" "is_closed c" "c_inside (Some p) \<longleftrightarrow> ctx_lock c = Some t"
    "\<And>x. x \<in># N \<Longrightarrow> \<not> conn_done a x"
    "\<not> c_freed (Some p) \<Longrightarrow> open_handle (add_mset (Running t (Closing a (Some p))) N) m a c"
proof -
  let ?s = "Running t (Closing a (Some p))"
  obtain c where c: "contexts m a = Some c" "is_closed c"
    using close_context [OF inv, of ?s] by (auto simp: key_def)
  have "c_inside (Some p) \<longleftrightarrow> ctx_lock c = Some t"
    using db_invD(2) [OF inv] c(1) not_holding [OF alone] by (auto simp: locks_def)
  moreover have "x \<in># N \<Longrightarrow> \<not> conn_done a x" for x
    using not_done_if_alone [of a N "view m" L x] db_invD(1) [OF inv] by (simp add: key_def)
  ultimately show thesis using c that by (auto simp: open_handle_def)
qed

lemma inv_closes:
  assumes inv: "db_inv (add_mset (Running t (Closing a (Some p))) N) m L" and alone: "\<And>y. Running t y \<notin># N"
    and go: "d_close D t a p m = Goes (p', m')"
  shows "db_inv (add_mset (Running t (Closing a p')) N) m' L"
proof -
  let ?s = "Running t (Closing a (Some p))" and ?s' = "Running t (Closing a p')"
  obtain c where c: "contexts m a = Some c" "is_closed c" "c_inside (Some p) \<longleftrightarrow> ctx_lock c = Some t"
    and nd: "\<And>x. x \<in># N \<Longrightarrow> \<not> conn_done a x"
    and op: "\<not> c_freed (Some p) \<Longrightarrow> open_handle (add_mset ?s N) m a c"
    using close_ready [OF inv alone] by blast
  have hs: "\<And>b d. open_handle (add_mset ?s N) m b d \<Longrightarrow> \<exists>k'\<in>live_conns m. pConn d = Some k'"
    "\<And>b b' d d'. open_handle (add_mset ?s N) m b d \<Longrightarrow> open_handle (add_mset ?s N) m b' d' \<Longrightarrow> pConn d = pConn d' \<Longrightarrow> b = b'"
    using db_invD(3) [OF inv] unfolding handles_def by blast+
  note st = close_steps [OF c(1,3) hs(1) [OF op], unfolded go, simplified]
  from st obtain c' where c': "contexts m' = (contexts m)(a \<mapsto> c')" "is_closed c' = is_closed c"
    "lock_moves t (ctx_lock c) (c_inside (Some p)) (c_inside p') (ctx_lock c')" "\<not> c_freed p' \<Longrightarrow> pConn c' = pConn c" by blast
  from st have mono: "c_freed (Some p) \<Longrightarrow> c_freed p'"
    and live: "\<And>k. k \<in> live_conns m \<Longrightarrow> pConn c \<noteq> Some k \<or> c_freed (Some p) \<or> \<not> c_freed p' \<Longrightarrow> k \<in> live_conns m'" by blast+
  have "view m' = view m" using c(1) c'(1,2) by (simp add: view_def fun_eq_iff)
  moreover have "ledger (keys (add_mset ?s' N)) (view m) L" using db_invD(1) [OF inv] by (simp add: key_def)
  moreover have "locks (add_mset ?s' N) m'"
    by (rule locks_moved [OF db_invD(2) [OF inv] c(1) c'(1) _ _ not_holding [OF alone] c'(3)]) auto
  moreover have "handles (add_mset ?s' N) m'"
  proof -
    have o: "\<exists>d'. open_handle (add_mset ?s N) m b d' \<and> pConn d' = pConn d \<and> (b = a \<longrightarrow> \<not> c_freed p')"
      if "open_handle (add_mset ?s' N) m' b d" for b d
      using that c(1) c'(1,4) mono by (fastforce simp: open_handle_def split: if_splits)
    show ?thesis
      unfolding handles_def
    proof (intro conjI allI impI)
      fix b d assume "open_handle (add_mset ?s' N) m' b d"
      from o [OF this] obtain d' where d': "open_handle (add_mset ?s N) m b d'" "pConn d' = pConn d" "b = a \<longrightarrow> \<not> c_freed p'" by blast
      from hs(1) [OF d'(1)] obtain k where k: "k \<in> live_conns m" "pConn d = Some k" using d'(2) by auto
      have "pConn c \<noteq> Some k \<or> c_freed (Some p) \<or> \<not> c_freed p'"
        using hs(2) [OF d'(1) op] d'(2,3) k(2) by (cases "c_freed (Some p)") auto
      from live [OF k(1) this] k(2) show "\<exists>k\<in>live_conns m'. pConn d = Some k" by blast
    next
      fix b b' d d' assume "open_handle (add_mset ?s' N) m' b d" "open_handle (add_mset ?s' N) m' b' d'" "pConn d = pConn d'"
      with o [of b d] o [of b' d'] hs(2) show "b = b'" by metis
    qed
  qed
  moreover have "stage_ok m' L s" if s: "s \<in># N" for s
  proof (rule stage_ok_more [OF db_invD(4) [OF inv] order.refl])
    fix t' r q d k assume "s = Running t' (Querying r q)" "contexts m' (q_context r) = Some d" "pConn d = Some k"
    moreover from this have "q_context r \<noteq> a"
      using query_context [OF inv, of s] s c(1,2) by (auto simp: key_def)
    ultimately show "\<exists>c. contexts m (q_context r) = Some c \<and> pConn c = Some k" using c'(1) by auto
  qed (use s in simp)
  ultimately show ?thesis
    using inv unfolding db_inv_def by (auto simp: sends_def stage_ok_def)
qed

text \<open>Delivering.\<close>

lemma inv_delivers_connect:
  assumes "db_inv (add_mset (Finished (Connect r)) N) m L"
  shows "db_inv N m (L @ [Opened e c u])"
proof -
  have "replies (L @ [Opened e c u])"
    by (rule replies_more [OF db_invD(6) [OF assms]]) simp
  moreover have "handles N m"
    by (rule handles_more [OF db_invD(3) [OF assms]]) (simp_all add: open_handle_def)
  moreover have "stage_ok m (L @ [Opened e c u]) s" if "s \<in># N" for s
    by (rule stage_ok_more [OF db_invD(4) [OF assms]]) (use that in auto)
  moreover have "ledger (keys N) (view m) (L @ [Opened e c u])"
    using ledger_connected db_invD(1) [OF assms] by (simp add: key_def)
  ultimately show ?thesis
    using assms unfolding db_inv_def by (simp add: locks_def sends_def)
qed

lemma inv_delivers_query:
  assumes inv: "db_inv (add_mset (Finished (Query r)) N) m L"
  shows "db_inv N m (L @ [Answered (q_err r) (q_result r) (q_udata r)])"
proof -
  let ?L = "L @ [Answered (q_err r) (q_result r) (q_udata r)]"
  have key: "key (Finished (Query r)) = KQuery (q_context r) (q_cmd r) (q_udata r)" by (simp add: key_def)
  have "replied L r" using db_invD(4) [OF inv, of "Finished (Query r)"] by (simp add: stage_ok_def)
  then obtain wire k b where "texts (q_cmd r) = Some wire" "Command (q_udata r) k wire b \<in> set L"
    "reads b = (q_err r, q_result r)"
    by (auto simp: replied_def sent_text_def)
  moreover have "Asked (q_context r) (q_cmd r) (q_udata r) \<in> set L"
    using ledgerD(2) [OF db_invD(1) [OF inv]] by (simp add: key)
  ultimately have "replies ?L"
    using db_invD(6) [OF inv] unfolding replies_def by (simp, metis)
  moreover have "handles N m"
    by (rule handles_more [OF db_invD(3) [OF inv]]) (simp_all add: open_handle_def)
  moreover have "stage_ok m ?L s" if "s \<in># N" for s
    by (rule stage_ok_more [OF db_invD(4) [OF inv]]) (use that in auto)
  moreover have "ledger (keys N) (view m) ?L"
    using ledger_answered db_invD(1) [OF inv] by (simp add: key)
  ultimately show ?thesis
    using inv unfolding db_inv_def by (simp add: locks_def sends_def)
qed

lemma inv_delivers_close:
  assumes inv: "db_inv (add_mset (Finished (Close a)) N) m L"
  shows "contexts m a \<noteq> None" "db_inv N (m\<lparr>contexts := (contexts m)(a := None)\<rparr>) L"
proof -
  let ?m = "m\<lparr>contexts := (contexts m)(a := None)\<rparr>"
  have led: "ledger (add_mset (KClose a) (keys N)) (view m) L" using db_invD(1) [OF inv] by (simp add: key_def)
  from ledger_closed(1) [OF led] show "contexts m a \<noteq> None" by (auto simp: view_def)
  have "view ?m = (view m)(a := None)" by (auto simp: view_def)
  then have "ledger (keys N) (view ?m) L" using ledger_closed(2) [OF led] by simp
  moreover have "locks N ?m" using db_invD(2) [OF inv] by (simp add: locks_def)
  moreover have "handles N ?m"
    by (rule handles_more [OF db_invD(3) [OF inv]]) (auto simp: open_handle_def split: if_splits)
  moreover have "stage_ok ?m L s" if "s \<in># N" for s
    by (rule stage_ok_more [OF db_invD(4) [OF inv] order.refl])
      (use that in \<open>auto split: if_splits\<close>)
  ultimately show "db_inv N ?m L"
    using inv unfolding db_inv_def by (simp add: sends_def)
qed

text \<open>Every polite step that succeeds keeps the invariant.\<close>

definition state_inv :: "nat \<Rightarrow> ('c, 'v, 'a, 'p) db_state \<Rightarrow> bool" where
  "state_inv n st \<longleftrightarrow> db_inv (stages n st) (mem st) (log st)"

lemma keys_pending: "keys (stages n st) = image_mset key_of (mset (pending n st))"
  by (simp add: keys_def mset_pending multiset.map_comp o_def key_def [abs_def])

lemma loop_allocates_cases:
  "loop_allocates st (Inr st') = (if allocating (mem st) = None then Inr st' else Inl DataRace)"
  by (simp add: loop_allocates_def)

lemma calls_inv:
  assumes inv: "state_inv n st" and "polite_op texts n st op"
  shows "(\<exists>st'. do_op op st = Inr st' \<and> state_inv n st') \<or>
    do_op op st = Inl DataRace \<and> allocating (mem st) \<noteq> None"
proof (cases op)
  case (Do_Connect args u)
  then show ?thesis
    using inv_calls_connect inv
    by (simp add: db_connect_def loop_allocates_cases state_inv_def stages_queue) (simp add: uv_queue_work_def)
next
  case (Do_Query a cmd u)
  with assms(2) obtain c where c: "contexts (mem st) a = Some c" and tx: "texts cmd \<noteq> None"
    by (auto simp: polite_op_def)
  let ?r = "\<lparr>q_context = a, q_cmd = cmd, q_udata = u, q_err = None, q_result = None\<rparr>"
  show ?thesis
  proof (cases "is_closed c")
    case False
    with inv c tx have "db_inv (add_mset (Waiting (Query ?r)) (stages n st)) (mem st) (log st @ [Asked a cmd u])"
      using inv_calls_query [of "stages n st" "mem st" "log st" ?r c] by (simp add: state_inv_def)
    with Do_Query c False show ?thesis
      by (simp add: db_query_def loop_allocates_cases state_inv_def stages_queue) (simp add: uv_queue_work_def)
  qed (use Do_Query c inv in \<open>simp add: db_query_def\<close>)
next
  case (Do_Close a)
  with assms(2) obtain c where c: "contexts (mem st) a = Some c" by (auto simp: polite_op_def)
  show ?thesis
  proof (cases "is_closed c")
    case False
    have "KQuery a cmd u \<notin># keys (stages n st)" for cmd u
    proof
      assume "KQuery a cmd u \<in># keys (stages n st)"
      then obtain w where "w \<in> set (pending n st)" "key_of w = KQuery a cmd u" by (auto simp: keys_pending)
      moreover from this(2) have "queries_context a w" by (rule queries_context_key)
      ultimately have "list_ex (queries_context a) (pending n st)" by (auto simp: list_ex_iff)
      with assms(2) Do_Close show False by (simp add: polite_op_def)
    qed
    from inv_calls_close [OF inv [unfolded state_inv_def] c False this] Do_Close c False show ?thesis
      by (simp add: db_close_def loop_allocates_cases state_inv_def stages_queue) (simp add: uv_queue_work_def)
  qed (use Do_Close c inv in \<open>simp add: db_close_def\<close>)
qed (use inv in \<open>simp add: loop_allocates_cases\<close>)

lemma delivers_inv:
  assumes inv: "state_inv n st" and "batch st \<noteq> []"
  shows "(\<exists>st'. work_done_delivers st = Inr st' \<and> state_inv n st' \<and> allocating (mem st) = None) \<or>
    work_done_delivers st = Inl DataRace \<and> allocating (mem st) \<noteq> None"
proof -
  let ?st = "st\<lparr>batch := tl (batch st)\<rparr>"
  obtain N where N: "stages n st = add_mset (Finished (hd (batch st))) N" "stages n ?st = N"
    using stages_delivers [OF assms(2)] by metis
  note inv = inv [unfolded state_inv_def N(1)]
  show ?thesis
  proof (cases "hd (batch st)")
    case (Connect r)
    with inv_delivers_connect [OF inv [unfolded Connect]] N(2) show ?thesis
      by (simp add: work_done_delivers_def on_connect_complete_def loop_allocates_cases state_inv_def)
  next
    case (Query r)
    with inv_delivers_query [OF inv [unfolded Query]] N(2) show ?thesis
      by (simp add: work_done_delivers_def on_query_complete_def loop_allocates_cases state_inv_def)
  next
    case (Close a)
    with inv_delivers_close [OF inv [unfolded Close]] N(2) show ?thesis
      by (cases "allocating (mem st)")
        (auto simp: work_done_delivers_def on_close_complete_def loop_allocates_cases state_inv_def)
  qed
qed

lemma queries_inv:
  assumes inv: "state_inv n st" and t: "t < n" "workers st t = Some (Querying r (Some p))"
  shows "d_query D t ans r p (mem st) = Fails e \<Longrightarrow>
      e = NullDeref \<and> \<not> given ans \<or> e = DataRace \<and> \<not> copies p \<and> allocating (mem st) \<noteq> None"
    and "d_query D t ans r p (mem st) = Goes (r', p', m', evs) \<Longrightarrow>
      state_inv n (set_task t (Querying r' p') m' evs st) \<and> case_option 0 left p' < left p"
    and "d_query D t ans r p (mem st) = Blocks \<Longrightarrow>
      \<not> inside p \<and> (\<exists>c. contexts (mem st) (q_context r) = Some c \<and> ctx_lock c \<noteq> None)"
proof -
  obtain N where N: "stages n st = add_mset (Running t (Querying r (Some p))) N"
    "\<And>y m evs. stages n (set_task t y m evs st) = add_mset (Running t y) N" "\<And>y. Running t y \<notin># N"
    using stages_set_task [OF t] by blast
  note inv = inv [unfolded state_inv_def N(1)]
  obtain c k wire where c: "contexts (mem st) (q_context r) = Some c" "pConn c = Some k" "k \<in> live_conns (mem st)"
    "knows k p" "inside p \<longleftrightarrow> ctx_lock c = Some t" "texts (q_cmd r) = Some wire"
    "traced (sent_text texts (log st) r) r p"
    using query_ready [OF inv N(3)] by blast
  note st = query_steps [OF c, of ans]
  show "e = NullDeref \<and> \<not> given ans \<or> e = DataRace \<and> \<not> copies p \<and> allocating (mem st) \<noteq> None"
    if "d_query D t ans r p (mem st) = Fails e" using st that by simp
  show "\<not> inside p \<and> (\<exists>c. contexts (mem st) (q_context r) = Some c \<and> ctx_lock c \<noteq> None)"
    if "d_query D t ans r p (mem st) = Blocks" using st that c(1) by simp
  show "state_inv n (set_task t (Querying r' p') m' evs st) \<and> case_option 0 left p' < left p"
    if go: "d_query D t ans r p (mem st) = Goes (r', p', m', evs)"
    using inv_queries [OF inv N(3) go] st [unfolded go]
    by (simp add: state_inv_def N(2)) (simp add: set_task_def)
qed

lemma closes_inv:
  assumes inv: "state_inv n st" and t: "t < n" "workers st t = Some (Closing a (Some p))"
  shows "d_close D t a p (mem st) \<noteq> Fails e"
    and "d_close D t a p (mem st) = Goes (p', m') \<Longrightarrow>
      state_inv n (set_task t (Closing a p') m' [] st) \<and> c_left p' < c_left (Some p)"
    and "d_close D t a p (mem st) = Blocks \<Longrightarrow>
      \<not> c_inside (Some p) \<and> (\<exists>c. contexts (mem st) a = Some c \<and> ctx_lock c \<noteq> None)"
proof -
  obtain N where N: "stages n st = add_mset (Running t (Closing a (Some p))) N"
    "\<And>y m evs. stages n (set_task t y m evs st) = add_mset (Running t y) N" "\<And>y. Running t y \<notin># N"
    using stages_set_task [OF t] by blast
  note inv = inv [unfolded state_inv_def N(1)]
  obtain c where c: "contexts (mem st) a = Some c" "c_inside (Some p) \<longleftrightarrow> ctx_lock c = Some t"
    "\<not> c_freed (Some p) \<Longrightarrow> open_handle (add_mset (Running t (Closing a (Some p))) N) (mem st) a c"
    using close_ready [OF inv N(3)] by blast
  have "\<not> c_freed (Some p) \<Longrightarrow> \<exists>k\<in>live_conns (mem st). pConn c = Some k"
    using c(3) db_invD(3) [OF inv] unfolding handles_def by blast
  note st = close_steps [OF c(1,2) this]
  show "d_close D t a p (mem st) \<noteq> Fails e" using st by auto
  show "\<not> c_inside (Some p) \<and> (\<exists>c. contexts (mem st) a = Some c \<and> ctx_lock c \<noteq> None)"
    if "d_close D t a p (mem st) = Blocks" using st that c(1) by simp
  show "state_inv n (set_task t (Closing a p') m' [] st) \<and> c_left p' < c_left (Some p)"
    if go: "d_close D t a p (mem st) = Goes (p', m')"
    using inv_closes [OF inv N(3) go] st [unfolded go]
    by (simp add: state_inv_def N(2)) (simp add: set_task_def)
qed

lemma connects_inv:
  assumes inv: "state_inv n st" and t: "t < n" "workers st t = Some (Connecting r (Some p))"
    and new: "contexts (mem st) a = None" "\<forall>e k. ans = Some (e, k) \<longrightarrow> k \<notin> live_conns (mem st)"
  shows "d_connect D t ans a r p (mem st) \<noteq> Blocks"
    and "d_connect D t ans a r p (mem st) = Fails e \<Longrightarrow>
      e = NullDeref \<and> ans = None \<or> e = DataRace \<and> p \<noteq> K_Inside \<and> allocating (mem st) \<noteq> None"
    and "d_connect D t ans a r p (mem st) = Goes (r', p', m') \<Longrightarrow>
      state_inv n (set_task t (Connecting r' p') m' [] st) \<and> k_left p' < k_left (Some p)"
proof -
  obtain N where N: "stages n st = add_mset (Running t (Connecting r (Some p))) N"
    "\<And>y m evs. stages n (set_task t y m evs st) = add_mset (Running t y) N" "\<And>y. Running t y \<notin># N"
    using stages_set_task [OF t] by blast
  note inv = inv [unfolded state_inv_def N(1)]
  note st = connect_steps [OF new, where t = t and cr = r and kp = p]
  show "d_connect D t ans a r p (mem st) \<noteq> Blocks" using st by auto
  show "e = NullDeref \<and> ans = None \<or> e = DataRace \<and> p \<noteq> K_Inside \<and> allocating (mem st) \<noteq> None"
    if "d_connect D t ans a r p (mem st) = Fails e" using st that by simp
  show "state_inv n (set_task t (Connecting r' p') m' [] st) \<and> k_left p' < k_left (Some p)"
    if go: "d_connect D t ans a r p (mem st) = Goes (r', p', m')"
  proof -
    from st go have g: "live_conns (mem st) \<subseteq> live_conns m'" "k_left p' < k_left (Some p)"
      "contexts m' = contexts (mem st) \<or> (\<exists>e k. ans = Some (e, k) \<and> k \<in> live_conns m' \<and>
         contexts m' = (contexts (mem st))(a \<mapsto> \<lparr>pConn = Some k, ctx_lock = None, is_closed = False\<rparr>))"
      by simp_all
    from g(3) have "db_inv (add_mset (Running t (Connecting r' p')) N) m' (log st)"
      using inv_connects_not [OF inv _ g(1)] inv_connects [OF inv new(1) _ g(1)] new(2) by blast
    with g(2) show ?thesis by (simp add: state_inv_def N(2)) (simp add: set_task_def)
  qed
qed

text \<open>The worker inside \<open>small_alloc\<close> is the one that \<open>allocating\<close> names.\<close>

definition alloc_inv :: "nat \<Rightarrow> ('c, 'v, 'a, 'p) db_state \<Rightarrow> bool" where
  "alloc_inv n st \<longleftrightarrow> (\<forall>t. allocating (mem st) = Some t \<longrightarrow>
     t < n \<and> (\<exists>x. workers st t = Some x \<and> in_small_alloc copies x))"

lemma alloc_set_task:
  assumes "alloc_inv n st" "t < n"
    and "workers st t = Some x" "lock_moves t (allocating (mem st)) (in_small_alloc copies x) (in_small_alloc copies y) (allocating m')"
  shows "alloc_inv n (set_task t y m' evs st)"
  using assms by (auto simp: alloc_inv_def set_task_def lock_moves_def split: if_splits)

lemma in_small_alloc_start: "\<not> in_small_alloc copies (task_of D w)"
  using query_starts(3) by (cases w) simp_all

lemma returned_not_in_small_alloc: "returned x \<Longrightarrow> \<not> in_small_alloc copies x"
  by (cases x) simp_all

lemma alloc_step:
  assumes inv: "alloc_inv n st" and "db_step D n st l (Inr st')"
  shows "alloc_inv n st'"
  using assms(2)
proof (cases rule: db_step.cases)
  case (calls op)
  with inv show ?thesis
    by (cases op) (auto simp: db_connect_def db_query_def db_close_def uv_queue_work_def loop_allocates_cases
        alloc_inv_def put_context_def split: option.splits if_splits)
next
  case (takes t)
  with inv show ?thesis by (auto simp: alloc_inv_def worker_takes_def)
next
  case (connects t cr p a ans cr' p' m')
  show ?thesis unfolding connects(2)
    by (rule alloc_set_task [OF inv connects(3,4)]) (use connect_alloc [OF connects(7)] in simp)
next
  case (queries t qr p ans qr' p' m' evs)
  show ?thesis unfolding queries(2)
    by (rule alloc_set_task [OF inv queries(3,4)]) (use query_alloc [OF queries(5)] in simp)
next
  case (closes t a p p' m')
  show ?thesis unfolding closes(2)
    by (rule alloc_set_task [OF inv closes(3,4)]) (use close_alloc [OF closes(5)] in \<open>simp add: lock_moves_def\<close>)
next
  case (returns t x)
  with inv returned_not_in_small_alloc [OF returns(5)] show ?thesis by (auto simp: alloc_inv_def worker_returns_def)
next
  case moves
  with inv show ?thesis by (simp add: alloc_inv_def work_done_moves_def)
next
  case delivers
  then show ?thesis
    using inv
    by (cases "hd (batch st)") (auto simp: work_done_delivers_def on_connect_complete_def alloc_inv_def
        on_query_complete_def on_close_complete_def loop_allocates_cases split: option.splits if_splits)
qed

text \<open>A polite step keeps the invariant, or fails for one of the two reasons.\<close>

lemma race_by_other:
  assumes "alloc_inv n st" "allocating (mem st) \<noteq> None"
    and "label_thread l = None \<or> (\<exists>t x. label_thread l = Some t \<and> workers st t = Some x \<and> \<not> in_small_alloc copies x)"
  shows "another_allocates copies st l"
  using assms unfolding alloc_inv_def another_allocates_def by fastforce

lemma step_inv:
  assumes inv: "state_inv n st" and ai: "alloc_inv n st"
    and "db_step D n st l r" and pol: "polite texts n st l"
  shows "case r of
      Inr st' \<Rightarrow> state_inv n st'
    | Inl e \<Rightarrow> e = NullDeref \<and> null_answer given l \<or> e = DataRace \<and> another_allocates copies st l"
  using assms(3)
proof (cases rule: db_step.cases)
  case (calls op)
  with pol have "polite_op texts n st op" by (simp add: polite_def)
  from calls_inv [OF inv this] race_by_other [OF ai, of l] calls show ?thesis by auto
next
  case (takes t)
  obtain N w where N: "stages n st = add_mset (Waiting w) N"
    "stages n (worker_takes D t st) = add_mset (Running t (task_of D w)) N"
    using stages_takes [OF takes(3-5), where D = D] by metis
  from inv_takes [OF inv [unfolded state_inv_def N(1)]] takes(2) N(2) show ?thesis
    by (simp add: state_inv_def) (simp add: worker_takes_def)
next
  case (connects t cr p a ans cr' p' m')
  with connects_inv(3) [OF inv connects(3,4,5,6)] show ?thesis by simp
next
  case (connect_fails t cr p a ans e)
  with connects_inv(2) [OF inv connect_fails(3,4,5,6)] race_by_other [OF ai, of l] show ?thesis
    by (auto simp: null_answer_def)
next
  case (queries t qr p ans qr' p' m' evs)
  with queries_inv(2) [OF inv queries(3,4)] show ?thesis by simp
next
  case (query_fails t qr p ans e)
  with queries_inv(1) [OF inv query_fails(3,4)] race_by_other [OF ai, of l] show ?thesis
    by (auto simp: null_answer_def)
next
  case (closes t a p p' m')
  with closes_inv(2) [OF inv closes(3,4)] show ?thesis by simp
next
  case (close_fails t a p e)
  with closes_inv(1) [OF inv close_fails(3,4)] show ?thesis by auto
next
  case (returns t x)
  obtain N where N: "stages n st = add_mset (Running t x) N"
    "stages n (worker_returns t x st) = add_mset (Finished (work_of x)) N"
    using stages_returns [OF returns(3,4)] by metis
  from inv_returns [OF inv [unfolded state_inv_def N(1)] returns(5)] returns(2) N(2) show ?thesis
    by (simp add: state_inv_def) (simp add: worker_returns_def)
next
  case moves
  with inv show ?thesis by (simp add: state_inv_def stages_moves) (simp add: work_done_moves_def)
next
  case delivers
  with delivers_inv [OF inv] race_by_other [OF ai, of l] show ?thesis by auto
qed

lemma reach_inv:
  "db_reach D n (polite texts n) r \<Longrightarrow> r = Inr st \<Longrightarrow> state_inv n st \<and> alloc_inv n st"
proof (induction arbitrary: st rule: db_reach.induct)
  case start
  then show ?case using inv_start by (auto simp: state_inv_def alloc_inv_def) (simp add: db_start_def)+
next
  case (step st0 l r)
  then have "state_inv n st0" "alloc_inv n st0" by simp_all
  with step_inv [OF this step.hyps(3,2)] alloc_step step.hyps(3) step.prems show ?case by auto
qed

text \<open>
  The pool comes to an end: every step of it makes \<open>state_left\<close> smaller, and as long as a
  request is pending there is a step that succeeds.
\<close>

fun task_left :: "('c, 'v, 'p) task \<Rightarrow> nat" where
  "task_left (Connecting r p) = 3 + k_left p"
| "task_left (Querying r p) = 3 + case_option 0 left p"
| "task_left (Closing a p) = 3 + c_left p"

fun stage_left :: "('c, 'v, 'p) stage \<Rightarrow> nat" where
  "stage_left (Waiting w) = Suc (task_left (task_of D w))"
| "stage_left (Running t x) = task_left x"
| "stage_left (Finished w) = 1"

definition state_left :: "nat \<Rightarrow> ('c, 'v, 'a, 'p) db_state \<Rightarrow> nat" where
  "state_left n st = sum_mset (image_mset stage_left (stages n st)) + length (completed st)"

lemma returned_left: "returned x \<Longrightarrow> 3 \<le> task_left x"
  by (cases x) auto

lemma set_task_left:
  assumes "t < n" "workers st t = Some x" "task_left y < task_left x"
  shows "state_left n (set_task t y m evs st) < state_left n st"
proof -
  obtain N where "stages n st = add_mset (Running t x) N"
    "\<And>y m evs. stages n (set_task t y m evs st) = add_mset (Running t y) N" "\<And>y. Running t y \<notin># N"
    using stages_set_task [OF assms(1,2)] by blast
  with assms(3) show ?thesis by (simp add: state_left_def) (simp add: set_task_def)
qed

lemma step_left:
  assumes inv: "state_inv n st" and "db_step D n st l (Inr st')" and "\<not> is_call l"
  shows "state_left n st' < state_left n st"
  using assms(2)
proof (cases rule: db_step.cases)
  case (calls op)
  with assms(3) show ?thesis by (simp add: is_call_def)
next
  case (takes t)
  obtain N w where N: "stages n st = add_mset (Waiting w) N"
    "stages n (worker_takes D t st) = add_mset (Running t (task_of D w)) N"
    using stages_takes [OF takes(3-5), where D = D] by metis
  with takes(2) show ?thesis by (simp add: state_left_def) (simp add: worker_takes_def)
next
  case (connects t cr p a ans cr' p' m')
  with connects_inv(3) [OF inv connects(3,4,5,6,7)] show ?thesis by (auto intro: set_task_left)
next
  case (queries t qr p ans qr' p' m' evs)
  with queries_inv(2) [OF inv queries(3,4)] have "case_option 0 left p' < left p" by simp
  with queries show ?thesis by (auto intro: set_task_left)
next
  case (closes t a p p' m')
  with closes_inv(2) [OF inv closes(3,4)] show ?thesis by (auto intro: set_task_left)
next
  case (returns t x)
  obtain N where N: "stages n st = add_mset (Running t x) N"
    "stages n (worker_returns t x st) = add_mset (Finished (work_of x)) N"
    using stages_returns [OF returns(3,4)] by metis
  with returns(2) returned_left [OF returns(5)] show ?thesis
    by (simp add: state_left_def) (simp add: worker_returns_def)
next
  case moves
  then show ?thesis by (simp add: state_left_def stages_moves) (simp add: work_done_moves_def)
next
  case delivers
  obtain N where N: "stages n st = add_mset (Finished (hd (batch st))) N" "stages n (st\<lparr>batch := tl (batch st)\<rparr>) = N"
    using stages_delivers [OF delivers(3)] by metis
  have "stages n st' = stages n (st\<lparr>batch := tl (batch st)\<rparr>) \<and> completed st' = completed st"
    using delivers(2)
    by (cases "hd (batch st)") (auto simp: work_done_delivers_def on_connect_complete_def loop_allocates_cases
        on_query_complete_def on_close_complete_def split: option.splits if_splits)
  with N show ?thesis by (simp add: state_left_def)
qed

lemma step_finite:
  assumes "db_step D n st l (Inr st')" "mem_finite (mem st)"
  shows "mem_finite (mem st')"
  using assms(1)
proof (cases rule: db_step.cases)
  case (calls op)
  with assms(2) show ?thesis
    by (cases op) (auto simp: db_connect_def db_query_def db_close_def uv_queue_work_def loop_allocates_cases
        split: option.splits if_splits)
next
  case delivers
  with assms(2) show ?thesis
    by (cases "hd (batch st)") (auto simp: work_done_delivers_def on_connect_complete_def loop_allocates_cases
        on_query_complete_def on_close_complete_def mem_finite_def split: option.splits if_splits)
next
  case (connects t cr p a ans cr' p' m')
  with connect_finite [OF assms(2) connects(7)] show ?thesis by (simp add: set_task_def)
next
  case (queries t qr p ans qr' p' m' evs)
  with query_finite [OF assms(2) queries(5)] show ?thesis by (simp add: set_task_def)
next
  case (closes t a p p' m')
  with close_finite [OF assms(2) closes(5)] show ?thesis by (simp add: set_task_def)
qed (use assms(2) in \<open>simp_all add: worker_takes_def worker_returns_def work_done_moves_def\<close>)

lemma reach_finite: "db_reach D n ok r \<Longrightarrow> r = Inr st \<Longrightarrow> mem_finite (mem st)"
proof (induction arbitrary: st rule: db_reach.induct)
  case start
  then show ?case by (auto simp: db_start_def mem_finite_def)
next
  case (step st l r)
  then show ?case by (auto intro: step_finite)
qed

text \<open>
  Who can go on: the worker inside \<open>small_alloc\<close>; if there is none, a worker that holds a mutex,
  and then every worker.
\<close>

definition goes_on :: "nat \<Rightarrow> ('c, 'v, 'a, 'p) db_state \<Rightarrow> bool" where
  "goes_on n st \<longleftrightarrow> (\<exists>l st'. \<not> is_call l \<and> db_step D n st l (Inr st'))"

lemma goes_onI: "db_step D n st l (Inr st') \<Longrightarrow> \<not> is_call l \<Longrightarrow> goes_on n st"
  by (auto simp: goes_on_def)

lemma connecting_goes:
  assumes inv: "state_inv n st" and fin: "mem_finite (mem st)"
    and t: "t < n" "workers st t = Some (Connecting r (Some p))"
    and "p = K_Inside \<or> allocating (mem st) = None"
  shows "goes_on n st"
proof -
  obtain a where a: "contexts (mem st) a = None"
    using fin ex_new_if_finite [of "dom (contexts (mem st))"] by (auto simp: mem_finite_def)
  obtain k where k: "k \<notin> live_conns (mem st)"
    using fin ex_new_if_finite [of "live_conns (mem st)"] by (auto simp: mem_finite_def)
  let ?ans = "Some (None, k) :: (string option \<times> nat) option"
  have new: "\<forall>e k. ?ans = Some (e, k) \<longrightarrow> k \<notin> live_conns (mem st)" using k by simp
  note st = connects_inv [OF inv t a new]
  obtain r' p' m' where "d_connect D t ?ans a r p (mem st) = Goes (r', p', m')"
  proof (cases "d_connect D t ?ans a r p (mem st)")
    case (Goes y)
    with that show thesis by (cases y) auto
  qed (use st(1,2) assms(5) in auto)
  from db_step.connects [OF t a new this] show ?thesis by (rule goes_onI) (simp add: is_call_def)
qed

lemma querying_goes:
  assumes inv: "state_inv n st" and t: "t < n" "workers st t = Some (Querying r (Some p))"
    and "copies p \<or> allocating (mem st) = None"
  shows "goes_on n st \<or> \<not> inside p \<and> (\<exists>c. contexts (mem st) (q_context r) = Some c \<and> ctx_lock c \<noteq> None)"
proof -
  from some_given obtain ans where ans: "given ans" by blast
  note st = queries_inv [OF inv t, of ans]
  show ?thesis
  proof (cases "d_query D t ans r p (mem st)")
    case (Goes y)
    then obtain r' p' m' evs where "d_query D t ans r p (mem st) = Goes (r', p', m', evs)" by (cases y) auto
    from goes_onI [OF db_step.queries [OF t this]] show ?thesis by (simp add: is_call_def)
  qed (use st ans assms(4) in auto)
qed

lemma closing_goes:
  assumes inv: "state_inv n st" and t: "t < n" "workers st t = Some (Closing a (Some p))"
  shows "goes_on n st \<or> \<not> c_inside (Some p) \<and> (\<exists>c. contexts (mem st) a = Some c \<and> ctx_lock c \<noteq> None)"
proof -
  note st = closes_inv [OF inv t]
  show ?thesis
  proof (cases "d_close D t a p (mem st)")
    case (Goes y)
    then obtain p' m' where "d_close D t a p (mem st) = Goes (p', m')" by (cases y) auto
    from goes_onI [OF db_step.closes [OF t this]] show ?thesis by (simp add: is_call_def)
  qed (use st in auto)
qed

lemma holder_goes:
  assumes inv: "state_inv n st" and free: "allocating (mem st) = None"
    and h: "contexts (mem st) a = Some c" "ctx_lock c \<noteq> None"
  shows "goes_on n st"
proof -
  from h(2) obtain t where "ctx_lock c = Some t" by auto
  with db_invD(2) [OF inv [unfolded state_inv_def]] h(1) obtain s where
    s: "s \<in># stages n st" "holds_by inside a t s" by (auto simp: locks_def)
  from s(2) show ?thesis
  proof (cases "(inside, a, t, s)" rule: holds_by.cases)
    case (1 ins a' t' t'' r p)
    with s obtain q where q: "t < n" "workers st t = Some (Querying r (Some q))" "inside q"
      by (cases p) (auto simp: Running_in_stages)
    with querying_goes [OF inv q(1,2)] free show ?thesis by simp
  next
    case (2 ins a' t' t'' b p)
    with s obtain q where q: "t < n" "workers st t = Some (Closing a (Some q))" "c_inside (Some q)"
      by (cases p) (auto simp: Running_in_stages)
    with closing_goes [OF inv q(1,2)] show ?thesis by simp
  qed auto
qed

lemma worker_goes:
  assumes inv: "state_inv n st" and fin: "mem_finite (mem st)" and free: "allocating (mem st) = None"
    and t: "t < n" "workers st t = Some x"
  shows "goes_on n st"
proof (cases "returned x")
  case True
  from db_step.returns [OF t this] show ?thesis by (rule goes_onI) (simp add: is_call_def)
next
  case nret: False
  show ?thesis
  proof (cases x)
    case (Connecting r p)
    with nret t obtain q where "workers st t = Some (Connecting r (Some q))" by auto
    from connecting_goes [OF inv fin t(1) this] free show ?thesis by simp
  next
    case (Querying r p)
    with nret t obtain q where "workers st t = Some (Querying r (Some q))" by auto
    from querying_goes [OF inv t(1) this] free holder_goes [OF inv free] show ?thesis by blast
  next
    case (Closing a p)
    with nret t obtain q where "workers st t = Some (Closing a (Some q))" by auto
    from closing_goes [OF inv t(1) this] holder_goes [OF inv free] show ?thesis by blast
  qed
qed

lemma allocator_goes:
  assumes inv: "state_inv n st" and ai: "alloc_inv n st" and fin: "mem_finite (mem st)"
    and "allocating (mem st) \<noteq> None"
  shows "goes_on n st"
proof -
  from assms(4) ai obtain t x where t: "t < n" "workers st t = Some x" and x: "in_small_alloc copies x"
    by (auto simp: alloc_inv_def)
  show ?thesis
  proof (cases x)
    case (Connecting r p)
    with t x connecting_goes [OF inv fin t(1), of r K_Inside] show ?thesis by simp
  next
    case (Querying r p)
    with x obtain q where q: "p = Some q" "copies q" by (auto split: option.splits)
    have "copies q \<Longrightarrow> inside q" by (rule copies_inside)
    with q t Querying querying_goes [OF inv t(1), of r q] show ?thesis by simp
  qed (use x in simp)
qed

lemma pool_progress:
  assumes inv: "state_inv n st" and ai: "alloc_inv n st" and fin: "mem_finite (mem st)"
    and "0 < n" and "pending n st \<noteq> []"
  shows "goes_on n st"
proof (cases "allocating (mem st) = None \<and> (\<forall>t < n. workers st t = None)")
  case False
  with allocator_goes [OF inv ai fin] worker_goes [OF inv fin] show ?thesis
    by (cases "allocating (mem st)") auto
next
  case True
  then have "List.map_filter (workers st) [0..<n] = []" by (auto simp: List.map_filter_def)
  with assms(5) consider "wq st \<noteq> []" | "batch st \<noteq> []" | "batch st = []" "completed st \<noteq> []"
    by (auto simp: pending_def)
  then show ?thesis
  proof cases
    case 1
    have "db_step D n st (Takes 0) (Inr (worker_takes D 0 st))"
      using True \<open>0 < n\<close> by (intro db_step.takes) (simp_all add: 1)
    then show ?thesis by (rule goes_onI) (simp add: is_call_def)
  next
    case 2
    from delivers_inv [OF inv 2] True obtain st' where "work_done_delivers st = Inr st'" by auto
    with db_step.delivers [OF 2, of D n] have "db_step D n st Delivers (Inr st')" by simp
    then show ?thesis by (rule goes_onI) (simp add: is_call_def)
  next
    case 3
    from goes_onI [OF db_step.moves [OF 3, of D n]] show ?thesis by (simp add: is_call_def)
  qed
qed

text \<open>What the invariant says of the threads in the client library, and of a pool at rest.\<close>

lemma one_thread_inside:
  assumes inv: "state_inv n st" and "t < n" "t' < n"
    and "holds_by inside a t (Running t x)" "holds_by inside a' t' (Running t' x')"
    and "workers st t = Some x" "workers st t' = Some x'"
    and "contexts (mem st) a = Some c" "contexts (mem st) a' = Some c'" "pConn c = pConn c'"
    and "\<And>s. s \<in># stages n st \<Longrightarrow> \<not> conn_done a s" "\<And>s. s \<in># stages n st \<Longrightarrow> \<not> conn_done a' s"
  shows "t = t'"
proof -
  note inv = db_invD [OF inv [unfolded state_inv_def]]
  have "open_handle (stages n st) (mem st) a c" "open_handle (stages n st) (mem st) a' c'"
    using assms(8-12) by (simp_all add: open_handle_def)
  with inv(3) assms(10) have a: "a = a'" unfolding handles_def by blast
  have "Running t x \<in># stages n st" "Running t' x' \<in># stages n st"
    using assms(2,3,6,7) by (simp_all add: Running_in_stages)
  with inv(2) assms(4,5,8) a have "ctx_lock c = Some t" "ctx_lock c = Some t'"
    unfolding locks_def by blast+
  then show ?thesis by simp
qed

lemma query_not_done:
  assumes inv: "state_inv n st" and t: "t < n" "workers st t = Some (Querying r p)" and "s \<in># stages n st"
  shows "\<not> conn_done (q_context r) s"
proof -
  note inv = inv [unfolded state_inv_def]
  have "Running t (Querying r p) \<in># stages n st" using t by (simp add: Running_in_stages)
  from query_context [OF inv this] have "view (mem st) (q_context r) \<noteq> Some True"
    by (auto simp: key_def view_def)
  from not_done_if_open [OF db_invD(1) [OF inv] this \<open>s \<in># stages n st\<close>] show ?thesis .
qed

lemma close_not_done:
  assumes inv: "state_inv n st" and t: "t < n" "workers st t = Some (Closing a (Some p))" "\<not> c_freed (Some p)"
    and "s \<in># stages n st"
  shows "\<not> conn_done a s"
proof -
  obtain N where N: "stages n st = add_mset (Running t (Closing a (Some p))) N" "\<And>y. Running t y \<notin># N"
    using stages_set_task [OF t(1,2)] by metis
  have "\<And>x. x \<in># N \<Longrightarrow> \<not> conn_done a x"
    using close_ready [OF inv [unfolded state_inv_def N(1)] N(2)] by blast
  with assms(5) t(3) show ?thesis by (auto simp: N(1))
qed

lemma at_rest:
  assumes "state_inv n st" "pending n st = []"
  shows "answers u (log st) = asks u (log st)" "commands u (log st) = asks u (log st)"
proof -
  have "stages n st = {#}" using mset_pending [of n st] assms(2) by simp
  with assms(1) show "answers u (log st) = asks u (log st)" "commands u (log st) = asks u (log st)"
    by (auto simp: state_inv_def db_inv_def ledger_def sends_def)
qed

lemma pool_run_inv:
  "pool_run D n (polite texts n) k st st' \<Longrightarrow> state_inv n st \<Longrightarrow> alloc_inv n st \<Longrightarrow> mem_finite (mem st) \<Longrightarrow>
   state_inv n st' \<and> alloc_inv n st' \<and> mem_finite (mem st') \<and> k + state_left n st' \<le> state_left n st"
proof (induction rule: pool_run.induct)
  case (stop st)
  then show ?case by simp
next
  case (more k st st' l st'')
  then have i: "state_inv n st'" "alloc_inv n st'" "mem_finite (mem st')" "k + state_left n st' \<le> state_left n st"
    by simp_all
  have "state_inv n st''" using step_inv [OF i(1,2) more.hyps(4,3)] by simp
  with i alloc_step [OF i(2) more.hyps(4)] step_left [OF i(1) more.hyps(4,2)] step_finite [OF more.hyps(4) i(3)]
  show ?case by linarith
qed

lemma answers_arrive:
  assumes "db_reach D n (polite texts n) (Inr st)" "0 < n"
  shows "\<exists>bound. \<forall>k st'. pool_run D n (polite texts n) k st st' \<longrightarrow>
    k \<le> bound \<and>
    (if pending n st' = []
     then \<forall>u. answers u (log st') = asks u (log st') \<and> commands u (log st') = asks u (log st')
     else \<exists>l st''. \<not> is_call l \<and> db_step D n st' l (Inr st''))"
proof (intro exI allI impI)
  fix k st' assume run: "pool_run D n (polite texts n) k st st'"
  have "state_inv n st" "alloc_inv n st" "mem_finite (mem st)"
    using reach_inv [OF assms(1) refl] reach_finite [OF assms(1)] by auto
  with pool_run_inv [OF run] have "state_inv n st'" "alloc_inv n st'" "mem_finite (mem st')" "k \<le> state_left n st"
    by auto
  with at_rest pool_progress [unfolded goes_on_def] \<open>0 < n\<close> show "k \<le> state_left n st \<and>
    (if pending n st' = []
     then \<forall>u. answers u (log st') = asks u (log st') \<and> commands u (log st') = asks u (log st')
     else \<exists>l st''. \<not> is_call l \<and> db_step D n st' l (Inr st''))" by auto
qed

end

section \<open>The two drivers\<close>

fun r_inside :: "'v redis_pos \<Rightarrow> bool" where
  "r_inside R_Begin = False"
| "r_inside (R_Read rc) = False"
| "r_inside _ = True"

fun r_sent :: "'v redis_pos \<Rightarrow> bool" where
  "r_sent R_Begin = False"
| "r_sent (R_Read rc) = False"
| "r_sent (R_Locked rc) = False"
| "r_sent _ = True"

fun r_copies :: "'v redis_pos \<Rightarrow> bool" where
  "r_copies R_Copied = True"
| "r_copies _ = False"

fun r_left :: "'v redis_pos \<Rightarrow> nat" where
  "r_left R_Begin = 6"
| "r_left (R_Read rc) = 5"
| "r_left (R_Locked rc) = 4"
| "r_left (R_Replied rep) = 3"
| "r_left R_Copied = 2"
| "r_left R_Stored = 1"

fun r_knows :: "nat \<Rightarrow> 'v redis_pos \<Rightarrow> bool" where
  "r_knows k (R_Read rc) = (rc = Some k)"
| "r_knows k (R_Locked rc) = (rc = Some k)"
| "r_knows k _ = True"

fun r_traced :: "('v redis_reply option \<Rightarrow> bool) \<Rightarrow> 'v query_req \<Rightarrow> 'v redis_pos \<Rightarrow> bool" where
  "r_traced P r (R_Replied rep) = P (Some rep)"
| "r_traced P r R_Copied = (\<exists>b. P b \<and> redis_reads b = (q_err r, q_result r))"
| "r_traced P r R_Stored = (\<exists>b. P b \<and> redis_reads b = (q_err r, q_result r))"
| "r_traced P r _ = True"

lemmas access_defs = the_context_def uv_mutex_lock_def uv_mutex_unlock_def library_handle_def
  close_handle_def lock_moves_def small_alloc_enter_def small_alloc_leave_def put_context_def

lemma context_same: "contexts m a = Some c \<Longrightarrow> \<exists>l. contexts m = (contexts m)(a \<mapsto> c\<lparr>ctx_lock := l\<rparr>) \<and> l = ctx_lock c"
  by (auto simp: fun_upd_idem_iff)

fun m_inside :: "mysql_pos \<Rightarrow> bool" where
  "m_inside M_Begin = False"
| "m_inside _ = True"

fun m_sent :: "mysql_pos \<Rightarrow> bool" where
  "m_sent M_Begin = False"
| "m_sent M_Locked = False"
| "m_sent (M_Read conn) = False"
| "m_sent _ = True"

fun m_copies :: "mysql_pos \<Rightarrow> bool" where
  "m_copies M_Copied = True"
| "m_copies _ = False"

fun m_left :: "mysql_pos \<Rightarrow> nat" where
  "m_left M_Begin = 6"
| "m_left M_Locked = 5"
| "m_left (M_Read conn) = 4"
| "m_left (M_Failed e) = 3"
| "m_left M_Copied = 2"
| "m_left M_Stored = 1"

fun m_knows :: "nat \<Rightarrow> mysql_pos \<Rightarrow> bool" where
  "m_knows k (M_Read conn) = (conn = Some k)"
| "m_knows k _ = True"

fun m_traced :: "('v mysql_answer \<Rightarrow> bool) \<Rightarrow> 'v query_req \<Rightarrow> mysql_pos \<Rightarrow> bool" where
  "m_traced P r (M_Failed e) = P (My_Error e)"
| "m_traced P r M_Copied = (\<exists>b. P b \<and> mysql_reads b = (q_err r, q_result r))"
| "m_traced P r M_Stored = (\<exists>b. P b \<and> mysql_reads b = (q_err r, q_result r))"
| "m_traced P r _ = True"

lemma r_traced_mono: "r_traced P r p \<Longrightarrow> (\<And>b. P b \<Longrightarrow> Q b) \<Longrightarrow> r_traced Q r p"
  by (cases p) auto

lemma m_traced_mono: "m_traced P r p \<Longrightarrow> (\<And>b. P b \<Longrightarrow> Q b) \<Longrightarrow> m_traced Q r p"
  by (cases p) auto

lemma read_back:
  "P (Some (Reply_Error e)) \<Longrightarrow> \<exists>b. P b \<and> redis_reads b = (Some e, None)"
  "P (Some (Reply_Value v)) \<Longrightarrow> \<exists>b. P b \<and> redis_reads b = (None, Some v)"
  "Q (My_Error e) \<Longrightarrow> \<exists>b. Q b \<and> mysql_reads b = (Some e, None)"
  by (rule exI, erule conjI, simp)+

lemma context_unchanged:
  "contexts m a = Some c \<Longrightarrow> is_closed c = b \<Longrightarrow> ctx_lock c = l \<Longrightarrow>
   \<exists>c'. contexts m = (contexts m)(a \<mapsto> c') \<and> is_closed c' = b \<and> ctx_lock c' = l"
  by (auto intro!: exI [of _ c])

lemmas work_splits = option.splits if_splits prod.splits outcome.splits redis_reply.splits mysql_answer.splits

interpretation redis: db_driver "redis fmt" r_inside r_sent r_copies r_left r_knows r_traced redis_reads
  redis_answers fmt for fmt
proof (unfold_locales, goal_cases)
  case (2 m t ans a r p r' p' m')
  then show ?case by (cases p) (auto simp: access_defs obind_def mem_finite_def split: work_splits)
next
  case (3 m t ans r p r' p' m' evs)
  then show ?case by (cases p) (auto simp: access_defs obind_def mem_finite_def split: work_splits)
next
  case (4 m t a cp cp' m')
  then show ?case by (cases cp) (auto simp: access_defs obind_def mem_finite_def split: work_splits)
next
  case (5 t ans a r p m r' p' m')
  then show ?case by (cases p) (auto simp: access_defs obind_def split: work_splits)
next
  case (6 t ans r p m r' p' m' evs)
  then show ?case by (cases p) (auto simp: access_defs obind_def split: work_splits)
next
  case (7 t a cp m cp' m')
  then show ?case by (cases cp) (auto simp: access_defs obind_def split: work_splits)
next
  case (8 p)
  then show ?case by (cases p) auto
next
  case (15 m r c k p t wire P ans)
  note context_same [OF 15(1)]
  with 15 show ?case
    by (cases p) (auto simp: access_defs redis_answers_def split: redis_reply.splits option.splits
        intro: read_back)
next
  case (16 m a ans p t r)
  then show ?case by (cases p) (auto simp: access_defs split: option.splits prod.splits)
next
  case (17 m a c cp t)
  then show ?case by (cases cp) (auto simp: access_defs intro: context_unchanged)
qed (auto simp: redis_answers_def intro: r_traced_mono)

interpretation mysql: db_driver mysql m_inside m_sent m_copies m_left m_knows m_traced mysql_reads
  mysql_answers Some
proof (unfold_locales, goal_cases)
  case (2 m t ans a r p r' p' m')
  then show ?case by (cases p) (auto simp: access_defs obind_def mem_finite_def split: work_splits)
next
  case (3 m t ans r p r' p' m' evs)
  then show ?case by (cases p) (auto simp: access_defs obind_def mem_finite_def split: work_splits)
next
  case (4 m t a cp cp' m')
  then show ?case by (cases cp) (auto simp: access_defs obind_def mem_finite_def split: work_splits)
next
  case (5 t ans a r p m r' p' m')
  then show ?case by (cases p) (auto simp: access_defs obind_def split: work_splits)
next
  case (6 t ans r p m r' p' m' evs)
  then show ?case by (cases p) (auto simp: access_defs obind_def split: work_splits)
next
  case (7 t a cp m cp' m')
  then show ?case by (cases cp) (auto simp: access_defs obind_def split: work_splits)
next
  case (8 p)
  then show ?case by (cases p) auto
next
  case (15 m r c k p t wire P ans)
  note context_same [OF 15(1)]
  with 15 show ?case
    by (cases p) (auto simp: access_defs mysql_answers_def split: mysql_answer.splits
        intro: mysql_reads.simps read_back)
next
  case (16 m a ans p t r)
  then show ?case by (cases p) (auto simp: access_defs split: option.splits prod.splits)
next
  case (17 m a c cp t)
  then show ?case by (cases cp) (auto simp: access_defs intro: context_unchanged)
qed (auto simp: mysql_answers_def intro: m_traced_mono)

end
