(* ===== verification/Database_Runs.thy ===== *)
theory Database_Runs
  imports Database_Safe
begin

text \<open>
  The step relation of the thread pool as a function of the label, runs of labels, and the
  results on the two database clients: the two ways a polite program can fail, that it is
  answered otherwise, and what happens to a query that a close overtakes.
\<close>

section \<open>Executing a label\<close>

fun db_exec ::
  "('c, 'v, 'a, 'p) driver \<Rightarrow> nat \<Rightarrow> ('c, 'a) label \<Rightarrow> ('c, 'v, 'a, 'p) db_state
     \<Rightarrow> ('c, 'v, 'a, 'p) db_state result option" where
  "db_exec D n (Calls op) st = Some (do_op op st)"
| "db_exec D n (Takes t) st =
     (if t < n \<and> workers st t = None \<and> wq st \<noteq> [] then Some (Inr (worker_takes D t st)) else None)"
| "db_exec D n (Connects t ans a) st =
     (case workers st t of
        Some (Connecting r (Some p)) \<Rightarrow>
          if t < n \<and> contexts (mem st) a = None \<and> (case ans of None \<Rightarrow> True | Some (e, k) \<Rightarrow> k \<notin> live_conns (mem st))
          then (case d_connect D t ans a r p (mem st) of
                  Blocks \<Rightarrow> None
                | Goes (r', p', m') \<Rightarrow> Some (Inr (set_task t (Connecting r' p') m' [] st))
                | Fails e \<Rightarrow> Some (Inl e))
          else None
      | _ \<Rightarrow> None)"
| "db_exec D n (Queries t ans) st =
     (case workers st t of
        Some (Querying r (Some p)) \<Rightarrow>
          if t < n
          then (case d_query D t ans r p (mem st) of
                  Blocks \<Rightarrow> None
                | Goes (r', p', m', evs) \<Rightarrow> Some (Inr (set_task t (Querying r' p') m' evs st))
                | Fails e \<Rightarrow> Some (Inl e))
          else None
      | _ \<Rightarrow> None)"
| "db_exec D n (Closes t) st =
     (case workers st t of
        Some (Closing a (Some p)) \<Rightarrow>
          if t < n
          then (case d_close D t a p (mem st) of
                  Blocks \<Rightarrow> None
                | Goes (p', m') \<Rightarrow> Some (Inr (set_task t (Closing a p') m' [] st))
                | Fails e \<Rightarrow> Some (Inl e))
          else None
      | _ \<Rightarrow> None)"
| "db_exec D n (Returns t) st =
     (case workers st t of
        Some x \<Rightarrow> if t < n \<and> returned x then Some (Inr (worker_returns t x st)) else None
      | None \<Rightarrow> None)"
| "db_exec D n Moves st = (if batch st = [] \<and> completed st \<noteq> [] then Some (Inr (work_done_moves st)) else None)"
| "db_exec D n Delivers st = (if batch st \<noteq> [] then Some (work_done_delivers st) else None)"

lemma db_exec_step: "db_exec D n l st = Some r \<Longrightarrow> db_step D n st l r"
  by (cases l) (auto intro: db_step.intros split: if_splits option.splits task.splits bool.splits outcome.splits prod.splits)

lemma db_step_exec: "db_step D n st l r \<Longrightarrow> db_exec D n l st = Some r"
  by (erule db_step.cases) (auto split: option.splits)

lemma db_exec_iff: "db_step D n st l r \<longleftrightarrow> db_exec D n l st = Some r"
  using db_exec_step db_step_exec by blast

fun db_run ::
  "('c, 'v, 'a, 'p) driver \<Rightarrow> nat \<Rightarrow> (('c, 'v, 'a, 'p) db_state \<Rightarrow> ('c, 'a) label \<Rightarrow> bool)
     \<Rightarrow> ('c, 'a) label list \<Rightarrow> ('c, 'v, 'a, 'p) db_state result \<Rightarrow> ('c, 'v, 'a, 'p) db_state result option" where
  "db_run D n ok [] r = Some r"
| "db_run D n ok (l # ls) (Inl e) = None"
| "db_run D n ok (l # ls) (Inr st) =
     (if ok st l then case db_exec D n l st of None \<Rightarrow> None | Some r \<Rightarrow> db_run D n ok ls r else None)"

lemma db_run_reach:
  "db_run D n ok ls r = Some r' \<Longrightarrow> db_reach D n ok r \<Longrightarrow> db_reach D n ok r'"
proof (induction D n ok ls r rule: db_run.induct)
  case (3 D n ok l ls st)
  then show ?case
    by (auto split: if_splits option.splits intro: db_reach.step db_exec_step)
qed auto

lemma db_run_pool:
  "db_run D n ok ls (Inr st) = Some (Inr st') \<Longrightarrow> list_all (\<lambda>l. \<not> is_call l) ls \<Longrightarrow>
   pool_run D n ok (length ls) st st'"
proof (induction ls arbitrary: st' rule: rev_induct)
  case Nil
  then show ?case by (auto intro: pool_run.stop)
next
  case (snoc l ls)
  have app: "db_run D n ok (ls @ ls') r = (case db_run D n ok ls r of None \<Rightarrow> None | Some r' \<Rightarrow> db_run D n ok ls' r')" for ls' r
    by (induction D n ok ls r rule: db_run.induct) (auto split: option.splits)
  from snoc.prems obtain s where "db_run D n ok ls (Inr st) = Some (Inr s)" "ok s l" "db_exec D n l s = Some (Inr st')"
    by (auto simp: app split: option.splits if_splits elim!: db_run.elims)
  with snoc show ?case by (auto intro: pool_run.more db_exec_step)
qed


section \<open>Polite programs\<close>

text \<open>Worker \<open>t\<close> is about to call the client library with the handle \<open>k\<close>.\<close>

fun redis_calling :: "db_mem \<Rightarrow> nat \<Rightarrow> ('c, 'v, 'v redis_pos) task \<Rightarrow> bool" where
  "redis_calling m k (Querying r (Some (R_Locked rc))) = (rc = Some k)"
| "redis_calling m k (Closing a (Some C_Locked)) = (map_option pConn (contexts m a) = Some (Some k))"
| "redis_calling m k _ = False"

definition redis_calls :: "('c, 'v, 'a, 'v redis_pos) db_state \<Rightarrow> nat \<Rightarrow> nat \<Rightarrow> bool" where
  "redis_calls st t k = (case workers st t of None \<Rightarrow> False | Some x \<Rightarrow> redis_calling (mem st) k x)"

fun mysql_calling :: "db_mem \<Rightarrow> nat \<Rightarrow> ('c, 'v, mysql_pos) task \<Rightarrow> bool" where
  "mysql_calling m k (Querying r (Some (M_Read conn))) = (conn = Some k)"
| "mysql_calling m k (Closing a (Some C_Locked)) = (map_option pConn (contexts m a) = Some (Some k))"
| "mysql_calling m k _ = False"

definition mysql_calls :: "('c, 'v, 'a, mysql_pos) db_state \<Rightarrow> nat \<Rightarrow> nat \<Rightarrow> bool" where
  "mysql_calls st t k = (case workers st t of None \<Rightarrow> False | Some x \<Rightarrow> mysql_calling (mem st) k x)"

context db_driver
begin

text \<open>A worker between lock and unlock, on an open handle.\<close>

definition busy_with :: "nat \<Rightarrow> ('c, 'v, 'a, 'p) db_state \<Rightarrow> nat \<Rightarrow> nat \<Rightarrow> bool" where
  "busy_with n st t k \<longleftrightarrow> t < n \<and> (\<exists>a c x. workers st t = Some x \<and> holds_by inside a t (Running t x) \<and>
     contexts (mem st) a = Some c \<and> pConn c = Some k \<and> (\<forall>s \<in># stages n st. \<not> conn_done a s))"

lemma busy_alone: "state_inv n st \<Longrightarrow> busy_with n st t k \<Longrightarrow> busy_with n st t' k \<Longrightarrow> t = t'"
  unfolding busy_with_def by (metis one_thread_inside)

lemma busy_query:
  assumes inv: "state_inv n st" and t: "t < n" "workers st t = Some (Querying r (Some p))" "inside p"
    and "\<And>k'. knows k' p \<Longrightarrow> k' = k"
  shows "busy_with n st t k"
proof -
  obtain N where N: "stages n st = add_mset (Running t (Querying r (Some p))) N" "\<And>y. Running t y \<notin># N"
    using stages_set_task [OF t(1,2)] by metis
  obtain c k' where c: "contexts (mem st) (q_context r) = Some c" "pConn c = Some k'" "knows k' p"
    using query_ready [OF inv [unfolded state_inv_def N(1)] N(2)] by metis
  with assms(5) have "pConn c = Some k" by blast
  with c(1) t query_not_done [OF inv t(1,2)] show ?thesis
    unfolding busy_with_def by (intro conjI exI [of _ "q_context r"] exI [of _ c] exI) auto
qed

lemma busy_close:
  assumes inv: "state_inv n st" and t: "t < n" "workers st t = Some (Closing a (Some C_Locked))"
    and "contexts (mem st) a = Some c" "pConn c = Some k"
  shows "busy_with n st t k"
  using assms(4,5) t close_not_done [OF inv t]
  unfolding busy_with_def by (intro conjI exI [of _ a] exI [of _ c] exI) auto

text \<open>What is true after a step of a polite program, and why it failed if it failed.\<close>

lemma step_replies:
  assumes "db_reach D n (polite texts n) (Inr st)" "polite texts n st l" "db_step D n st l r"
  shows "case r of
      Inl e \<Rightarrow> e = NullDeref \<and> null_answer given l \<or> e = DataRace \<and> another_allocates copies st l
    | Inr st' \<Rightarrow> state_inv n st' \<and>
        (\<forall>e v u. Answered e v u \<in> set (log st') \<longrightarrow>
           (\<exists>a cmd wire k b. Asked a cmd u \<in> set (log st') \<and> texts cmd = Some wire \<and>
              Command u k wire b \<in> set (log st') \<and> reads b = (e, v)))"
proof -
  from reach_inv [OF assms(1) refl] have "state_inv n st" "alloc_inv n st" by simp_all
  note s = step_inv [OF this assms(3,2)]
  show ?thesis
  proof (cases r)
    case (Inr st')
    with s have i: "state_inv n st'" by simp
    from db_invD(6) [OF this [unfolded state_inv_def]] i Inr show ?thesis
      by (simp add: replies_def)
  qed (use s in simp)
qed

end

lemma redis_calls_busy:
  "redis.state_inv fmt n st \<Longrightarrow> t < n \<Longrightarrow> redis_calls st t k \<Longrightarrow> redis.busy_with n st t k"
  by (auto simp: redis_calls_def split: option.splits elim!: redis_calling.elims
      intro: redis.busy_query redis.busy_close)

lemma mysql_calls_busy: "mysql.state_inv n st \<Longrightarrow> t < n \<Longrightarrow> mysql_calls st t k \<Longrightarrow> mysql.busy_with n st t k"
  by (auto simp: mysql_calls_def split: option.splits elim!: mysql_calling.elims
      intro: mysql.busy_query mysql.busy_close)

text \<open>
  C8: whatever the client libraries answer, the null pointer included, and in whatever order the
  threads run, a program that uses no freed context, closes a context only when its queries have
  been answered and queries with texts the library can send, fails in two ways only: by reading a
  null answer of the library, and by a thread that calls the unlocked \<open>small_alloc\<close> while another
  one is inside. A step that does not fail leaves no two threads in the client library with the
  same connection, and what a query's callback was told is what the server answered to its
  command.
\<close>

theorem polite_programs_safe:
  assumes "db_reach (redis fmt) n (polite fmt n) (Inr st)" "polite fmt n st l" "db_step (redis fmt) n st l r"
    and "db_reach mysql n (polite Some n) (Inr st')" "polite Some n st' l'" "db_step mysql n st' l' r'"
  shows "(case r of
      Inl e \<Rightarrow> e = NullDeref \<and> null_answer redis_answers l \<or> e = DataRace \<and> another_allocates r_copies st l
    | Inr s \<Rightarrow>
        (\<forall>t t' k. t < n \<and> t' < n \<and> redis_calls s t k \<and> redis_calls s t' k \<longrightarrow> t = t') \<and>
        (\<forall>e v u. Answered e v u \<in> set (log s) \<longrightarrow>
           (\<exists>a cmd wire k b. Asked a cmd u \<in> set (log s) \<and> fmt cmd = Some wire \<and>
              Command u k wire b \<in> set (log s) \<and> redis_reads b = (e, v)))) \<and>
    (case r' of
      Inl e \<Rightarrow> e = NullDeref \<and> null_answer mysql_answers l' \<or> e = DataRace \<and> another_allocates m_copies st' l'
    | Inr s \<Rightarrow>
        (\<forall>t t' k. t < n \<and> t' < n \<and> mysql_calls s t k \<and> mysql_calls s t' k \<longrightarrow> t = t') \<and>
        (\<forall>e v u. Answered e v u \<in> set (log s) \<longrightarrow>
           (\<exists>a cmd k b. Asked a cmd u \<in> set (log s) \<and> Command u k cmd b \<in> set (log s) \<and>
              mysql_reads b = (e, v))))"
proof (rule conjI)
  note st = redis.step_replies [OF assms(1-3)]
  show "case r of
      Inl e \<Rightarrow> e = NullDeref \<and> null_answer redis_answers l \<or> e = DataRace \<and> another_allocates r_copies st l
    | Inr s \<Rightarrow>
        (\<forall>t t' k. t < n \<and> t' < n \<and> redis_calls s t k \<and> redis_calls s t' k \<longrightarrow> t = t') \<and>
        (\<forall>e v u. Answered e v u \<in> set (log s) \<longrightarrow>
           (\<exists>a cmd wire k b. Asked a cmd u \<in> set (log s) \<and> fmt cmd = Some wire \<and>
              Command u k wire b \<in> set (log s) \<and> redis_reads b = (e, v)))"
  proof (cases r)
    case (Inr s)
    with st have i: "redis.state_inv fmt n s" and told: "\<forall>e v u. Answered e v u \<in> set (log s) \<longrightarrow>
           (\<exists>a cmd wire k b. Asked a cmd u \<in> set (log s) \<and> fmt cmd = Some wire \<and>
              Command u k wire b \<in> set (log s) \<and> redis_reads b = (e, v))" by simp_all
    have "t = t'" if "t < n" "t' < n" "redis_calls s t k" "redis_calls s t' k" for t t' k
      by (rule redis.busy_alone [OF i redis_calls_busy [OF i that(1,3)] redis_calls_busy [OF i that(2,4)]])
    then have "\<forall>t t' k. t < n \<and> t' < n \<and> redis_calls s t k \<and> redis_calls s t' k \<longrightarrow> t = t'" by blast
    with told show ?thesis unfolding Inr by (simp only: sum.case)
  qed (use st in simp)
next
  note st = mysql.step_replies [OF assms(4-6)]
  show "case r' of
      Inl e \<Rightarrow> e = NullDeref \<and> null_answer mysql_answers l' \<or> e = DataRace \<and> another_allocates m_copies st' l'
    | Inr s \<Rightarrow>
        (\<forall>t t' k. t < n \<and> t' < n \<and> mysql_calls s t k \<and> mysql_calls s t' k \<longrightarrow> t = t') \<and>
        (\<forall>e v u. Answered e v u \<in> set (log s) \<longrightarrow>
           (\<exists>a cmd k b. Asked a cmd u \<in> set (log s) \<and> Command u k cmd b \<in> set (log s) \<and>
              mysql_reads b = (e, v)))"
  proof (cases r')
    case (Inr s)
    with st have i: "mysql.state_inv n s" and told: "\<forall>e v u. Answered e v u \<in> set (log s) \<longrightarrow>
           (\<exists>a cmd k b. Asked a cmd u \<in> set (log s) \<and> Command u k cmd b \<in> set (log s) \<and>
              mysql_reads b = (e, v))" by simp_all
    have "t = t'" if "t < n" "t' < n" "mysql_calls s t k" "mysql_calls s t' k" for t t' k
      by (rule mysql.busy_alone [OF i mysql_calls_busy [OF i that(1,3)] mysql_calls_busy [OF i that(2,4)]])
    then have "\<forall>t t' k. t < n \<and> t' < n \<and> mysql_calls s t k \<and> mysql_calls s t' k \<longrightarrow> t = t'" by blast
    with told show ?thesis unfolding Inr by (simp only: sum.case)
  qed (use st in simp)
qed

text \<open>
  C9: the answers arrive, unless the run fails as the property above allows. From every state that a
  polite program reaches, whatever the libraries have answered, the steps of the pool alone are
  bounded in number; as long as a request is pending, a step that succeeds is possible (no
  deadlock); and when none is pending, the server was sent every accepted query exactly once and
  every query's callback was called exactly once. (A query whose reply is null is in neither
  case: reading it ends the run.)
\<close>

theorem queries_are_answered:
  assumes "db_reach (redis fmt) n (polite fmt n) (Inr st)"
    and "db_reach mysql n (polite Some n) (Inr st')" and "0 < n"
  shows "(\<exists>bound. \<forall>k s. pool_run (redis fmt) n (polite fmt n) k st s \<longrightarrow>
           k \<le> bound \<and>
           (if pending n s = []
            then \<forall>u. answers u (log s) = asks u (log s) \<and> commands u (log s) = asks u (log s)
            else \<exists>l s'. \<not> is_call l \<and> db_step (redis fmt) n s l (Inr s'))) \<and>
         (\<exists>bound. \<forall>k s. pool_run mysql n (polite Some n) k st' s \<longrightarrow>
           k \<le> bound \<and>
           (if pending n s = []
            then \<forall>u. answers u (log s) = asks u (log s) \<and> commands u (log s) = asks u (log s)
            else \<exists>l s'. \<not> is_call l \<and> db_step mysql n s l (Inr s')))"
  by (rule conjI [OF redis.answers_arrive [OF assms(1,3)] mysql.answers_arrive [OF assms(2,3)]])

lemmas run_defs = db_connect_def db_query_def db_close_def uv_queue_work_def worker_takes_def worker_returns_def
  work_done_moves_def work_done_delivers_def on_connect_complete_def on_query_complete_def on_close_complete_def
  set_task_def the_context_def uv_mutex_lock_def uv_mutex_unlock_def loop_allocates_def small_alloc_enter_def
  small_alloc_leave_def library_handle_def close_handle_def put_context_def

section \<open>A close that overtakes a query\<close>

definition idle :: "('c, 'v, 'a, 'p) db_state \<Rightarrow> bool" where
  "idle st \<longleftrightarrow> wq st = [] \<and> completed st = [] \<and> batch st = [] \<and> workers st = Map.empty \<and>
     allocating (mem st) = None"

definition open_context :: "nat \<Rightarrow> ('c, 'v, 'a, 'p) db_state \<Rightarrow> bool" where
  "open_context a st = (case contexts (mem st) a of
     None \<Rightarrow> False
   | Some c \<Rightarrow> \<not> is_closed c \<and> ctx_lock c = None \<and> (case pConn c of None \<Rightarrow> False | Some k \<Rightarrow> k \<in> live_conns (mem st)))"

text \<open>
  C29: closing is guarded against later queries, not against earlier ones. When a program queries
  an open context and closes it before the answer, two idle workers can run so that the context
  is freed while the query's work function still uses it: with both clients the run ends in the
  use of freed memory, although the query was accepted.
\<close>

theorem close_overtakes_query:
  fixes st :: "('c, 'v, 'v redis_reply option, 'v redis_pos) db_state"
    and st' :: "('c, 'v, 'v mysql_answer, mysql_pos) db_state"
  assumes "idle st" "open_context a st" "idle st'" "open_context a st'" "2 \<le> n"
  shows "(\<exists>ls. list_all (\<lambda>l. \<not> is_call l) ls \<and>
           db_run (redis fmt) n (\<lambda>_ _. True) (Calls (Do_Query a cmd u) # Calls (Do_Close a) # ls) (Inr st)
             = Some (Inl UseAfterFree)) \<and>
         (\<exists>ls. list_all (\<lambda>l. \<not> is_call l) ls \<and>
           db_run mysql n (\<lambda>_ _. True) (Calls (Do_Query a cmd u) # Calls (Do_Close a) # ls) (Inr st')
             = Some (Inl UseAfterFree))"
proof (intro conjI exI)
  show "list_all (\<lambda>l. \<not> is_call l)
      ([Takes 0, Takes 1, Queries 0 None, Closes 1, Closes 1, Closes 1, Closes 1, Returns 1, Moves, Delivers,
        Queries 0 None] :: ('c, 'v redis_reply option) label list)"
    by (simp add: is_call_def)
  show "db_run (redis fmt) n (\<lambda>_ _. True) (Calls (Do_Query a cmd u) # Calls (Do_Close a) #
      [Takes 0, Takes 1, Queries 0 None, Closes 1, Closes 1, Closes 1, Closes 1, Returns 1, Moves, Delivers,
        Queries 0 None]) (Inr st) = Some (Inl UseAfterFree)"
    using assms(1,2,5)
    by (auto simp: idle_def open_context_def run_defs split: option.splits)
  show "list_all (\<lambda>l. \<not> is_call l)
      ([Takes 0, Takes 1, Closes 1, Closes 1, Closes 1, Returns 1, Moves, Delivers, Queries 0 (My_Result None)]
        :: ('c, 'v mysql_answer) label list)"
    by (simp add: is_call_def)
  show "db_run mysql n (\<lambda>_ _. True) (Calls (Do_Query a cmd u) # Calls (Do_Close a) #
      [Takes 0, Takes 1, Closes 1, Closes 1, Closes 1, Returns 1, Moves, Delivers, Queries 0 (My_Result None)])
      (Inr st') = Some (Inl UseAfterFree)"
    using assms(3,4,5)
    by (auto simp: idle_def open_context_def run_defs split: option.splits)
qed

section \<open>Witnesses\<close>

text \<open>
  A format that asks for an argument has a percent sign. A program that connects, and queries;
  the first command is about to be sent.
\<close>

definition plain_format :: "string \<Rightarrow> string option" where
  "plain_format s = (if CHR ''%'' \<in> set s then None else Some s)"

definition opens :: "('c, 'a) label list" where
  "opens = [Takes 0, Connects 0 (Some (None, 7)) 100, Connects 0 None 101, Returns 0, Moves, Delivers]"

definition redis_session :: "(unit, string redis_reply option) label list" where
  "redis_session = Calls (Do_Connect () 1) # opens @
     [Calls (Do_Query 100 ''PING'' 2), Takes 0, Queries 0 None, Queries 0 None]"

definition mysql_session :: "(unit, string mysql_answer) label list" where
  "mysql_session = Calls (Do_Connect () 1) # opens @
     [Calls (Do_Query 100 ''SHOW'' 2), Takes 0, Queries 0 (My_Result None), Queries 0 (My_Result None)]"

abbreviation redis_demo :: "(unit, string, string redis_reply option, string redis_pos) driver" where
  "redis_demo \<equiv> redis plain_format"

lemmas session_defs = redis_session_def mysql_session_def opens_def db_start_def run_defs polite_def polite_op_def
  plain_format_def

lemma redis_session_runs:
  "\<exists>st. db_run redis_demo 4 (polite plain_format 4) redis_session (Inr db_start) = Some (Inr st) \<and>
     asks 2 (log st) = 1 \<and> answers 2 (log st) = 0 \<and> db_exec redis_demo 4 (Queries 0 None) st = Some (Inl NullDeref)"
  by (simp add: session_defs)

lemma mysql_session_runs:
  "\<exists>st. db_run mysql 4 (polite Some 4) mysql_session (Inr db_start) = Some (Inr st) \<and>
     (\<exists>s. db_exec mysql 4 (Queries 0 (My_Error ''gone'')) st = Some (Inr s))"
  by (simp add: session_defs)

lemma polite_programs_safe_witness:
  "\<exists>st st' s. db_run redis_demo 4 (polite plain_format 4) redis_session (Inr db_start) = Some (Inr st) \<and>
     db_step redis_demo 4 st (Queries 0 None) (Inl NullDeref) \<and>
     null_answer redis_answers (Queries 0 None :: (unit, string redis_reply option) label) \<and>
     db_run mysql 4 (polite Some 4) mysql_session (Inr db_start) = Some (Inr st') \<and>
     db_step mysql 4 st' (Queries 0 (My_Error ''gone'')) (Inr s) \<and>
     (\<forall>t t' k. t < 4 \<and> t' < 4 \<and> mysql_calls s t k \<and> mysql_calls s t' k \<longrightarrow> t = t')"
proof -
  obtain st st' s where
    r: "db_run redis_demo 4 (polite plain_format 4) redis_session (Inr db_start) = Some (Inr st)"
      "db_step redis_demo 4 st (Queries 0 None) (Inl NullDeref)" and
    m: "db_run mysql 4 (polite Some 4) mysql_session (Inr db_start) = Some (Inr st')"
      "db_step mysql 4 st' (Queries 0 (My_Error ''gone'')) (Inr s)"
    using redis_session_runs mysql_session_runs unfolding db_exec_iff by blast
  have p: "polite plain_format 4 st (Queries 0 None)" "polite Some 4 st' (Queries 0 (My_Error ''gone''))"
    by (simp_all add: polite_def)
  note safe = polite_programs_safe [OF db_run_reach [OF r(1) db_reach.start] p(1) r(2)
      db_run_reach [OF m(1) db_reach.start] p(2) m(2)]
  from conjunct1 [OF safe]
  have "null_answer redis_answers (Queries 0 None :: (unit, string redis_reply option) label)" by simp
  moreover from conjunct2 [OF safe]
  have "\<forall>t t' k. t < 4 \<and> t' < 4 \<and> mysql_calls s t k \<and> mysql_calls s t' k \<longrightarrow> t = t'" by simp
  ultimately show ?thesis using r m by blast
qed

lemma queries_are_answered_witness:
  "\<exists>st st' bound. db_run redis_demo 4 (polite plain_format 4) redis_session (Inr db_start) = Some (Inr st) \<and>
     db_run mysql 4 (polite Some 4) mysql_session (Inr db_start) = Some (Inr st') \<and>
     asks 2 (log st) = 1 \<and> answers 2 (log st) = 0 \<and>
     (\<forall>k s. pool_run redis_demo 4 (polite plain_format 4) k st s \<longrightarrow>
        k \<le> bound \<and> (pending 4 s = [] \<longrightarrow> answers 2 (log s) = asks 2 (log s)))"
proof -
  obtain st st' where
    r: "db_run redis_demo 4 (polite plain_format 4) redis_session (Inr db_start) = Some (Inr st)"
      "asks 2 (log st) = 1" "answers 2 (log st) = 0" and
    m: "db_run mysql 4 (polite Some 4) mysql_session (Inr db_start) = Some (Inr st')"
    using redis_session_runs mysql_session_runs by blast
  have "(0 :: nat) < 4" by simp
  from conjunct1 [OF queries_are_answered [OF db_run_reach [OF r(1) db_reach.start]
      db_run_reach [OF m(1) db_reach.start] this]]
  obtain bound where "\<And>k s. pool_run redis_demo 4 (polite plain_format 4) k st s \<Longrightarrow>
    k \<le> bound \<and> (pending 4 s = [] \<longrightarrow> answers 2 (log s) = asks 2 (log s))"
    by (metis (full_types))
  with r m show ?thesis by blast
qed

definition opened :: "('c, 'v, 'a, 'p) db_state" where
  "opened = db_start\<lparr>mem := \<lparr>contexts = [100 \<mapsto> \<lparr>pConn = Some 7, ctx_lock = None, is_closed = False\<rparr>],
                            live_conns = {7}, allocating = None\<rparr>\<rparr>"

lemma close_overtakes_query_witness:
  "\<exists>ls. db_run redis_demo 4 (\<lambda>_ _. True)
     (Calls (Do_Query 100 ''PING'' 2) # Calls (Do_Close 100) # (ls :: (unit, string redis_reply option) label list))
     (Inr opened) = Some (Inl UseAfterFree)"
proof -
  have "idle opened" "open_context 100 opened"
    by (simp_all add: idle_def open_context_def opened_def db_start_def)
  from close_overtakes_query [OF this this, where n = 4 and cmd = "''PING''" and u = 2] show ?thesis by auto
qed

end
