(* ===== verification/Lua_Message.thy ===== *)
theory Lua_Message
  imports Lua_Value
begin

text \<open>
  Protobuf messages in Lua: \<open>push_proto_message_tolua\<close> of
  \<open>lua_wrapper/service_export_to_lua.cc\<close>, which makes a table of a message, and
  \<open>lua_table_to_protobuf\<close> of \<open>session_export_to_lua.cc\<close>, which makes a message of a table. A
  message is its type and the values of its fields, as protobuf's reflection gives and takes
  them; message types are looked up by their full name in the pool of generated types.
\<close>

section \<open>Messages\<close>

datatype 'd pvalue =
    PDouble 'd
  | PFloat 'd                  \<comment> \<open>a \<open>float\<close>, as the \<open>double\<close> of the same value\<close>
  | PInt64 "64 word"
  | PUInt64 "64 word"
  | PEnum int
  | PInt32 "32 word"
  | PUInt32 "32 word"
  | PString string
  | PBool bool
  | PMessage string "'d pvalue list list"

text \<open>
  A message: its full type name, and for each field in the order of the descriptor the values
  it holds: at most one for a singular field, none where the field is not set.
\<close>

type_synonym 'd message = "string \<times> 'd pvalue list list"

datatype cpp_type =
    CPPTYPE_DOUBLE | CPPTYPE_FLOAT | CPPTYPE_INT64 | CPPTYPE_UINT64 | CPPTYPE_ENUM "int list"
  | CPPTYPE_INT32 | CPPTYPE_UINT32 | CPPTYPE_STRING | CPPTYPE_BOOL | CPPTYPE_MESSAGE string

datatype field_label = Required | Optional | Repeated

text \<open>
  A field descriptor. \<open>fd_default\<close> is what \<open>Get...\<close> returns for a scalar field that is not
  set. An enumeration is the list of its numbers.
\<close>

record 'd field =
  fd_name :: string
  fd_label :: field_label
  fd_type :: cpp_type
  fd_default :: "'d pvalue"

type_synonym 'd pool = "string \<Rightarrow> 'd field list option"

definition fields_of :: "'d pool \<Rightarrow> string \<Rightarrow> 'd field list" where
  "fields_of pool ty = (case pool ty of None \<Rightarrow> [] | Some fds \<Rightarrow> fds)"

text \<open>\<open>Descriptor::name()\<close> is the full name behind its last dot.\<close>

definition short_name :: "string \<Rightarrow> string" where
  "short_name s = rev (takeWhile (\<lambda>c. c \<noteq> CHR ''.'') (rev s))"

text \<open>\<open>FieldDescriptor::lowercase_name()\<close>.\<close>

definition lower_char :: "char \<Rightarrow> char" where
  "lower_char c = (if 65 \<le> uchar c \<and> uchar c \<le> 90 then char_of (uchar c + 32) else c)"

definition lowercase_name :: "'d field \<Rightarrow> string" where
  "lowercase_name fd = map lower_char (fd_name fd)"

text \<open>\<open>proto_man::create_message\<close>: a message with no field set.\<close>

definition new_message :: "'d pool \<Rightarrow> string \<Rightarrow> 'd message option" where
  "new_message pool ty = map_option (\<lambda>fds. (ty, replicate (length fds) [])) (pool ty)"

section \<open>From a message to a table\<close>

text \<open>What \<open>Get...\<close> returns for a singular field; an unset message is the default instance.\<close>

definition get_field :: "'d pool \<Rightarrow> 'd field \<Rightarrow> 'd pvalue list \<Rightarrow> 'd pvalue" where
  "get_field pool fd vs =
     (case vs of
        v # _ \<Rightarrow> v
      | [] \<Rightarrow> (case fd_type fd of
                CPPTYPE_MESSAGE ty \<Rightarrow> PMessage ty (replicate (length (fields_of pool ty)) [])
              | _ \<Rightarrow> fd_default fd))"

text \<open>The array made with \<open>lua_rawseti(state, -2, i + 1)\<close>.\<close>

definition array_of :: "'d lval list \<Rightarrow> ('d lval \<times> 'd lval) list" where
  "array_of vs = fold (\<lambda>(i, v) es. rawset es (Integer (int i + 1)) v) (enumerate 0 vs) []"

text \<open>
  The value pushed for one value of a field. \<open>fuel\<close> bounds the depth of the recursion; \<open>None\<close>
  is a recursion that is deeper.
\<close>

fun push_value :: "'d pool \<Rightarrow> nat \<Rightarrow> 'd pvalue \<Rightarrow> 'd lval option"
and push_message :: "'d pool \<Rightarrow> nat \<Rightarrow> 'd message \<Rightarrow> 'd lval option" where
  "push_value pool fuel (PDouble d) = Some (Number d)"
| "push_value pool fuel (PFloat d) = Some (Number d)"
| "push_value pool fuel (PInt64 w) = Some (Str (format_lld (sint w)))"
| "push_value pool fuel (PUInt64 w) = Some (Str (dec (unat w)))"
| "push_value pool fuel (PEnum n) = Some (Integer n)"
| "push_value pool fuel (PInt32 w) = Some (Integer (sint w))"
| "push_value pool fuel (PUInt32 w) = Some (Integer (uint w))"
| "push_value pool fuel (PString s) = Some (Str s)"
| "push_value pool fuel (PBool b) = Some (Boolean b)"
| "push_value pool fuel (PMessage ty vss) = push_message pool fuel (ty, vss)"
| "push_message pool 0 m = None"
| "push_message pool (Suc fuel) m =
     map_option (\<lambda>vs. Table (fold (\<lambda>(fd, v) es. rawset es (Str (lowercase_name fd)) v)
                                  (zip (fields_of pool (fst m)) vs) []))
       (those (map (\<lambda>(fd, vs).
          if fd_label fd = Repeated
          then map_option (\<lambda>ls. Table (array_of ls)) (those (map (push_value pool fuel) vs))
          else push_value pool fuel (get_field pool fd vs))
        (zip (fields_of pool (fst m)) (snd m))))"

section \<open>From a table to a message\<close>

text \<open>
  \<open>Got\<close> is a message or a value, \<open>Null\<close> the null message of a table that does not fit,
  \<open>Raise\<close> an error of Lua (which leaves the C function), \<open>Crash\<close> undefined behaviour.
\<close>

datatype 'x reading = Got 'x | Null | Raise | Crash c_error

definition rmap :: "('x \<Rightarrow> 'y) \<Rightarrow> 'x reading \<Rightarrow> 'y reading" where
  "rmap f r = (case r of Got x \<Rightarrow> Got (f x) | Null \<Rightarrow> Null | Raise \<Rightarrow> Raise | Crash e \<Rightarrow> Crash e)"

lemma rmap_simps [simp]:
  "rmap f (Got x) = Got (f x)" "rmap f Null = Null" "rmap f Raise = Raise" "rmap f (Crash e) = Crash e"
  by (simp_all add: rmap_def)

text \<open>
  \<open>luaL_checknumber\<close> and the assignment to an integer of the range from \<open>lo\<close> to \<open>hi\<close>; the
  conversion of a double outside of it is not defined.
\<close>

definition check_integer :: "'d doubles \<Rightarrow> int \<Rightarrow> int \<Rightarrow> 'd lval \<Rightarrow> int reading" where
  "check_integer fp lo hi v =
     (case lua_tonumber fp v of
        None \<Rightarrow> Raise
      | Some d \<Rightarrow> (case trunc_int fp d of
            None \<Rightarrow> Crash OutOfBounds
          | Some i \<Rightarrow> if lo \<le> i \<and> i \<le> hi then Got i else Crash OutOfBounds))"

text \<open>The cases of the two \<open>switch\<close> statements, messages apart.\<close>

definition check_scalar :: "'d doubles \<Rightarrow> cpp_type \<Rightarrow> 'd lval \<Rightarrow> 'd pvalue reading" where
  "check_scalar fp ty v =
     (case ty of
        CPPTYPE_DOUBLE \<Rightarrow> (case lua_tonumber fp v of None \<Rightarrow> Raise | Some d \<Rightarrow> Got (PDouble d))
      | CPPTYPE_FLOAT \<Rightarrow> (case lua_tonumber fp v of None \<Rightarrow> Raise | Some d \<Rightarrow> Got (PFloat (round_float fp d)))
      | CPPTYPE_INT64 \<Rightarrow> rmap (\<lambda>i. PInt64 (word_of_int i)) (check_integer fp (- (2 ^ 63)) (2 ^ 63 - 1) v)
      | CPPTYPE_UINT64 \<Rightarrow> rmap (\<lambda>i. PUInt64 (word_of_int i)) (check_integer fp 0 (2 ^ 64 - 1) v)
      | CPPTYPE_ENUM ns \<Rightarrow>
          (case check_integer fp (- (2 ^ 31)) (2 ^ 31 - 1) v of
             Got i \<Rightarrow> if i \<in> set ns then Got (PEnum i) else Crash NullDeref
           | Null \<Rightarrow> Null | Raise \<Rightarrow> Raise | Crash e \<Rightarrow> Crash e)
      | CPPTYPE_INT32 \<Rightarrow> rmap (\<lambda>i. PInt32 (word_of_int i)) (check_integer fp (- (2 ^ 31)) (2 ^ 31 - 1) v)
      | CPPTYPE_UINT32 \<Rightarrow> rmap (\<lambda>i. PUInt32 (word_of_int i)) (check_integer fp 0 (2 ^ 32 - 1) v)
      | CPPTYPE_STRING \<Rightarrow> (case lua_tolstring fp v of None \<Rightarrow> Raise | Some s \<Rightarrow> Got (PString s))
      | CPPTYPE_BOOL \<Rightarrow> Got (PBool (lua_toboolean v))
      | CPPTYPE_MESSAGE ty \<Rightarrow> Null)"

lemma size_table:
  "rawget es k = Table xs \<Longrightarrow> size_list (size_prod size size) xs < size_list (size_prod size size) es"
  using size_rawget [of es k] by simp

text \<open>
  The loop over the fields, the loop over the values of a repeated field, and one value. A nested
  message is made with the short name of its type and copied into a field of the full one;
  \<open>CopyFrom\<close> of a message of another type stops the program.
\<close>

function (sequential) read_message ::
  "'d doubles \<Rightarrow> 'd pool \<Rightarrow> 'd lval \<Rightarrow> string \<Rightarrow> 'd message reading"
and read_fields :: "'d doubles \<Rightarrow> 'd pool \<Rightarrow> ('d lval \<times> 'd lval) list \<Rightarrow> 'd field list \<Rightarrow> 'd pvalue list list reading"
and read_elems :: "'d doubles \<Rightarrow> 'd pool \<Rightarrow> cpp_type \<Rightarrow> ('d lval \<times> 'd lval) list \<Rightarrow> 'd pvalue list reading"
and read_value :: "'d doubles \<Rightarrow> 'd pool \<Rightarrow> cpp_type \<Rightarrow> 'd lval \<Rightarrow> 'd pvalue reading" where
  "read_message fp pool (Table es) ty =
     (case pool ty of None \<Rightarrow> Null | Some fds \<Rightarrow> rmap (Pair ty) (read_fields fp pool es fds))"
| "read_message fp pool v ty = Null"
| "read_fields fp pool es [] = Got []"
| "read_fields fp pool es (fd # fds) =
     (if fd_label fd = Repeated
      then (case rawget es (Str (fd_name fd)) of
              Nil \<Rightarrow> rmap ((#) []) (read_fields fp pool es fds)
            | Table xs \<Rightarrow>
                (case read_elems fp pool (fd_type fd) xs of
                   Got vs \<Rightarrow> rmap ((#) vs) (read_fields fp pool es fds)
                 | Null \<Rightarrow> Null | Raise \<Rightarrow> Raise | Crash e \<Rightarrow> Crash e)
            | _ \<Rightarrow> Null)
      else if rawget es (Str (fd_name fd)) = Nil
      then (if fd_label fd = Required then Null else rmap ((#) []) (read_fields fp pool es fds))
      else (case read_value fp pool (fd_type fd) (rawget es (Str (fd_name fd))) of
              Got v \<Rightarrow> rmap ((#) [v]) (read_fields fp pool es fds)
            | Null \<Rightarrow> Null | Raise \<Rightarrow> Raise | Crash e \<Rightarrow> Crash e))"
| "read_elems fp pool ty [] = Got []"
| "read_elems fp pool ty ((k, v) # xs) =
     (case read_value fp pool ty v of
        Got x \<Rightarrow> rmap ((#) x) (read_elems fp pool ty xs)
      | Null \<Rightarrow> Null | Raise \<Rightarrow> Raise | Crash e \<Rightarrow> Crash e)"
| "read_value fp pool (CPPTYPE_MESSAGE ty) v =
     (case read_message fp pool v (short_name ty) of
        Got (ty', vss) \<Rightarrow> if ty' = ty then Got (PMessage ty vss) else Crash AssertFailed
      | Null \<Rightarrow> Null | Raise \<Rightarrow> Raise | Crash e \<Rightarrow> Crash e)"
| "read_value fp pool ty v = check_scalar fp ty v"
  by pat_completeness auto
termination
proof (relation "measures [\<lambda>x. case x of
      Inl (Inl (fp, pool, v, ty)) \<Rightarrow> 4 * size v
    | Inl (Inr (fp, pool, es, fds)) \<Rightarrow> 4 * size (Table es) - 1
    | Inr (Inl (fp, pool, ty, xs)) \<Rightarrow> 4 * size (Table xs) - 2
    | Inr (Inr (fp, pool, ty, v)) \<Rightarrow> 4 * size v + 1,
    \<lambda>x. case x of Inl (Inr (fp, pool, es, fds)) \<Rightarrow> length fds | _ \<Rightarrow> 0]")
qed (use size_rawget in \<open>fastforce dest: size_table\<close>)+

section \<open>Messages that survive\<close>

text \<open>
  A value of a field's type that Lua can carry: integers of 64 bits go through a double, an
  enumeration's number must be one of its numbers.
\<close>

inductive lua_fits :: "'d doubles \<Rightarrow> 'd pool \<Rightarrow> cpp_type \<Rightarrow> 'd pvalue \<Rightarrow> bool" for fp pool where
  fits_double: "lua_fits fp pool CPPTYPE_DOUBLE (PDouble d)"
| fits_float: "round_float fp d = d \<Longrightarrow> lua_fits fp pool CPPTYPE_FLOAT (PFloat d)"
| fits_int64: "\<bar>sint w\<bar> \<le> 2 ^ 53 \<Longrightarrow> lua_fits fp pool CPPTYPE_INT64 (PInt64 w)"
| fits_uint64: "uint w \<le> 2 ^ 53 \<Longrightarrow> lua_fits fp pool CPPTYPE_UINT64 (PUInt64 w)"
| fits_enum: "n \<in> set ns \<Longrightarrow> - (2 ^ 31) \<le> n \<Longrightarrow> n < 2 ^ 31 \<Longrightarrow> lua_fits fp pool (CPPTYPE_ENUM ns) (PEnum n)"
| fits_int32: "lua_fits fp pool CPPTYPE_INT32 (PInt32 v)"
| fits_uint32: "lua_fits fp pool CPPTYPE_UINT32 (PUInt32 v)"
| fits_string: "lua_fits fp pool CPPTYPE_STRING (PString s)"
| fits_bool: "lua_fits fp pool CPPTYPE_BOOL (PBool b)"
| fits_message: "pool ty = Some fds \<Longrightarrow>
     list_all2 (\<lambda>fd vs. (fd_label fd \<noteq> Repeated \<longrightarrow> length vs \<le> 1) \<and> (\<forall>v \<in> set vs. lua_fits fp pool (fd_type fd) v)) fds vss \<Longrightarrow>
     lua_fits fp pool (CPPTYPE_MESSAGE ty) (PMessage ty vss)"
  monos list_all2_mono

inductive_simps fits_simps:
  "lua_fits fp pool CPPTYPE_DOUBLE v" "lua_fits fp pool CPPTYPE_FLOAT v" "lua_fits fp pool CPPTYPE_INT64 v"
  "lua_fits fp pool CPPTYPE_UINT64 v" "lua_fits fp pool (CPPTYPE_ENUM ns) v" "lua_fits fp pool CPPTYPE_INT32 v"
  "lua_fits fp pool CPPTYPE_UINT32 v" "lua_fits fp pool CPPTYPE_STRING v" "lua_fits fp pool CPPTYPE_BOOL v"
  "lua_fits fp pool (CPPTYPE_MESSAGE ty) (PMessage ty' vss)"
inductive_cases fits_messageE: "lua_fits fp pool (CPPTYPE_MESSAGE ty) v"

text \<open>
  The pool of a program without packages: names without capitals, so that \<open>lowercase_name\<close>
  is \<open>name\<close>, and message types whose full name is their short one.
\<close>

definition plain_pool :: "'d doubles \<Rightarrow> 'd pool \<Rightarrow> bool" where
  "plain_pool fp pool \<longleftrightarrow> (\<forall>ty fds. pool ty = Some fds \<longrightarrow>
     short_name ty = ty \<and> distinct (map fd_name fds) \<and>
     (\<forall>fd \<in> set fds. lowercase_name fd = fd_name fd \<and>
        (case fd_type fd of CPPTYPE_MESSAGE t \<Rightarrow> pool t \<noteq> None | t \<Rightarrow> lua_fits fp pool t (fd_default fd))))"

text \<open>No message type contains itself; \<open>rk\<close> counts the levels below a type.\<close>

definition ranked :: "(string \<Rightarrow> nat) \<Rightarrow> 'd pool \<Rightarrow> bool" where
  "ranked rk pool \<longleftrightarrow> (\<forall>ty fds. pool ty = Some fds \<longrightarrow>
     (\<forall>fd \<in> set fds. case fd_type fd of CPPTYPE_MESSAGE t \<Rightarrow> rk t < rk ty | _ \<Rightarrow> True))"

text \<open>The message with its unset singular fields set to what \<open>Get...\<close> returns.\<close>

fun fill_value :: "'d pool \<Rightarrow> nat \<Rightarrow> 'd pvalue \<Rightarrow> 'd pvalue"
and fill_message :: "'d pool \<Rightarrow> nat \<Rightarrow> 'd message \<Rightarrow> 'd message" where
  "fill_value pool fuel (PMessage ty vss) = PMessage ty (snd (fill_message pool fuel (ty, vss)))"
| "fill_value pool fuel v = v"
| "fill_message pool 0 m = m"
| "fill_message pool (Suc fuel) m =
     (fst m, map (\<lambda>(fd, vs). if fd_label fd = Repeated then map (fill_value pool fuel) vs
                            else [fill_value pool fuel (get_field pool fd vs)])
                 (zip (fields_of pool (fst m)) (snd m)))"

section \<open>Scalars\<close>

lemma check_integer_exact:
  assumes "ieee fp" "lua_tonumber fp v = Some (of_integer fp i)" "\<bar>i\<bar> \<le> 2 ^ 53" "lo \<le> i" "i \<le> hi"
  shows "check_integer fp lo hi v = Got i"
  using assms by (simp add: check_integer_def ieee_exact)

lemma lua_tonumber_Integer [simp]: "lua_tonumber fp (Integer i) = Some (of_integer fp i)"
  by (simp add: lua_tonumber_def)

lemma lua_tonumber_Number [simp]: "lua_tonumber fp (Number d) = Some d"
  by (simp add: lua_tonumber_def)

lemma format_lld_nat: "0 \<le> i \<Longrightarrow> format_lld i = dec (nat i)"
  by (simp add: format_lld_def)

lemma scalar_survives:
  assumes "ieee fp" "lua_fits fp pool ty v" "\<And>t. ty \<noteq> CPPTYPE_MESSAGE t"
  shows "\<exists>l. push_value pool fuel v = Some l \<and> l \<noteq> Nil \<and> check_scalar fp ty l = Got v"
  using assms(2)
proof cases
  case (fits_int64 w)
  from lua_tonumber_format [of "sint w" fp] have "lua_tonumber fp (Str (format_lld (sint w))) = Some (of_integer fp (sint w))"
    using sint_ge [of w] sint_lt [of w] by simp
  from check_integer_exact [OF assms(1) this fits_int64(3)] fits_int64(3)
  have "check_integer fp (- (2 ^ 63)) (2 ^ 63 - 1) (Str (format_lld (sint w))) = Got (sint w)" by simp
  with fits_int64 show ?thesis by (simp add: check_scalar_def)
next
  case (fits_uint64 w)
  have "- (2 ^ 63) \<le> uint w" by (rule order_trans [OF _ uint_ge_0]) simp
  then have "lua_tonumber fp (Str (dec (unat w))) = Some (of_integer fp (uint w))"
    using lua_tonumber_format [of "uint w" fp] fits_uint64(3) by (simp add: format_lld_nat nat_uint_eq)
  from check_integer_exact [OF assms(1) this] fits_uint64(3)
  have "check_integer fp 0 (2 ^ 64 - 1) (Str (dec (unat w))) = Got (uint w)" by simp
  with fits_uint64 show ?thesis by (simp add: check_scalar_def)
next
  case (fits_enum n ns)
  then have "check_integer fp (- (2 ^ 31)) (2 ^ 31 - 1) (Integer n) = Got n"
    by (intro check_integer_exact [OF assms(1)]) auto
  with fits_enum show ?thesis by (simp add: check_scalar_def)
next
  case (fits_int32 w)
  have "check_integer fp (- (2 ^ 31)) (2 ^ 31 - 1) (Integer (sint w)) = Got (sint w)"
    using sint_ge [of w] sint_lt [of w] by (intro check_integer_exact [OF assms(1)]) auto
  with fits_int32 show ?thesis by (simp add: check_scalar_def)
next
  case (fits_uint32 w)
  have "check_integer fp 0 (2 ^ 32 - 1) (Integer (uint w)) = Got (uint w)"
    using uint_bounded [of w] by (intro check_integer_exact [OF assms(1)]) auto
  with fits_uint32 show ?thesis by (simp add: check_scalar_def)
qed (use assms(3) in \<open>auto simp: check_scalar_def lua_tolstring_def lua_toboolean_def\<close>)

section \<open>Tables made by the bindings\<close>

lemma fold_rawset:
  assumes "distinct (map fst kvs)" "(k, v) \<in> set kvs"
  shows "rawget (fold (\<lambda>(k, v) es. rawset es k v) kvs es) k = v"
  using assms
proof (induction kvs arbitrary: es)
  case (Cons x kvs)
  have other: "k \<notin> fst ` set kvs \<Longrightarrow> rawget (fold (\<lambda>(k, v) es. rawset es k v) kvs es) k = rawget es k" for es
    by (induction kvs arbitrary: es) (auto simp: case_prod_unfold)
  show ?case
  proof (cases "x = (k, v)")
    case True
    with Cons.prems(1) other [of "rawset es k v"] show ?thesis by simp
  next
    case False
    with Cons show ?thesis by (auto simp: case_prod_unfold)
  qed
qed simp

lemma array_of_entries:
  assumes "\<forall>v \<in> set vs. v \<noteq> Nil"
  shows "map snd (array_of vs) = vs"
proof -
  have "map snd (fold (\<lambda>(i, v) es. rawset es (Integer (int i + 1)) v) (enumerate k ws) es) = map snd es @ ws"
    if "\<forall>v \<in> set ws. v \<noteq> Nil" "\<forall>i. k \<le> i \<longrightarrow> Integer (int i + 1) \<notin> fst ` set es" for k ws and es :: "('a lval \<times> 'a lval) list"
    using that
  proof (induction ws arbitrary: k es)
    case (Cons w ws)
    have "rawset es (Integer (int k + 1)) w = es @ [(Integer (int k + 1), w)]"
      using Cons.prems by (intro rawset_fresh) auto
    with Cons.IH [of "Suc k" "es @ [(Integer (int k + 1), w)]"] Cons.prems show ?case by auto
  qed simp
  from this [OF assms, of 0 "[]"] show ?thesis by (simp add: array_of_def)
qed

section \<open>Round trip\<close>

lemma those_Some: "those xs = Some ys \<longleftrightarrow> list_all2 (\<lambda>x y. x = Some y) xs ys"
proof (induction xs arbitrary: ys)
  case (Cons x xs)
  then show ?case by (cases ys) (auto split: option.splits)
qed (auto split: option.splits)

lemma those_None: "those xs = None \<longleftrightarrow> None \<in> set xs"
  by (induction xs) (auto split: option.splits)

lemma all2_right: "list_all2 P xs ys \<Longrightarrow> y \<in> set ys \<Longrightarrow> \<exists>x \<in> set xs. P x y"
  by (induction rule: list_all2_induct) auto

lemma map_fst_keyed: "length xs = length ys \<Longrightarrow> map fst (map (\<lambda>(x, y). (f x, y)) (zip xs ys)) = map f xs"
  by (induction xs ys rule: list_induct2) auto

text \<open>What is pushed for a field, and what is read for it.\<close>

definition push_field :: "'d pool \<Rightarrow> nat \<Rightarrow> 'd field \<Rightarrow> 'd pvalue list \<Rightarrow> 'd lval option" where
  "push_field pool fuel fd vs =
     (if fd_label fd = Repeated
      then map_option (\<lambda>ls. Table (array_of ls)) (those (map (push_value pool fuel) vs))
      else push_value pool fuel (get_field pool fd vs))"

definition fill_field :: "'d pool \<Rightarrow> nat \<Rightarrow> 'd field \<Rightarrow> 'd pvalue list \<Rightarrow> 'd pvalue list" where
  "fill_field pool fuel fd vs =
     (if fd_label fd = Repeated then map (fill_value pool fuel) vs else [fill_value pool fuel (get_field pool fd vs)])"

definition read_field :: "'d doubles \<Rightarrow> 'd pool \<Rightarrow> 'd field \<Rightarrow> 'd lval \<Rightarrow> 'd pvalue list reading" where
  "read_field fp pool fd l =
     (if fd_label fd = Repeated
      then (case l of Nil \<Rightarrow> Got [] | Table xs \<Rightarrow> read_elems fp pool (fd_type fd) xs | _ \<Rightarrow> Null)
      else if l = Nil then (if fd_label fd = Required then Null else Got [])
      else rmap (\<lambda>v. [v]) (read_value fp pool (fd_type fd) l))"

lemma push_message_fields:
  "push_message pool (Suc fuel) m =
     map_option (\<lambda>vs. Table (fold (\<lambda>(fd, v) es. rawset es (Str (lowercase_name fd)) v)
                                  (zip (fields_of pool (fst m)) vs) []))
       (those (map (\<lambda>(fd, vs). push_field pool fuel fd vs) (zip (fields_of pool (fst m)) (snd m))))"
  by (simp add: push_field_def)

lemma fill_message_fields:
  "fill_message pool (Suc fuel) m =
     (fst m, map (\<lambda>(fd, vs). fill_field pool fuel fd vs) (zip (fields_of pool (fst m)) (snd m)))"
  by (simp add: fill_field_def)

declare push_message.simps(2) [simp del] fill_message.simps(2) [simp del]

lemma read_fields_Cons:
  "read_fields fp pool es (fd # fds) =
     (case read_field fp pool fd (rawget es (Str (fd_name fd))) of
        Got vs \<Rightarrow> rmap ((#) vs) (read_fields fp pool es fds)
      | Null \<Rightarrow> Null | Raise \<Rightarrow> Raise | Crash e \<Rightarrow> Crash e)"
  by (auto simp: read_field_def rmap_def split: lval.splits reading.splits)

declare read_fields.simps(2) [simp del]

lemma read_fields_all:
  assumes "list_all2 (\<lambda>fd vs. read_field fp pool fd (rawget es (Str (fd_name fd))) = Got vs) fds vss"
  shows "read_fields fp pool es fds = Got vss"
  using assms by (induction rule: list_all2_induct) (simp_all add: read_fields_Cons)

lemma read_elems_all:
  assumes "list_all2 (\<lambda>l v. read_value fp pool ty l = Got v) (map snd xs) vs"
  shows "read_elems fp pool ty xs = Got vs"
  using assms
proof (induction xs arbitrary: vs)
  case (Cons x xs)
  then show ?case by (cases x; cases vs) auto
qed simp

lemma plain_poolD:
  assumes "plain_pool fp pool" "pool ty = Some fds"
  shows "short_name ty = ty" "distinct (map fd_name fds)"
    "fd \<in> set fds \<Longrightarrow> lowercase_name fd = fd_name fd"
    "fd \<in> set fds \<Longrightarrow> fd_type fd = CPPTYPE_MESSAGE t \<Longrightarrow> pool t \<noteq> None"
    "fd \<in> set fds \<Longrightarrow> (\<And>t. fd_type fd \<noteq> CPPTYPE_MESSAGE t) \<Longrightarrow> lua_fits fp pool (fd_type fd) (fd_default fd)"
proof -
  have *: "short_name ty = ty" "distinct (map fd_name fds)"
    "\<forall>fd \<in> set fds. lowercase_name fd = fd_name fd \<and>
        (case fd_type fd of CPPTYPE_MESSAGE t \<Rightarrow> pool t \<noteq> None | t \<Rightarrow> lua_fits fp pool t (fd_default fd))"
    using assms unfolding plain_pool_def by blast+
  then show "short_name ty = ty" "distinct (map fd_name fds)"
    "fd \<in> set fds \<Longrightarrow> lowercase_name fd = fd_name fd" by blast+
  show "pool t \<noteq> None" if "fd \<in> set fds" "fd_type fd = CPPTYPE_MESSAGE t"
    using bspec [OF *(3) that(1)] that(2) by simp
  show "lua_fits fp pool (fd_type fd) (fd_default fd)" if "fd \<in> set fds" "\<And>t. fd_type fd \<noteq> CPPTYPE_MESSAGE t"
  proof (cases "fd_type fd")
    case (CPPTYPE_MESSAGE t)
    with that(2) show ?thesis by blast
  qed (use bspec [OF *(3) that(1)] in simp_all)
qed

text \<open>The default instance of a type fits it.\<close>

lemma default_fits:
  assumes "pool ty = Some fds"
  shows "lua_fits fp pool (CPPTYPE_MESSAGE ty) (PMessage ty (replicate (length fds) []))"
proof (rule fits_message)
  show "pool ty = Some fds" by (rule assms)
qed (simp add: list_all2_conv_all_nth)

lemma get_field_fits:
  assumes "plain_pool fp pool" "pool ty = Some fds" "fd \<in> set fds" "\<forall>v \<in> set vs. lua_fits fp pool (fd_type fd) v"
  shows "lua_fits fp pool (fd_type fd) (get_field pool fd vs)"
proof (cases vs)
  case Nil
  show ?thesis
  proof (cases "\<exists>t. fd_type fd = CPPTYPE_MESSAGE t")
    case True
    then obtain t where t: "fd_type fd = CPPTYPE_MESSAGE t" by blast
    with plain_poolD(4) [OF assms(1-3)] obtain fds' where "pool t = Some fds'" by auto
    with default_fits Nil t show ?thesis by (simp add: get_field_def fields_of_def)
  next
    case False
    with plain_poolD(5) [OF assms(1-3)] have "lua_fits fp pool (fd_type fd) (fd_default fd)" by blast
    moreover have "get_field pool fd vs = fd_default fd"
      using Nil False by (cases "fd_type fd") (simp_all add: get_field_def)
    ultimately show ?thesis by simp
  qed
qed (use assms(4) in \<open>simp add: get_field_def\<close>)

text \<open>
  The statement for one depth of the recursion: what is pushed for a value is not nil and is read
  as the value with its fields filled.
\<close>

definition survives :: "'d doubles \<Rightarrow> 'd pool \<Rightarrow> nat \<Rightarrow> bool" where
  "survives fp pool fuel \<longleftrightarrow> (\<forall>ty v l. lua_fits fp pool ty v \<longrightarrow> push_value pool fuel v = Some l \<longrightarrow>
     l \<noteq> Nil \<and> read_value fp pool ty l = Got (fill_value pool fuel v))"

lemma field_survives:
  assumes "survives fp pool fuel" "plain_pool fp pool" "pool ty = Some fds" "fd \<in> set fds"
    and "\<forall>v \<in> set vs. lua_fits fp pool (fd_type fd) v" "push_field pool fuel fd vs = Some l"
  shows "read_field fp pool fd l = Got (fill_field pool fuel fd vs)"
proof (cases "fd_label fd = Repeated")
  case True
  with assms(6) obtain ls where ls: "those (map (push_value pool fuel) vs) = Some ls" "l = Table (array_of ls)"
    by (auto simp: push_field_def)
  from ls(1) have all: "list_all2 (\<lambda>v l. push_value pool fuel v = Some l) vs ls"
    by (simp add: those_Some list.rel_map)
  have one: "v \<in> set vs \<Longrightarrow> push_value pool fuel v = Some l \<Longrightarrow>
      l \<noteq> Nil \<and> read_value fp pool (fd_type fd) l = Got (fill_value pool fuel v)" for v l
    using assms(1,5) unfolding survives_def by blast
  have "\<forall>l \<in> set ls. l \<noteq> Nil"
  proof
    fix l assume "l \<in> set ls"
    from all2_right [OF all this] obtain v where "v \<in> set vs" "push_value pool fuel v = Some l" by blast
    with one show "l \<noteq> Nil" by blast
  qed
  then have "map snd (array_of ls) = ls" by (rule array_of_entries)
  moreover from all one have "list_all2 (\<lambda>l v. read_value fp pool (fd_type fd) l = Got v) ls (map (fill_value pool fuel) vs)"
    by (auto simp: list_all2_conv_all_nth)
  ultimately have "read_elems fp pool (fd_type fd) (array_of ls) = Got (map (fill_value pool fuel) vs)"
    by (intro read_elems_all) simp
  with True ls(2) show ?thesis by (simp add: read_field_def fill_field_def)
next
  case False
  with assms(6) have "push_value pool fuel (get_field pool fd vs) = Some l" by (simp add: push_field_def)
  with assms(1) get_field_fits [OF assms(2-5)]
  have "l \<noteq> Nil \<and> read_value fp pool (fd_type fd) l = Got (fill_value pool fuel (get_field pool fd vs))"
    by (simp add: survives_def)
  with False show ?thesis by (simp add: read_field_def fill_field_def)
qed

lemma message_survives:
  assumes "survives fp pool fuel" "plain_pool fp pool"
    and "lua_fits fp pool (CPPTYPE_MESSAGE ty) (PMessage ty vss)" "push_message pool (Suc fuel) (ty, vss) = Some t"
  shows "\<exists>es. t = Table es" "read_message fp pool t ty = Got (fill_message pool (Suc fuel) (ty, vss))"
proof -
  from assms(3) obtain fds where fds: "pool ty = Some fds"
    "list_all2 (\<lambda>fd vs. (fd_label fd \<noteq> Repeated \<longrightarrow> length vs \<le> 1) \<and> (\<forall>v \<in> set vs. lua_fits fp pool (fd_type fd) v)) fds vss"
    by (auto elim: fits_messageE)
  have f: "fields_of pool ty = fds" by (simp add: fields_of_def fds(1))
  have len: "length vss = length fds" using fds(2) by (simp add: list_all2_lengthD)
  from assms(4) obtain ls where ls: "those (map (\<lambda>(fd, vs). push_field pool fuel fd vs) (zip fds vss)) = Some ls"
    and t: "t = Table (fold (\<lambda>(fd, v) es. rawset es (Str (lowercase_name fd)) v) (zip fds ls) [])"
    by (auto simp: push_message_fields f)
  let ?kvs = "map (\<lambda>(fd, v). (Str (fd_name fd), v)) (zip fds ls)"
  let ?es = "fold (\<lambda>(k, v) es. rawset es k v) ?kvs []"
  have nth: "length ls = length fds" "\<And>i. i < length fds \<Longrightarrow> push_field pool fuel (fds ! i) (vss ! i) = Some (ls ! i)"
    using ls len by (auto simp: those_Some list_all2_conv_all_nth)
  have "fold (\<lambda>(fd, v) es. rawset es (Str (lowercase_name fd)) v) (zip fds ls) [] =
      fold (\<lambda>(fd, v) es. rawset es (Str (fd_name fd)) v) (zip fds ls) []"
    by (rule fold_cong) (use plain_poolD(3) [OF assms(2) fds(1)] in \<open>auto dest: set_zip_leftD\<close>)
  also have "\<dots> = ?es" by (simp add: fold_map case_prod_unfold o_def)
  finally have t: "t = Table ?es" using t by simp
  then show "\<exists>es. t = Table es" by blast
  have keys: "map fst ?kvs = map (\<lambda>fd. Str (fd_name fd)) fds" by (rule map_fst_keyed) (rule nth(1) [symmetric])
  have dist: "distinct (map fst ?kvs)"
    unfolding keys using plain_poolD(2) [OF assms(2) fds(1)] by (simp add: distinct_map inj_on_def)
  have get: "rawget ?es (Str (fd_name (fds ! i))) = ls ! i" if "i < length fds" for i
  proof (rule fold_rawset [OF dist])
    have "(fds ! i, ls ! i) \<in> set (zip fds ls)" using that nth(1) by (auto simp: set_zip)
    then show "(Str (fd_name (fds ! i)), ls ! i) \<in> set ?kvs" by force
  qed
  have "list_all2 (\<lambda>fd vs. read_field fp pool fd (rawget ?es (Str (fd_name fd))) = Got vs) fds
      (map (\<lambda>(fd, vs). fill_field pool fuel fd vs) (zip fds vss))"
    unfolding list_all2_conv_all_nth
  proof (intro conjI allI impI)
    fix i assume i: "i < length fds"
    have "\<forall>v \<in> set (vss ! i). lua_fits fp pool (fd_type (fds ! i)) v"
      using fds(2) i by (simp add: list_all2_conv_all_nth)
    from field_survives [OF assms(1,2) fds(1) nth_mem [OF i] this nth(2) [OF i]] i len
    show "read_field fp pool (fds ! i) (rawget ?es (Str (fd_name (fds ! i)))) =
        Got (map (\<lambda>(fd, vs). fill_field pool fuel fd vs) (zip fds vss) ! i)" by (simp add: get)
  qed (simp add: len)
  from read_fields_all [OF this] show "read_message fp pool t ty = Got (fill_message pool (Suc fuel) (ty, vss))"
    by (simp add: t fds(1) fill_message_fields f)
qed

lemma all_survive:
  assumes "ieee fp" "plain_pool fp pool"
  shows "survives fp pool fuel"
proof (induction fuel)
  have scalar: "l \<noteq> Nil \<and> read_value fp pool ty l = Got (fill_value pool fuel v)"
    if "lua_fits fp pool ty v" "push_value pool fuel v = Some l" "\<And>t. ty \<noteq> CPPTYPE_MESSAGE t" for fuel ty v l
  proof -
    have "read_value fp pool ty l = check_scalar fp ty l"
    proof (cases ty)
      case (CPPTYPE_MESSAGE t)
      with that(3) show ?thesis by blast
    qed simp_all
    moreover have "fill_value pool fuel v = v"
      using that(1)
    proof cases
      case (fits_message t fds vss)
      with that(3) show ?thesis by blast
    qed simp_all
    ultimately show ?thesis using scalar_survives [OF assms(1) that(1,3), of fuel] that(2) by auto
  qed
  case 0
  show ?case
    unfolding survives_def
  proof (intro allI impI)
    fix ty v l assume v: "lua_fits fp pool ty v" "push_value pool 0 v = Some l"
    then have "ty \<noteq> CPPTYPE_MESSAGE t" for t by (auto elim: fits_messageE)
    from scalar [OF v this] show "l \<noteq> Nil \<and> read_value fp pool ty l = Got (fill_value pool 0 v)" .
  qed
  case (Suc fuel)
  show ?case
    unfolding survives_def
  proof (intro allI impI)
    fix ty v l assume v: "lua_fits fp pool ty v" "push_value pool (Suc fuel) v = Some l"
    show "l \<noteq> Nil \<and> read_value fp pool ty l = Got (fill_value pool (Suc fuel) v)"
    proof (cases "\<exists>t. ty = CPPTYPE_MESSAGE t")
      case True
      then obtain t where t: "ty = CPPTYPE_MESSAGE t" by blast
      with v(1) obtain vss fds where vss: "v = PMessage t vss" "pool t = Some fds" by (auto elim: fits_messageE)
      with message_survives [OF Suc assms(2)] v t
      have m: "\<exists>es. l = Table es" "read_message fp pool l t = Got (fill_message pool (Suc fuel) (t, vss))" by auto
      moreover have "fst (fill_message pool (Suc fuel) (t, vss)) = t" by (simp add: fill_message_fields)
      moreover have "short_name t = t" using plain_poolD(1) [OF assms(2) vss(2)] .
      ultimately show ?thesis using t vss(1) by (auto split: prod.splits)
    next
      case False
      with scalar [OF v] show ?thesis by blast
    qed
  qed
qed

text \<open>The recursion ends where no type contains itself.\<close>

lemma rankedD:
  "ranked rk pool \<Longrightarrow> pool ty = Some fds \<Longrightarrow> fd \<in> set fds \<Longrightarrow> fd_type fd = CPPTYPE_MESSAGE t \<Longrightarrow> rk t < rk ty"
  unfolding ranked_def by fastforce

lemma fits_shape:
  "lua_fits fp pool ty v \<Longrightarrow> (\<exists>t vss fds. ty = CPPTYPE_MESSAGE t \<and> v = PMessage t vss \<and> pool t = Some fds) \<or>
     (\<forall>fuel. push_value pool fuel v \<noteq> None)"
  by (induction rule: lua_fits.induct) auto

lemma push_ends:
  assumes "plain_pool fp pool" "ranked rk pool"
  shows "lua_fits fp pool (CPPTYPE_MESSAGE ty) (PMessage ty vss) \<Longrightarrow> rk ty < fuel \<Longrightarrow> push_message pool fuel (ty, vss) \<noteq> None"
proof (induction fuel arbitrary: ty vss)
  case (Suc fuel)
  from Suc.prems(1) obtain fds where fds: "pool ty = Some fds"
    "list_all2 (\<lambda>fd vs. (fd_label fd \<noteq> Repeated \<longrightarrow> length vs \<le> 1) \<and> (\<forall>v \<in> set vs. lua_fits fp pool (fd_type fd) v)) fds vss"
    by (auto elim: fits_messageE)
  have pushed: "push_value pool fuel v \<noteq> None" if "fd \<in> set fds" "lua_fits fp pool (fd_type fd) v" for fd v
  proof (cases "\<exists>t. fd_type fd = CPPTYPE_MESSAGE t")
    case True
    then obtain t where t: "fd_type fd = CPPTYPE_MESSAGE t" by blast
    with that(2) obtain vss where "v = PMessage t vss" by (auto elim: fits_messageE)
    with Suc.IH [of t vss] that(2) t rankedD [OF assms(2) fds(1) that(1) t] Suc.prems(2) show ?thesis by simp
  next
    case False
    with fits_shape [OF that(2)] show ?thesis by blast
  qed
  have "push_field pool fuel fd vs \<noteq> None" if "(fd, vs) \<in> set (zip fds vss)" for fd vs
  proof -
    have fd: "fd \<in> set fds" "\<forall>v \<in> set vs. lua_fits fp pool (fd_type fd) v"
      using that fds(2) by (auto simp: list_all2_iff dest: set_zip_leftD)
    have "None \<notin> set (map (push_value pool fuel) vs)" using pushed [OF fd(1)] fd(2) by force
    then have "those (map (push_value pool fuel) vs) \<noteq> None" by (simp only: those_None not_False_eq_True)
    moreover have "push_value pool fuel (get_field pool fd vs) \<noteq> None"
      using pushed [OF fd(1)] get_field_fits [OF assms(1) fds(1) fd] by blast
    ultimately show ?thesis by (simp add: push_field_def)
  qed
  then have "None \<notin> set (map (\<lambda>(fd, vs). push_field pool fuel fd vs) (zip fds vss))" by force
  then have "those (map (\<lambda>(fd, vs). push_field pool fuel fd vs) (zip fds vss)) \<noteq> None"
    by (simp only: those_None not_False_eq_True)
  then show ?case by (simp add: push_message_fields fields_of_def fds(1))
qed simp

lemma map_zip_again:
  "map (\<lambda>(x, y). f x y) (zip xs (map (\<lambda>(x, y). g x y) (zip xs ys))) = map (\<lambda>(x, y). f x (g x y)) (zip xs ys)"
  by (induction xs arbitrary: ys) (auto split: list.splits simp: zip_Cons1)

text \<open>A filled message is pushed as the message was.\<close>

lemma push_fill_field:
  assumes "\<And>v. push_value pool fuel (fill_value pool fuel v) = push_value pool fuel v"
  shows "push_field pool fuel fd (fill_field pool fuel fd vs) = push_field pool fuel fd vs"
  using assms by (simp add: push_field_def fill_field_def get_field_def o_def)

lemma push_fill:
  "push_value pool fuel (fill_value pool fuel v) = push_value pool fuel v"
  "push_message pool fuel (fill_message pool fuel m) = push_message pool fuel m"
proof -
  have step: "push_message pool fuel (fill_message pool fuel m) = push_message pool fuel m \<Longrightarrow>
      push_value pool fuel (fill_value pool fuel v) = push_value pool fuel v" if "v = PMessage (fst m) (snd m)" for fuel v and m :: "'a message"
  proof -
    assume "push_message pool fuel (fill_message pool fuel m) = push_message pool fuel m"
    moreover have "fst (fill_message pool fuel m) = fst m" by (cases fuel) (simp_all add: fill_message_fields)
    then have "(fst m, snd (fill_message pool fuel m)) = fill_message pool fuel m" by (metis prod.collapse)
    ultimately show ?thesis using that by simp
  qed
  show m: "push_message pool fuel (fill_message pool fuel m) = push_message pool fuel m" for m
  proof (induction fuel arbitrary: m)
    case (Suc fuel)
    have v: "push_value pool fuel (fill_value pool fuel v) = push_value pool fuel v" for v
    proof (cases v)
      case (PMessage ty vss)
      with step [of v "(ty, vss)"] Suc show ?thesis by simp
    qed simp_all
    show ?case
      by (simp add: push_message_fields fill_message_fields map_zip_again push_fill_field [OF v])
  qed simp
  show "push_value pool fuel (fill_value pool fuel v) = push_value pool fuel v"
  proof (cases v)
    case (PMessage ty vss)
    with step [of v "(ty, vss)"] m show ?thesis by simp
  qed simp_all
qed

end
