(* ===== verification/Lua_Service.thy ===== *)
theory Lua_Service
  imports Lua_Message Netbus
begin

text \<open>
  Services and clients of the server written in Lua: \<open>lua_wrapper/service_export_to_lua.cc\<close> (the
  class \<open>lua_service\<close>, whose methods call functions of a script, and their registration),
  \<open>session_export_to_lua.cc\<close> (what a script can do with a session) and the bindings of
  \<open>proto_man_export_to_lua.cc\<close>.

  A C function called by a script is a function of its arguments and the node;
  \<open>Inr (Some vs, n)\<close> returns the values \<open>vs\<close>, \<open>Inr (None, n)\<close> raises a Lua error. A light
  userdata is the number of a session. What a function of a script does is a parameter: a
  \<open>svc_prog\<close> over the operations on sessions, as for every other service.
\<close>

section \<open>Arguments\<close>

type_synonym ('d, 'n) binding = "'d lval list \<Rightarrow> 'n \<Rightarrow> ('d lval list option \<times> 'n) result"

text \<open>The value at a stack index, where the arguments are the whole stack.\<close>

definition stack_at :: "'d lval list \<Rightarrow> nat \<Rightarrow> 'd lval option" where
  "stack_at args i = (if 1 \<le> i \<and> i \<le> length args then Some (args ! (i - 1)) else None)"

lemma stack_at_simps [simp]:
  "stack_at (x # xs) (Suc 0) = Some x" "stack_at (x # y # xs) 2 = Some y" "stack_at (x # y # z # xs) 3 = Some z"
  by (simp_all add: stack_at_def)

text \<open>
  \<open>tolua_touserdata\<close>; \<open>None\<close> is the null pointer. A table that holds an object in
  \<open>.c_instance\<close> is followed once too often when that is a light userdata.
\<close>

definition tolua_touserdata :: "'d lval list \<Rightarrow> nat \<Rightarrow> nat option result" where
  "tolua_touserdata args i =
     (case stack_at args i of
        Some (LightUserdata p) \<Rightarrow> Inr (Some p)
      | Some (Table es) \<Rightarrow> (case rawget es (Str ''.c_instance'') of LightUserdata p \<Rightarrow> Inl UseUninit | _ \<Rightarrow> Inr None)
      | _ \<Rightarrow> Inr None)"

text \<open>\<open>lua_tointeger\<close>: 0 where the value is not convertible.\<close>

definition tointeger_at :: "'d doubles \<Rightarrow> 'd lval list \<Rightarrow> nat \<Rightarrow> int" where
  "tointeger_at fp args i =
     (case stack_at args i of
        None \<Rightarrow> 0
      | Some v \<Rightarrow> (case lua_tointeger fp v of None \<Rightarrow> 0 | Some k \<Rightarrow> k))"

text \<open>\<open>(int)tolua_tonumber(L, i, 0)\<close>; the conversion of a double that is no \<open>int\<close> is not defined.\<close>

definition tolua_toint :: "'d doubles \<Rightarrow> 'd lval list \<Rightarrow> nat \<Rightarrow> int result" where
  "tolua_toint fp args i =
     (case stack_at args i of
        None \<Rightarrow> Inr 0
      | Some v \<Rightarrow> (case lua_tonumber fp v of
            None \<Rightarrow> Inr 0
          | Some d \<Rightarrow> (case trunc_int fp d of
                None \<Rightarrow> Inl OutOfBounds
              | Some k \<Rightarrow> if - (2 ^ 31) \<le> k \<and> k < 2 ^ 31 then Inr k else Inl OutOfBounds)))"

text \<open>A \<open>lua_Integer\<close> converted to \<open>int\<close>, and a C string made a Lua string and back.\<close>

definition to_int :: "int \<Rightarrow> int" where
  "to_int k = sint (word_of_int k :: u32)"

definition lua_of_cstr :: "byte list \<Rightarrow> string" where
  "lua_of_cstr bs = map char_of_byte (takeWhile (\<lambda>b. b \<noteq> 0) bs)"

definition cstr_of_lua :: "string \<Rightarrow> byte list" where
  "cstr_of_lua s = map byte_of_char s @ [0]"

section \<open>Commands as tables\<close>

text \<open>The value a script is given for a body.\<close>

definition body_lval :: "'d pool \<Rightarrow> nat \<Rightarrow> int \<Rightarrow> 'd message cmd_body option \<Rightarrow> 'd lval result" where
  "body_lval pool fuel proto_type bd =
     (case bd of
        None \<Rightarrow> Inr Nil
      | Some (JsonBody text) \<Rightarrow>
          if proto_type = PROTO_JSON then Inr (Str (lua_of_cstr text)) else Inl UseUninit
      | Some (PbBody m) \<Rightarrow>
          if proto_type = PROTO_JSON then Inl UseUninit
          else (case push_message pool fuel m of None \<Rightarrow> Inl StackOverflow | Some t \<Rightarrow> Inr t))"

text \<open>
  The table \<open>{1: stype, 2: ctype, 3: utag, 4: body}\<close> of \<open>lua_service::on_session_recv_cmd\<close>.
\<close>

definition cmd_table :: "'d pool \<Rightarrow> nat \<Rightarrow> int \<Rightarrow> 'd message cmd_msg \<Rightarrow> 'd lval result" where
  "cmd_table pool fuel proto_type msg =
     rbind (body_lval pool fuel proto_type (body msg))
       (\<lambda>b. Inr (Table (rawset (rawset (rawset (rawset []
              (Integer 1) (Integer (stype msg)))
              (Integer 2) (Integer (ctype msg)))
              (Integer 3) (Integer (uint (utag msg))))
              (Integer 4) b)))"

text \<open>The body a script gives, as \<open>lua_send_msg\<close> reads it; the lookup of the name may add one.\<close>

definition read_cmd_body ::
  "'d doubles \<Rightarrow> 'd pool \<Rightarrow> int \<Rightarrow> 'd lval \<Rightarrow> proto_state \<Rightarrow> 'd message cmd_body option reading \<times> proto_state" where
  "read_cmd_body fp pool ct v ps =
     (if g_proto_type ps = PROTO_JSON
      then (Got (map_option (\<lambda>s. JsonBody (cstr_of_lua s)) (lua_tolstring fp v)), ps)
      else (case v of
              Table es \<Rightarrow>
                (let (msg_name, ps) = protobuf_cmd_name ct ps in
                 (case read_message fp pool v msg_name of
                    Got m \<Rightarrow> Got (Some (PbBody m))
                  | Null \<Rightarrow> Got None
                  | Raise \<Rightarrow> Raise
                  | Crash e \<Rightarrow> Crash e, ps))
            | _ \<Rightarrow> (Got None, ps)))"

text \<open>The command a table stands for; \<open>Null\<close> where the binding returns without sending.\<close>

definition read_cmd ::
  "'d doubles \<Rightarrow> 'd pool \<Rightarrow> ('d lval \<times> 'd lval) list \<Rightarrow> proto_state \<Rightarrow> 'd message cmd_msg reading \<times> proto_state" where
  "read_cmd fp pool es ps =
     (let n = luaL_len fp es in
      if n \<noteq> 4 \<and> n \<noteq> 3 then (Null, ps)
      else (case (lua_tointeger fp (rawget es (Integer 1)), lua_tointeger fp (rawget es (Integer 2)),
                  lua_tointeger fp (rawget es (Integer 3))) of
              (Some st, Some ct, Some ut) \<Rightarrow>
                (let msg = \<lparr>stype = to_int st, ctype = to_int ct, utag = word_of_int ut, body = None\<rparr> in
                 if n = 3 then (Got msg, ps)
                 else (let (r, ps) = read_cmd_body fp pool (ctype msg) (rawget es (Integer 4)) ps
                       in (rmap (\<lambda>b. msg\<lparr>body := b\<rparr>) r, ps)))
            | _ \<Rightarrow> (Raise, ps)))"

text \<open>What the two bindings do with it.\<close>

definition send_table ::
  "'d doubles \<Rightarrow> 'd pool \<Rightarrow> ('d message cmd_msg \<Rightarrow> ('a, 'd message) node \<Rightarrow> ('a, 'd message) node result)
    \<Rightarrow> 'd lval option \<Rightarrow> ('a, 'd message) node \<Rightarrow> ('d lval list option \<times> ('a, 'd message) node) result" where
  "send_table fp pool send v n =
     (case v of
        Some (Table es) \<Rightarrow>
          (let (r, ps) = read_cmd fp pool es (protos n); n = n\<lparr>protos := ps\<rparr> in
           case r of
             Got msg \<Rightarrow> map_result (\<lambda>n. (Some [], n)) (send msg n)
           | Null \<Rightarrow> Inr (Some [], n)
           | Raise \<Rightarrow> Inr (None, n)
           | Crash e \<Rightarrow> Inl e)
      | _ \<Rightarrow> Inr (Some [], n))"

section \<open>Sessions in scripts\<close>

text \<open>The bindings begin with the session, and do nothing without one.\<close>

definition with_userdata ::
  "'d lval list \<Rightarrow> nat \<Rightarrow> (nat \<Rightarrow> 'n \<Rightarrow> ('d lval list option \<times> 'n) result) \<Rightarrow> 'n
    \<Rightarrow> ('d lval list option \<times> 'n) result" where
  "with_userdata args i f n =
     (case tolua_touserdata args i of
        Inl e \<Rightarrow> Inl e
      | Inr None \<Rightarrow> Inr (Some [], n)
      | Inr (Some s) \<Rightarrow> f s n)"

definition lua_send_msg ::
  "'d message env \<Rightarrow> 'd doubles \<Rightarrow> 'd pool \<Rightarrow> ('d, ('a, 'd message) node) binding" where
  "lua_send_msg E fp pool args =
     with_userdata args 1 (\<lambda>s. send_table fp pool (send_msg E s) (stack_at args 2))"

definition lua_session_close ::
  "(sid \<Rightarrow> ('a, 'm) node \<Rightarrow> ('a, 'm) node result) \<Rightarrow> ('d, ('a, 'm) node) binding" where
  "lua_session_close cl args =
     with_userdata args 1 (\<lambda>s n. map_result (\<lambda>n. (Some [], n)) (cl s n))"

text \<open>\<open>lua_send_raw_cmd\<close>; \<open>raw_at\<close> is the command a light userdata points at.\<close>

definition lua_send_raw_cmd :: "(nat \<Rightarrow> raw_cmd) \<Rightarrow> ('d, ('a, 'm) node) binding" where
  "lua_send_raw_cmd raw_at args =
     with_userdata args 1 (\<lambda>s. with_userdata args 2 (\<lambda>p n.
       map_result (\<lambda>n. (Some [], n)) (send_raw_cmd s (raw_at p) n)))"

definition lua_set_utag :: "'d doubles \<Rightarrow> ('d, ('a, 'm) node) binding" where
  "lua_set_utag fp args =
     with_userdata args 1 (\<lambda>s n. map_result (\<lambda>n. (Some [], n))
       (update_session s (set_utag (word_of_int (tointeger_at fp args 2))) n))"

definition lua_set_uid :: "'d doubles \<Rightarrow> ('d, ('a, 'm) node) binding" where
  "lua_set_uid fp args =
     with_userdata args 1 (\<lambda>s n. map_result (\<lambda>n. (Some [], n))
       (update_session s (set_uid (word_of_int (tointeger_at fp args 2))) n))"

text \<open>The getters read a field of the object.\<close>

definition ask_session :: "(base_session \<Rightarrow> 'd lval list) \<Rightarrow> ('d, ('a, 'm) node) binding" where
  "ask_session f args =
     with_userdata args 1 (\<lambda>s n. case sessions n s of
       None \<Rightarrow> Inl UseAfterFree
     | Some ses \<Rightarrow> Inr (Some (f (base_of ses)), n))"

definition lua_get_utag :: "('d, ('a, 'm) node) binding" where
  "lua_get_utag = ask_session (\<lambda>b. [Integer (uint (session_utag b))])"

definition lua_get_uid :: "('d, ('a, 'm) node) binding" where
  "lua_get_uid = ask_session (\<lambda>b. [Integer (uint (uid b))])"

definition lua_as_client :: "('d, ('a, 'm) node) binding" where
  "lua_as_client = ask_session (\<lambda>b. [Integer (uint (as_client b))])"

definition lua_get_addr :: "('d, ('a, 'm) node) binding" where
  "lua_get_addr = ask_session (\<lambda>b. [Str (c_address b), Integer (c_port b)])"

text \<open>\<open>lua_udp_send_msg\<close>: the address and the port before the table.\<close>

definition udp_send_msg ::
  "'m env \<Rightarrow> bool \<Rightarrow> string \<Rightarrow> int \<Rightarrow> 'm cmd_msg \<Rightarrow> ('a, 'm) node \<Rightarrow> ('a, 'm) node result" where
  "udp_send_msg E udp_handler ip port msg n =
     (case encode_msg_to_raw (pb E) (wbuf E) (protos n) msg of
        Inl e \<Rightarrow> Inl e
      | Inr None \<Rightarrow> Inr n
      | Inr (Some (encode_pkg, encode_len)) \<Rightarrow> udp_send_to udp_handler ip port (take encode_len encode_pkg) n)"

definition lua_udp_send_msg ::
  "'d message env \<Rightarrow> bool \<Rightarrow> 'd doubles \<Rightarrow> 'd pool \<Rightarrow> ('d, ('a, 'd message) node) binding" where
  "lua_udp_send_msg E udp_handler fp pool args n =
     (case Option.bind (stack_at args 1) (lua_tolstring fp) of
        None \<Rightarrow> Inr (Some [], n)
      | Some ip \<Rightarrow>
          (case tolua_toint fp args 2 of
             Inl e \<Rightarrow> Inl e
           | Inr port \<Rightarrow>
               if port = 0 then Inr (Some [], n)
               else send_table fp pool (udp_send_msg E udp_handler ip port) (stack_at args 3) n))"

section \<open>Raw commands in scripts\<close>

text \<open>The bindings take the raw command alone; \<open>raw_at\<close> is what its pointer points at.\<close>

definition with_raw ::
  "(nat \<Rightarrow> raw_cmd) \<Rightarrow> 'd lval list \<Rightarrow> (nat \<Rightarrow> raw_cmd \<Rightarrow> 'n \<Rightarrow> ('d lval list option \<times> 'n) result) \<Rightarrow> 'n
    \<Rightarrow> ('d lval list option \<times> 'n) result" where
  "with_raw raw_at args f n =
     (if length args \<noteq> 1 then Inr (Some [], n) else with_userdata args 1 (\<lambda>p. f p (raw_at p)) n)"

definition lua_raw_read_header :: "(nat \<Rightarrow> raw_cmd) \<Rightarrow> ('d, ('a, 'm) node) binding" where
  "lua_raw_read_header raw_at args =
     with_raw raw_at args (\<lambda>p raw n.
       Inr (Some [Integer (raw_stype raw), Integer (raw_ctype raw), Integer (uint (raw_utag raw))], n))"

text \<open>
  \<open>lua_raw_read_body\<close> returns the top of the stack, which is its own argument where the command
  cannot be decoded.
\<close>

definition lua_raw_read_body ::
  "'d message env \<Rightarrow> 'd pool \<Rightarrow> nat \<Rightarrow> (nat \<Rightarrow> raw_cmd) \<Rightarrow> ('d, ('a, 'd message) node) binding" where
  "lua_raw_read_body E pool fuel raw_at args =
     with_raw raw_at args (\<lambda>p raw n.
       case decode_cmd_msg (pb E) (raw_data raw) (raw_len raw) (protos n) of
         (None, ps) \<Rightarrow> Inr (Some [LightUserdata p], n\<lparr>protos := ps\<rparr>)
       | (Some msg, ps) \<Rightarrow>
           map_result (\<lambda>b. (Some [b], n\<lparr>protos := ps\<rparr>)) (body_lval pool fuel (g_proto_type ps) (body msg)))"

text \<open>What \<open>lua_raw_set_utag\<close> does to the command its argument points at: the field, and the four
  bytes of the memory the command was decoded from.\<close>

definition lua_raw_set_utag :: "int \<Rightarrow> raw_cmd \<Rightarrow> raw_cmd" where
  "lua_raw_set_utag v raw =
     (let w = word_of_int v :: u32 in
      raw\<lparr>raw_utag := w,
          raw_data := (raw_data raw)
            [4 := ucast (w AND 0x000000FF), 5 := ucast (drop_bit 8 (w AND 0x0000FF00)),
             6 := ucast (drop_bit 16 (w AND 0x00FF0000)), 7 := ucast (drop_bit 24 (w AND 0xFF000000))]\<rparr>)"

section \<open>Setting up the protocol\<close>

definition lua_proto_type :: "('d, ('a, 'm) node) binding" where
  "lua_proto_type args n = Inr (Some [Integer (g_proto_type (protos n))], n)"

definition lua_proto_man_init :: "'d doubles \<Rightarrow> ('d, ('a, 'm) node) binding" where
  "lua_proto_man_init fp args n =
     (let proto_type = to_int (tointeger_at fp args 1) in
      if length args \<noteq> 1 \<or> proto_type \<noteq> PROTO_JSON \<and> proto_type \<noteq> PROTO_BUF then Inr (Some [], n)
      else Inr (Some [], n\<lparr>protos := proto_man_init proto_type (protos n)\<rparr>))"

text \<open>The names of the commands, from 1; each ends at its first zero.\<close>

definition lua_register_protobuf_cmd_map :: "'d doubles \<Rightarrow> ('d, ('a, 'm) node) binding" where
  "lua_register_protobuf_cmd_map fp args n =
     (case stack_at args 1 of
        Some (Table es) \<Rightarrow>
          (case those (map (\<lambda>i. map_option (\<lambda>s. (int i, takeWhile (\<lambda>c. c \<noteq> CHR 0x00) s))
                                  (lua_tolstring fp (rawget es (Integer (int i))))) [1..<luaL_len fp es + 1]) of
             None \<Rightarrow> Inr (None, n)
           | Some cmd_map \<Rightarrow> Inr (Some [], n\<lparr>protos := register_protobuf_cmd_map cmd_map (protos n)\<rparr>))
      | Some (Str []) \<Rightarrow> Inr (Some [], n)
      | _ \<Rightarrow> Inr (None, n))"

section \<open>Services in Lua\<close>

text \<open>
  The functions of a script that C++ holds: \<open>s_function_ref_id\<close> and the table of the registry
  that maps the numbers to functions. They live in the services' memory, with the script's own.
\<close>

record ('d, 's) lua_app =
  s_function_ref_id :: u32
  service_function_mapping :: "int \<Rightarrow> 'd lval"
  script_state :: 's

text \<open>
  What calling a function of the script does, for the methods that are given values and for the
  one that is given the pointer of a raw command. A Lua error ends the function and is logged.
\<close>

record ('d, 's) script =
  call :: "nat \<Rightarrow> 'd lval list \<Rightarrow> (('d, 's) lua_app, 'd message) svc_prog"
  call_raw :: "nat \<Rightarrow> sid \<Rightarrow> raw_cmd \<Rightarrow> (('d, 's) lua_app, 'd message) svc_prog"

definition save_service_function :: "'d lval option \<Rightarrow> ('d, 's) lua_app \<Rightarrow> u32 \<times> ('d, 's) lua_app" where
  "save_service_function v a =
     (case v of
        Some (Function f) \<Rightarrow>
          (let refid = s_function_ref_id a + 1 in
           (refid, a\<lparr>s_function_ref_id := refid,
                     service_function_mapping := (service_function_mapping a)(uint refid := Function f)\<rparr>))
      | _ \<Rightarrow> (0, a))"

text \<open>\<open>execute_service_function\<close>; the number is looked up as an \<open>int\<close>.\<close>

definition execute_service_function ::
  "(nat \<Rightarrow> (('d, 's) lua_app, 'm) svc_prog) \<Rightarrow> u32 \<Rightarrow> (('d, 's) lua_app, 'm) svc_prog" where
  "execute_service_function f_call nHandler =
     GetApp (\<lambda>a. case service_function_mapping a (sint nHandler) of
                   Function f \<Rightarrow> f_call f
                 | _ \<Rightarrow> svc_prog.Ret False)"

text \<open>What a method returns after the call.\<close>

primrec returning :: "bool \<Rightarrow> ('a, 'm) svc_prog \<Rightarrow> ('a, 'm) svc_prog" where
  "returning b (svc_prog.Ret b') = svc_prog.Ret b"
| "returning b (GetApp k) = GetApp (\<lambda>a. returning b (k a))"
| "returning b (PutApp a p) = PutApp a (returning b p)"
| "returning b (AskSession i k) = AskSession i (\<lambda>s. returning b (k s))"
| "returning b (AskProtos k) = AskProtos (\<lambda>ps. returning b (k ps))"
| "returning b (Fault e) = Fault e"
| "returning b (Do a p) = Do a (returning b p)"

record lua_service =
  is_raw :: bool
  lua_recv_cmd_handler :: u32
  lua_disconnect_handler :: u32
  lua_recv_raw_handler :: u32
  lua_connect_handler :: u32

definition lua_service_methods ::
  "('d, 's) script \<Rightarrow> 'd pool \<Rightarrow> nat \<Rightarrow> lua_service \<Rightarrow> (('d, 's) lua_app, 'd message) service" where
  "lua_service_methods S pool fuel ls =
     \<lparr>using_raw_cmd = is_raw ls,
      on_session_recv_cmd = (\<lambda>s msg. AskProtos (\<lambda>ps.
        case cmd_table pool fuel (g_proto_type ps) msg of
          Inl e \<Rightarrow> Fault e
        | Inr t \<Rightarrow> returning True
            (execute_service_function (\<lambda>f. call S f [LightUserdata s, t]) (lua_recv_cmd_handler ls)))),
      on_session_recv_raw_cmd = (\<lambda>s raw. returning True
        (execute_service_function (\<lambda>f. call_raw S f s raw) (lua_recv_raw_handler ls))),
      on_session_disconnect = (\<lambda>s st.
        execute_service_function (\<lambda>f. call S f [LightUserdata s, Integer st]) (lua_disconnect_handler ls)),
      on_session_connect = (\<lambda>s st.
        if lua_connect_handler ls = 0 then svc_prog.Ret True
        else execute_service_function (\<lambda>f. call S f [LightUserdata s, Integer st]) (lua_connect_handler ls))\<rparr>"

text \<open>
  \<open>lua_register_service\<close> and \<open>lua_register_raw_service\<close>: the three fields of the table are
  pushed behind the arguments, and the functions read from the stack at 3, 4 and 5.
\<close>

definition lua_register ::
  "bool \<Rightarrow> ('d, 's) script \<Rightarrow> 'd doubles \<Rightarrow> 'd pool \<Rightarrow> nat
    \<Rightarrow> ('d, (('d, 's) lua_app, 'd message) node) binding" where
  "lua_register raw S fp pool fuel args n =
     (case tolua_toint fp args 1 of
        Inl e \<Rightarrow> Inl e
      | Inr st \<Rightarrow>
          (case stack_at args 2 of
             Some (Table es) \<Rightarrow>
               (let stack = args @ [rawget es (Str (if raw then ''on_session_recv_raw_cmd'' else ''on_session_recv_cmd'')),
                                    rawget es (Str ''on_session_disconnect''), rawget es (Str ''on_session_connect'')];
                    (recv, a) = save_service_function (stack_at stack 3) (app n);
                    (disconnect, a) = save_service_function (stack_at stack 4) a;
                    (connect, a) = save_service_function (stack_at stack 5) a;
                    n = n\<lparr>app := a\<rparr>
                in if recv = 0 \<or> disconnect = 0 then Inr (Some [Boolean False], n)
                   else (let (ret, tab) = register_service st
                               (lua_service_methods S pool fuel
                                  \<lparr>is_raw = raw, lua_recv_cmd_handler = (if raw then 0 else recv),
                                   lua_disconnect_handler = disconnect,
                                   lua_recv_raw_handler = (if raw then recv else 0),
                                   lua_connect_handler = connect\<rparr>) (g_service_set n)
                         in Inr (Some [Boolean ret], n\<lparr>g_service_set := tab\<rparr>)))
           | _ \<Rightarrow> Inr (Some [Boolean False], n)))"

definition lua_register_service ::
  "('d, 's) script \<Rightarrow> 'd doubles \<Rightarrow> 'd pool \<Rightarrow> nat \<Rightarrow> ('d, (('d, 's) lua_app, 'd message) node) binding" where
  "lua_register_service = lua_register False"

definition lua_register_raw_service ::
  "('d, 's) script \<Rightarrow> 'd doubles \<Rightarrow> 'd pool \<Rightarrow> nat \<Rightarrow> ('d, (('d, 's) lua_app, 'd message) node) binding" where
  "lua_register_raw_service = lua_register True"

section \<open>A command through a script\<close>

lemma to_int_id: "- (2 ^ 31) \<le> k \<Longrightarrow> k < 2 ^ 31 \<Longrightarrow> to_int k = k"
  by (simp add: to_int_def sint_sbintrunc' signed_take_bit_int_eq_self)

lemma word_of_int_uint: "word_of_int (uint w) = w"
  by simp

lemma cstr_of_lua_of_cstr: "0 \<notin> set text \<Longrightarrow> cstr_of_lua (lua_of_cstr (text @ [0])) = text @ [0]"
proof -
  assume "0 \<notin> set text"
  then have "takeWhile (\<lambda>b. b \<noteq> 0) (text @ [0]) = text" by (subst takeWhile_append2) auto
  then show ?thesis by (simp add: cstr_of_lua_def lua_of_cstr_def o_def)
qed

definition cmd_entries :: "'d message cmd_msg \<Rightarrow> 'd lval \<Rightarrow> ('d lval \<times> 'd lval) list" where
  "cmd_entries msg b =
     [(Integer 1, Integer (stype msg)), (Integer 2, Integer (ctype msg)), (Integer 3, Integer (uint (utag msg)))]
     @ (if b = Nil then [] else [(Integer 4, b)])"

lemma cmd_table_entries:
  "cmd_table pool fuel pt msg = rbind (body_lval pool fuel pt (body msg)) (\<lambda>b. Inr (Table (cmd_entries msg b)))"
proof -
  have "rawset (rawset (rawset (rawset [] (Integer 1) (Integer (stype msg))) (Integer 2) (Integer (ctype msg)))
      (Integer 3) (Integer (uint (utag msg)))) (Integer 4) b = cmd_entries msg b" for b
    by (cases "b = Nil") (simp_all add: cmd_entries_def rawset_def)
  then show ?thesis by (simp only: cmd_table_def)
qed

lemma rawget_entries:
  "rawget (cmd_entries msg b) (Integer 1) = Integer (stype msg)"
  "rawget (cmd_entries msg b) (Integer 2) = Integer (ctype msg)"
  "rawget (cmd_entries msg b) (Integer 3) = Integer (uint (utag msg))"
  "rawget (cmd_entries msg b) (Integer 4) = b"
  by (simp_all add: cmd_entries_def rawget_def)

lemma luaL_len_entries:
  assumes "finds_border fp"
  shows "luaL_len fp (cmd_entries msg b) = (if b = Nil then 3 else 4)"
proof -
  let ?n = "getn fp (cmd_entries msg b)"
  have n: "?n = 0 \<or> rawget (cmd_entries msg b) (Integer (int ?n)) \<noteq> Nil"
    "rawget (cmd_entries msg b) (Integer (int ?n + 1)) = Nil"
    using assms by (simp_all add: finds_border_def is_border_def)
  have "?n = 0 \<or> ?n = 1 \<or> ?n = 2 \<or> ?n = 3 \<or> ?n = 4"
    using n(1) by (auto simp: cmd_entries_def rawget_def split: if_splits)
  then show ?thesis
    using n by (elim disjE) (auto simp: luaL_len_def cmd_entries_def rawget_def split: if_splits)
qed

lemma lua_tointeger_Integer [simp]: "lua_tointeger fp (Integer i) = Some i"
  by (simp add: lua_tointeger_def)

definition in_int :: "int \<Rightarrow> bool" where
  "in_int k \<longleftrightarrow> - (2 ^ 31) \<le> k \<and> k < 2 ^ 31"

lemma read_cmd_entries:
  assumes "finds_border fp" "in_int (stype msg)" "in_int (ctype msg)"
  shows "read_cmd fp pool (cmd_entries msg b) ps =
     (if b = Nil then (Got (msg\<lparr>body := None\<rparr>), ps)
      else (let (r, ps) = read_cmd_body fp pool (ctype msg) b ps in (rmap (\<lambda>b. msg\<lparr>body := b\<rparr>) r, ps)))"
  using assms(2,3)
  by (cases msg) (simp add: read_cmd_def luaL_len_entries [OF assms(1)] rawget_entries to_int_id in_int_def Let_def)

text \<open>
  A command a script can take and give back: within the ranges of C, a text that ends with its
  zero, or a message of the type the command map gives for it.
\<close>

definition carries ::
  "'d doubles \<Rightarrow> 'd pool \<Rightarrow> (string \<Rightarrow> nat) \<Rightarrow> nat \<Rightarrow> proto_state \<Rightarrow> 'd message cmd_msg \<Rightarrow> bool" where
  "carries fp pool rk fuel ps msg \<longleftrightarrow> in_int (stype msg) \<and> in_int (ctype msg) \<and>
     (case body msg of
        None \<Rightarrow> True
      | Some (JsonBody bs) \<Rightarrow> g_proto_type ps = PROTO_JSON \<and> bs \<noteq> [] \<and> last bs = 0 \<and> 0 \<notin> set (butlast bs)
      | Some (PbBody (ty, vss)) \<Rightarrow> g_proto_type ps \<noteq> PROTO_JSON \<and> g_pb_cmd_map ps (ctype msg) = Some ty \<and>
          lua_fits fp pool (CPPTYPE_MESSAGE ty) (PMessage ty vss) \<and> rk ty < fuel)"

definition filled_cmd :: "'d pool \<Rightarrow> nat \<Rightarrow> 'd message cmd_msg \<Rightarrow> 'd message cmd_msg" where
  "filled_cmd pool fuel msg = msg\<lparr>body := map_option (\<lambda>b. case b of
     JsonBody bs \<Rightarrow> JsonBody bs | PbBody m \<Rightarrow> PbBody (fill_message pool fuel m)) (body msg)\<rparr>"

lemma carried_body:
  assumes "ieee fp" "plain_pool fp pool" "ranked rk pool" "carries fp pool rk fuel ps msg" "finds_border fp"
  obtains b where "cmd_table pool fuel (g_proto_type ps) msg = Inr (Table (cmd_entries msg b))"
    "cmd_table pool fuel (g_proto_type ps) (filled_cmd pool fuel msg) = Inr (Table (cmd_entries msg b))"
    "read_cmd fp pool (cmd_entries msg b) ps = (Got (filled_cmd pool fuel msg), ps)"
proof (cases "body msg")
  case None
  show ?thesis
  proof (rule that [of Nil])
    show "read_cmd fp pool (cmd_entries msg Nil) ps = (Got (filled_cmd pool fuel msg), ps)"
      using assms(4) None by (simp add: read_cmd_entries [OF assms(5)] carries_def filled_cmd_def)
  qed (use None in \<open>simp_all add: cmd_table_entries body_lval_def filled_cmd_def cmd_entries_def\<close>)
next
  case (Some bd)
  show ?thesis
  proof (cases bd)
    case (JsonBody bs)
    with assms(4) Some have json: "g_proto_type ps = PROTO_JSON"
      and bs: "bs = butlast bs @ [0]" "0 \<notin> set (butlast bs)"
      by (auto simp: carries_def) (metis append_butlast_last_id)
    from cstr_of_lua_of_cstr [OF bs(2)] bs(1) have cstr: "cstr_of_lua (lua_of_cstr bs) = bs" by simp
    show ?thesis
    proof (rule that [of "Str (lua_of_cstr bs)"])
      show "read_cmd fp pool (cmd_entries msg (Str (lua_of_cstr bs))) ps = (Got (filled_cmd pool fuel msg), ps)"
        using assms(4) Some JsonBody json
        by (simp add: read_cmd_entries [OF assms(5)] carries_def read_cmd_body_def lua_tolstring_def cstr filled_cmd_def)
    qed (use Some JsonBody json in \<open>simp_all add: cmd_table_entries body_lval_def filled_cmd_def cmd_entries_def\<close>)
  next
    case (PbBody m)
    obtain ty vss where m: "m = (ty, vss)" by (cases m)
    with assms(4) Some PbBody have pb: "g_proto_type ps \<noteq> PROTO_JSON" "g_pb_cmd_map ps (ctype msg) = Some ty"
      and fit: "lua_fits fp pool (CPPTYPE_MESSAGE ty) (PMessage ty vss)" and rk: "rk ty < fuel"
      by (simp_all add: carries_def)
    from push_ends [OF assms(2,3) fit rk] obtain t where t: "push_message pool fuel (ty, vss) = Some t" by blast
    from rk obtain k where k: "fuel = Suc k" by (cases fuel) auto
    from message_survives [OF all_survive [OF assms(1,2)] assms(2) fit t [unfolded k]]
    obtain es where es: "t = Table es" and rd: "read_message fp pool t ty = Got (fill_message pool fuel (ty, vss))"
      unfolding k by blast
    show ?thesis
    proof (rule that [of t])
      show "read_cmd fp pool (cmd_entries msg t) ps = (Got (filled_cmd pool fuel msg), ps)"
        using assms(4) Some PbBody pb m rd es
        by (simp add: read_cmd_entries [OF assms(5)] carries_def read_cmd_body_def protobuf_cmd_name_def filled_cmd_def)
    qed (use Some PbBody pb m t in \<open>simp_all add: cmd_table_entries body_lval_def filled_cmd_def push_fill cmd_entries_def\<close>)
  qed
qed

text \<open>
  C11: A command handed to a script and sent on by it is the command that was received: the table
  of \<open>on_session_recv_cmd\<close>, given to \<open>Session.send_msg\<close>, is sent as that command, with the
  unset fields of a protobuf body set to their defaults. A script that receives it again sees the
  same table.
\<close>

theorem forwarded_command_unchanged:
  assumes "ieee fp" "plain_pool fp pool" "ranked rk pool" "carries fp pool rk fuel (protos n) msg"
    "finds_border fp"
  shows "\<exists>t. cmd_table pool fuel (g_proto_type (protos n)) msg = Inr t \<and>
     lua_send_msg E fp pool [LightUserdata s, t] n =
       map_result (\<lambda>n. (Some [], n)) (send_msg E s (filled_cmd pool fuel msg) n) \<and>
     cmd_table pool fuel (g_proto_type (protos n)) (filled_cmd pool fuel msg) = Inr t"
proof -
  from carried_body [OF assms] obtain b where
    "cmd_table pool fuel (g_proto_type (protos n)) msg = Inr (Table (cmd_entries msg b))"
    "cmd_table pool fuel (g_proto_type (protos n)) (filled_cmd pool fuel msg) = Inr (Table (cmd_entries msg b))"
    "read_cmd fp pool (cmd_entries msg b) (protos n) = (Got (filled_cmd pool fuel msg), protos n)" .
  then show ?thesis
    by (simp add: lua_send_msg_def with_userdata_def tolua_touserdata_def send_table_def)
qed

text \<open>Doubles that are integers, and a pool of two types.\<close>

definition demo_fp :: "int doubles" where
  "demo_fp = \<lparr>of_integer = (\<lambda>i. i), trunc_int = Some, round_float = (\<lambda>x. x), l_str2d = (\<lambda>_. None),
              number2str = format_lld, getn = border 0\<rparr>"

definition move_pool :: "int pool" where
  "move_pool = [''Pos'' \<mapsto> [\<lparr>fd_name = ''x'', fd_label = Optional, fd_type = CPPTYPE_INT64, fd_default = PInt64 0\<rparr>],
                ''Move'' \<mapsto> [\<lparr>fd_name = ''pos'', fd_label = Required, fd_type = CPPTYPE_MESSAGE ''Pos'', fd_default = PBool False\<rparr>,
                            \<lparr>fd_name = ''tags'', fd_label = Repeated, fd_type = CPPTYPE_STRING, fd_default = PString []\<rparr>]]"

definition move_cmd :: "int message cmd_msg" where
  "move_cmd = \<lparr>stype = 3, ctype = 7, utag = 9,
               body = Some (PbBody (''Move'', [[PMessage ''Pos'' [[]]], [PString ''a'', PString ''b'']]))\<rparr>"

definition move_env :: "int message env" where
  "move_env = \<lparr>pb = \<lparr>create_message = (\<lambda>_. None), parse_from_array = (\<lambda>_ _. None), byte_size = (\<lambda>_. 0),
                     serialize_partial = (\<lambda>_ n. Some (replicate n 0))\<rparr>,
               wbuf = (\<lambda>n. replicate (n + 1) 0), uv_shutdown_ret = (\<lambda>_. 0)\<rparr>"

definition move_node :: "(unit, int message) node" where
  "move_node = (demo_node service_default ())
     \<lparr>protos := register_protobuf_cmd_map [(7, ''Move'')] proto_state_init\<rparr>"

lemma demo_ieee: "ieee demo_fp"
  by (simp add: ieee_def demo_fp_def)

lemma demo_border: "finds_border demo_fp"
  by (simp add: finds_border_def demo_fp_def border_is_border)

lemma move_pool_cases:
  "move_pool ty = Some fds \<Longrightarrow>
     ty = ''Pos'' \<and> fds = the (move_pool ''Pos'') \<or> ty = ''Move'' \<and> fds = the (move_pool ''Move'')"
  by (auto simp: move_pool_def split: if_splits)

lemma move_pool_plain: "plain_pool demo_fp move_pool"
  unfolding plain_pool_def
proof (intro allI impI)
  fix ty fds assume "move_pool ty = Some fds"
  from move_pool_cases [OF this]
  show "short_name ty = ty \<and> distinct (map fd_name fds) \<and> (\<forall>fd \<in> set fds. lowercase_name fd = fd_name fd \<and>
      (case fd_type fd of CPPTYPE_MESSAGE t \<Rightarrow> move_pool t \<noteq> None | t \<Rightarrow> lua_fits demo_fp move_pool t (fd_default fd)))"
    by (elim disjE) (simp_all add: move_pool_def short_name_def lowercase_name_def lower_char_def uchar_def fits_simps)
qed

definition move_rank :: "string \<Rightarrow> nat" where
  "move_rank ty = (if ty = ''Move'' then 1 else 0)"

lemma move_pool_ranked: "ranked move_rank move_pool"
  unfolding ranked_def
proof (intro allI impI)
  fix ty fds assume "move_pool ty = Some fds"
  from move_pool_cases [OF this]
  show "\<forall>fd \<in> set fds. case fd_type fd of CPPTYPE_MESSAGE t \<Rightarrow> move_rank t < move_rank ty | _ \<Rightarrow> True"
    by (elim disjE) (simp_all add: move_pool_def move_rank_def)
qed

lemma move_cmd_carried: "carries demo_fp move_pool move_rank 2 (protos move_node) move_cmd"
  unfolding carries_def
  by (simp add: move_cmd_def in_int_def move_node_def register_protobuf_cmd_map_def proto_state_init_def
      PROTO_JSON_def PROTO_BUF_def fits_simps move_pool_def move_rank_def)

theorem forwarded_command_unchanged_witness:
  "\<exists>t. cmd_table move_pool 2 (g_proto_type (protos move_node)) move_cmd = Inr t \<and>
     lua_send_msg move_env demo_fp move_pool [LightUserdata 1, t] move_node =
       map_result (\<lambda>n. (Some [], n)) (send_msg move_env 1 (filled_cmd move_pool 2 move_cmd) move_node) \<and>
     cmd_table move_pool 2 (g_proto_type (protos move_node)) (filled_cmd move_pool 2 move_cmd) = Inr t"
  by (rule forwarded_command_unchanged [OF demo_ieee move_pool_plain move_pool_ranked move_cmd_carried demo_border])

section \<open>Message types that contain themselves\<close>

text \<open>A singular field of its own type is followed even where it is not set.\<close>

lemma self_field_pushed_again:
  assumes "pool ty = Some fds" "fd \<in> set fds" "fd_label fd \<noteq> Repeated" "fd_type fd = CPPTYPE_MESSAGE ty"
  shows "lua_fits fp pool (CPPTYPE_MESSAGE ty) (PMessage ty vss) \<Longrightarrow> push_message pool fuel (ty, vss) = None"
proof (induction fuel arbitrary: vss)
  case (Suc fuel)
  from Suc.prems have vss: "list_all2 (\<lambda>fd vs. (fd_label fd \<noteq> Repeated \<longrightarrow> length vs \<le> 1) \<and>
      (\<forall>v \<in> set vs. lua_fits fp pool (fd_type fd) v)) fds vss"
    using assms(1) by (auto elim: fits_messageE)
  from assms(2) obtain i where i: "i < length fds" "fds ! i = fd" by (auto simp: in_set_conv_nth)
  have len: "length vss = length fds" using vss by (simp add: list_all2_lengthD)
  have fit: "\<forall>v \<in> set (vss ! i). lua_fits fp pool (CPPTYPE_MESSAGE ty) v"
    using vss i assms(4) by (auto simp: list_all2_conv_all_nth)
  have "\<exists>vss'. get_field pool fd (vss ! i) = PMessage ty vss' \<and> lua_fits fp pool (CPPTYPE_MESSAGE ty) (PMessage ty vss')"
  proof (cases "vss ! i")
    case Nil
    then have "get_field pool fd (vss ! i) = PMessage ty (replicate (length fds) [])"
      by (simp add: get_field_def fields_of_def assms(1,4))
    moreover have "lua_fits fp pool (CPPTYPE_MESSAGE ty) (PMessage ty (replicate (length fds) []))"
      by (rule default_fits) (rule assms(1))
    ultimately show ?thesis by blast
  next
    case (Cons v vs)
    with fit have v: "lua_fits fp pool (CPPTYPE_MESSAGE ty) v" by simp
    then obtain vss' where "v = PMessage ty vss'" by (auto elim: fits_messageE)
    with v Cons show ?thesis by (simp add: get_field_def)
  qed
  then obtain vss' where "get_field pool fd (vss ! i) = PMessage ty vss'"
    "lua_fits fp pool (CPPTYPE_MESSAGE ty) (PMessage ty vss')" by blast
  with Suc.IH [of vss'] have "push_field pool fuel fd (vss ! i) = None"
    using assms(3) by (simp add: push_field_def)
  moreover have "(fd, vss ! i) \<in> set (zip fds vss)" using i len by (auto simp: set_zip)
  ultimately have "None \<in> set (map (\<lambda>(fd, vs). push_field pool fuel fd vs) (zip fds vss))" by force
  then have "those (map (\<lambda>(fd, vs). push_field pool fuel fd vs) (zip fds vss)) = None" by (simp only: those_None)
  then show ?case by (simp add: push_message_fields fields_of_def assms(1))
qed simp

text \<open>
  C30: A command whose message type has a singular field of its own type, which protobuf allows,
  is never handed to the script: \<open>push_proto_message_tolua\<close> recurses into the default instance
  of the unset field without end, so that one such command overflows the stack.
\<close>

theorem recursive_type_overflows:
  assumes "pool ty = Some fds" "fd \<in> set fds" "fd_label fd \<noteq> Repeated" "fd_type fd = CPPTYPE_MESSAGE ty"
    and "body msg = Some (PbBody (ty, vss))" "lua_fits fp pool (CPPTYPE_MESSAGE ty) (PMessage ty vss)"
  shows "cmd_table pool fuel PROTO_BUF msg = Inl StackOverflow"
  using self_field_pushed_again [OF assms(1-4,6)] assms(5)
  by (simp add: cmd_table_def body_lval_def PROTO_BUF_def PROTO_JSON_def rbind_def)

definition node_field :: "int field" where
  "node_field = \<lparr>fd_name = ''next'', fd_label = Optional, fd_type = CPPTYPE_MESSAGE ''Node'', fd_default = PBool False\<rparr>"

theorem recursive_type_overflows_witness:
  "cmd_table [''Node'' \<mapsto> [node_field]] 1000 PROTO_BUF
     \<lparr>stype = 1, ctype = 1, utag = 0, body = Some (PbBody (''Node'', [[]]))\<rparr> = Inl StackOverflow"
  by (rule recursive_type_overflows [where ty = "''Node''" and fds = "[node_field]" and fd = node_field
        and vss = "[[]]" and fp = demo_fp])
    (simp_all add: node_field_def fits_simps)

section \<open>Services of scripts\<close>

lemma run_returning: "run_prog E cl (returning b p) n = map_result (\<lambda>(_, n). (b, n)) (run_prog E cl p n)"
proof (induction p arbitrary: n)
  case (AskSession i k)
  then show ?case by (auto split: option.splits)
next
  case (Do a p)
  then show ?case by (cases "do_action E cl a n") (simp_all add: rbind_def)
qed simp_all

lemma next_refid:
  fixes r :: u32
  assumes "uint r < 2 ^ 31 - 4"
  shows "uint (r + 1) = uint r + 1" "sint (r + 1) = uint r + 1" "uint (r + 1 + 1) = uint r + 2" "r + 1 \<noteq> 0"
proof -
  show one: "uint (r + 1) = uint r + 1"
    using assms uint_ge_0 [of r] by (simp add: uint_word_ariths)
  show "uint (r + 1 + 1) = uint r + 2"
    using assms uint_ge_0 [of r] by (simp add: uint_word_ariths)
  have "sint (r + 1) = uint (r + 1)" using one assms uint_ge_0 [of r]
    by (simp add: sint_uint signed_take_bit_int_eq_self)
  with one show "sint (r + 1) = uint r + 1" by simp
  show "r + 1 \<noteq> 0"
  proof
    assume "r + 1 = 0"
    with one have "uint r + 1 = 0" by simp
    with uint_ge_0 [of r] show False by linarith
  qed
qed

lemma save_function_simps [simp]:
  "save_service_function (Some (Function f)) a =
     (s_function_ref_id a + 1,
      a\<lparr>s_function_ref_id := s_function_ref_id a + 1,
        service_function_mapping := (service_function_mapping a)(uint (s_function_ref_id a + 1) := Function f)\<rparr>)"
  by (simp add: save_service_function_def Let_def)

lemma save_function_other:
  assumes "\<And>f. v \<noteq> Some (Function f)"
  shows "save_service_function v a = (0, a)"
proof (cases v)
  case (Some w)
  with assms show ?thesis by (cases w) (auto simp: save_service_function_def)
qed (simp add: save_service_function_def)

text \<open>Saving a function does not touch the number before.\<close>

lemma save_function_keeps:
  assumes "save_service_function v a = (r, a')" "k \<noteq> uint (s_function_ref_id a + 1)"
  shows "service_function_mapping a' k = service_function_mapping a k"
proof (cases "\<exists>f. v = Some (Function f)")
  case True
  with assms show ?thesis by auto
next
  case False
  with save_function_other [of v a] assms(1) show ?thesis by simp
qed

lemma registered_service:
  assumes "lua_register_service S fp pool fuel [v, Table es] n = Inr (Some [Boolean True], n')"
    and "tolua_toint fp [v, Table es] 1 = Inr st"
    and "rawget es (Str ''on_session_recv_cmd'') = Function f"
    and small: "uint (s_function_ref_id (app n)) < 2 ^ 31 - 4"
  obtains ls where
    "register_service st (lua_service_methods S pool fuel ls) (g_service_set n) = (True, g_service_set n')"
    "\<not> is_raw ls" "service_function_mapping (app n') (sint (lua_recv_cmd_handler ls)) = Function f"
proof -
  let ?r = "s_function_ref_id (app n)"
  obtain r1 a1 where s1: "save_service_function (Some (Function f)) (app n) = (r1, a1)" by fastforce
  obtain r2 a2 where s2: "save_service_function (Some (rawget es (Str ''on_session_disconnect''))) a1 = (r2, a2)" by fastforce
  obtain r3 a3 where s3: "save_service_function (Some (rawget es (Str ''on_session_connect''))) a2 = (r3, a3)" by fastforce
  let ?ls = "\<lparr>is_raw = False, lua_recv_cmd_handler = r1, lua_disconnect_handler = r2, lua_recv_raw_handler = 0,
      lua_connect_handler = r3\<rparr>"
  obtain ret tab where reg: "register_service st (lua_service_methods S pool fuel ?ls) (g_service_set n) = (ret, tab)"
    by fastforce
  have at: "stack_at [v, Table es, x, y, z] 3 = Some x" "stack_at [v, Table es, x, y, z] 4 = Some y"
    "stack_at [v, Table es, x, y, z] 5 = Some z" for x y z :: "'a lval"
    by (simp_all add: stack_at_def)
  from assms(1) have outcome: "ret" "n' = n\<lparr>app := a3, g_service_set := tab\<rparr>" "r2 \<noteq> 0"
    unfolding lua_register_service_def lua_register_def assms(2)
    by (auto simp: assms(3) at s1 s2 s3 reg Let_def simp del: save_function_simps split: if_splits)
  have r1: "r1 = ?r + 1" "s_function_ref_id a1 = ?r + 1" "service_function_mapping a1 (uint (?r + 1)) = Function f"
    using s1 by auto
  have r2: "s_function_ref_id a2 = ?r + 1 + 1"
    using s2 outcome(3) r1(2)
    by (cases "rawget es (Str ''on_session_disconnect'')") (auto simp: save_service_function_def Let_def)
  note refid = next_refid [OF small]
  have "service_function_mapping a2 (uint ?r + 1) = Function f"
    using save_function_keeps [OF s2, of "uint ?r + 1"] r1 refid(1,3) by simp
  moreover have "uint (?r + 1 + 1 + 1) = uint ?r + 3"
    using small refid(3) uint_ge_0 [of ?r] by (simp add: uint_word_ariths)
  ultimately have "service_function_mapping a3 (uint ?r + 1) = Function f"
    using save_function_keeps [OF s3, of "uint ?r + 1"] r2 by simp
  then have "service_function_mapping (app n') (sint (lua_recv_cmd_handler ?ls)) = Function f"
    using outcome(2) r1(1) refid(2) by simp
  with that [of ?ls] reg outcome(1,2) show ?thesis by simp
qed

lemma run_execute:
  "service_function_mapping (app m) (sint h) = Function f \<Longrightarrow>
     run_prog E cl (execute_service_function F h) m = run_prog E cl (F f) m"
  by (simp add: execute_service_function_def)

lemma returning_execute:
  "service_function_mapping (app m) (sint h) = Function f \<Longrightarrow>
     run_prog E cl (returning b (execute_service_function F h)) m =
       map_result (\<lambda>(_, k). (b, k)) (run_prog E cl (F f) m)"
  by (simp add: run_returning run_execute)

lemma registered_at:
  assumes "register_service st svc tab = (True, tab')" "length tab = MAX_SERVICE"
  shows "service_at tab' st = Inr (Some svc)"
  using assms by (auto simp: register_service_def service_at_def split: if_splits)

text \<open>
  C18: A service registered by a script receives its commands: for a command of its type the
  dispatcher runs the script's function, with the session and the command's table, and keeps the
  session open whatever the function returns.
\<close>

theorem lua_service_receives:
  assumes "lua_register_service S fp pool fuel [v, Table es] n = Inr (Some [Boolean True], n')"
    and "tolua_toint fp [v, Table es] 1 = Inr st"
    and "rawget es (Str ''on_session_recv_cmd'') = Function f"
    and "uint (s_function_ref_id (app n)) < 2 ^ 31 - 4" "length (g_service_set n) = MAX_SERVICE"
    and "g_service_set m = g_service_set n'"
    and "service_function_mapping (app m) = service_function_mapping (app n')"
    and "raw_stype raw = st"
    and "decode_cmd_msg (pb E) (raw_data raw) (raw_len raw) (protos m) = (Some msg, ps)"
    and "cmd_table pool fuel (g_proto_type ps) msg = Inr t"
  shows "on_recv_raw_cmd E depth s raw m =
     map_result (\<lambda>(_, k). (True, k))
       (run_prog E (close_session E depth) (call S f [LightUserdata s, t]) (m\<lparr>protos := ps\<rparr>))"
proof -
  from registered_service [OF assms(1-4)] obtain ls where
    reg: "register_service st (lua_service_methods S pool fuel ls) (g_service_set n) = (True, g_service_set n')"
    and ls: "\<not> is_raw ls" "service_function_mapping (app n') (sint (lua_recv_cmd_handler ls)) = Function f" .
  have slot: "service_at (g_service_set m) (raw_stype raw) = Inr (Some (lua_service_methods S pool fuel ls))"
    using registered_at [OF reg assms(5)] by (simp only: assms(6,8))
  have f: "service_function_mapping (app (m\<lparr>protos := ps\<rparr>)) (sint (lua_recv_cmd_handler ls)) = Function f"
    using ls(2) by (simp add: assms(7))
  show ?thesis
    using ls(1) by (simp add: on_recv_raw_cmd_def slot assms(9,10) lua_service_methods_def returning_execute [OF f])
qed

definition echo_script :: "(int, unit) script" where
  "echo_script = \<lparr>call = (\<lambda>f args. svc_prog.Ret False), call_raw = (\<lambda>f s raw. svc_prog.Ret False)\<rparr>"

definition lua_node :: "((int, unit) lua_app, int message) node" where
  "lua_node = (demo_node service_default
      \<lparr>s_function_ref_id = 0, service_function_mapping = (\<lambda>_. Nil), script_state = ()\<rparr>)
     \<lparr>g_service_set := replicate MAX_SERVICE None\<rparr>"

definition service_table :: "(int lval \<times> int lval) list" where
  "service_table = [(Str ''on_session_recv_cmd'', Function 5), (Str ''on_session_disconnect'', Function 6)]"

theorem lua_service_receives_witness:
  "\<exists>n'. lua_register_service echo_script demo_fp move_pool 2 [Integer 4, Table service_table] lua_node
       = Inr (Some [Boolean True], n') \<and>
     on_recv_raw_cmd move_env 1 1
       \<lparr>raw_stype = 4, raw_ctype = 7, raw_utag = 0, raw_data = [4, 0, 7, 0, 0, 0, 0, 0], raw_len = 8\<rparr> n' =
     Inr (True, n')"
proof -
  obtain n' where n': "lua_register_service echo_script demo_fp move_pool 2 [Integer 4, Table service_table] lua_node
       = Inr (Some [Boolean True], n')"
    by (simp add: lua_register_service_def lua_register_def tolua_toint_def demo_fp_def service_table_def
        rawget_def stack_at_def lua_node_def demo_node_def save_service_function_def register_service_def
        MAX_SERVICE_def Let_def)
  let ?raw = "\<lparr>raw_stype = 4, raw_ctype = 7, raw_utag = 0, raw_data = [4, 0, 7, 0, 0, 0, 0, 0], raw_len = 8\<rparr>"
  let ?msg = "\<lparr>stype = sint (le16 4 0), ctype = sint (le16 7 0), utag = le32 0 0 0 0, body = None\<rparr> :: int message cmd_msg"
  have "on_recv_raw_cmd move_env 1 1 ?raw n' =
     map_result (\<lambda>(_, k). (True, k)) (run_prog move_env (close_session move_env 1)
       (call echo_script 5 [LightUserdata 1, Table (cmd_entries ?msg Nil)]) (n'\<lparr>protos := protos n'\<rparr>))"
  proof (rule lua_service_receives [OF n', where st = 4 and msg = ?msg])
    show "decode_cmd_msg (pb move_env) (raw_data ?raw) (raw_len ?raw) (protos n') = (Some ?msg, protos n')"
      by (simp add: decode_cmd_msg_def CMD_HEADER_def)
    show "cmd_table move_pool 2 (g_proto_type (protos n')) ?msg = Inr (Table (cmd_entries ?msg Nil))"
      by (simp add: cmd_table_entries body_lval_def)
  qed (simp_all add: tolua_toint_def demo_fp_def service_table_def rawget_def lua_node_def demo_node_def)
  with n' show ?thesis by (simp add: echo_script_def)
qed

section \<open>Raw commands through a gateway\<close>

lemma mask_tag_bytes:
  fixes w :: u32
  shows "ucast (drop_bit 16 (w AND 0x00FF0000)) = (ucast (drop_bit 16 w) :: byte)"
    "ucast (drop_bit 24 (w AND 0xFF000000)) = (ucast (drop_bit 24 w) :: byte)"
proof -
  have m: "(0x00FF0000 :: u32) = push_bit 16 (mask 8)" "(0xFF000000 :: u32) = push_bit 24 (mask 8)"
    by (simp_all add: mask_numeral)
  show "ucast (drop_bit 16 (w AND 0x00FF0000)) = (ucast (drop_bit 16 w) :: byte)"
    unfolding m by (rule bit_word_eqI) (auto simp: bit_simps)
  show "ucast (drop_bit 24 (w AND 0xFF000000)) = (ucast (drop_bit 24 w) :: byte)"
    unfolding m by (rule bit_word_eqI) (auto simp: bit_simps)
qed

lemma set_utag_bytes:
  assumes "8 \<le> length (raw_data raw)"
  shows "\<exists>w. w = (word_of_int v :: u32) \<and> raw_utag (lua_raw_set_utag v raw) = w \<and>
     (\<forall>i < 4. raw_data (lua_raw_set_utag v raw) ! i = raw_data raw ! i) \<and>
     le32 (raw_data (lua_raw_set_utag v raw) ! 4) (raw_data (lua_raw_set_utag v raw) ! 5)
       (raw_data (lua_raw_set_utag v raw) ! 6) (raw_data (lua_raw_set_utag v raw) ! 7) = w \<and>
     drop 8 (raw_data (lua_raw_set_utag v raw)) = drop 8 (raw_data raw)"
  using assms
  by (simp add: lua_raw_set_utag_def Let_def mask_tag_bytes le_simps drop_update_cancel)

text \<open>
  C19: A gateway rewrites the tag of a raw command in place: the command decoded from the bytes
  afterwards is the one before with the new tag, types and body as they were.
\<close>

theorem gateway_tag_rewritten:
  assumes "decode_cmd_msg P (raw_data raw) cmd_len ps = (Some msg, ps')" "8 \<le> length (raw_data raw)"
  shows "decode_cmd_msg P (raw_data (lua_raw_set_utag v raw)) cmd_len ps =
     (Some (msg\<lparr>utag := word_of_int v\<rparr>), ps')"
  using set_utag_bytes [OF assms(2), of v] assms(1)
  by (auto simp: decode_cmd_msg_def Let_def slice_def CMD_HEADER_def split: if_splits prod.splits option.splits)

theorem gateway_tag_rewritten_witness:
  "decode_cmd_msg echo_pb (raw_data (lua_raw_set_utag 258
       \<lparr>raw_stype = 1, raw_ctype = 3, raw_utag = 9, raw_data = [1, 0, 3, 0, 9, 0, 0, 0, 5], raw_len = 9\<rparr>)) 9
     (register_protobuf_cmd_map [(3, ''Echo'')] proto_state_init) =
   (Some (\<lparr>stype = 1, ctype = 3, utag = 258, body = Some (PbBody [5])\<rparr>),
    register_protobuf_cmd_map [(3, ''Echo'')] proto_state_init)"
proof -
  let ?raw = "\<lparr>raw_stype = 1, raw_ctype = 3, raw_utag = 9, raw_data = [1, 0, 3, 0, 9, 0, 0, 0, 5], raw_len = 9\<rparr>"
  let ?msg = "\<lparr>stype = 1, ctype = 3, utag = 9, body = Some (PbBody [5])\<rparr>"
  let ?ps = "register_protobuf_cmd_map [(3, ''Echo'')] proto_state_init"
  have "decode_cmd_msg echo_pb (raw_data ?raw) 9 ?ps = (Some ?msg, ?ps)"
    by (simp add: decode_cmd_msg_def CMD_HEADER_def Let_def slice_def protobuf_cmd_name_def
        register_protobuf_cmd_map_def proto_state_init_def PROTO_JSON_def PROTO_BUF_def echo_pb_def
        le16_def le32_def)
  from gateway_tag_rewritten [OF this, of 258] show ?thesis by simp
qed

end
