(* ===== verification/Lua_Database.thy ===== *)
theory Lua_Database
  imports Lua_Service
begin

text \<open>
  The databases in scripts: \<open>lua_wrapper/redis_export_to_lua.cc\<close> and \<open>mysql_export_to_lua.cc\<close>, with
  the functions a script leaves behind for the answers (\<open>3rd/tolua/tolua_fix.cc\<close>) and their calls
  (\<open>lua_wrapper.cc\<close>). The interpreter's stack is a list with its top first; what hiredis and libmysql
  answered is an argument.
\<close>

section \<open>Functions kept for an answer\<close>

record 'd fn_table =
  s_fn_ref_id :: int
  fn_mapping :: "int \<Rightarrow> 'd lval"

definition toluafix_ref_function :: "'d lval option \<Rightarrow> 'd fn_table \<Rightarrow> int \<times> 'd fn_table" where
  "toluafix_ref_function v fs =
     (case v of
        Some (Function f) \<Rightarrow>
          (let refid = s_fn_ref_id fs + 1 in
           (refid, fs\<lparr>s_fn_ref_id := refid, fn_mapping := (fn_mapping fs)(refid := Function f)\<rparr>))
      | _ \<Rightarrow> (0, fs))"

definition toluafix_remove_function :: "int \<Rightarrow> 'd fn_table \<Rightarrow> 'd fn_table" where
  "toluafix_remove_function refid fs = fs\<lparr>fn_mapping := (fn_mapping fs)(refid := Nil)\<rparr>"

text \<open>
  \<open>execute_script_handler\<close>: the function is put below the arguments on top of the stack; with
  fewer values on the stack than arguments that is a position below the stack. The result is the
  call that is made, if any; the stack is emptied.
\<close>

definition call_script_handler ::
  "int \<Rightarrow> nat \<Rightarrow> 'd lval list \<Rightarrow> 'd fn_table \<Rightarrow> (nat \<times> 'd lval list) option result" where
  "call_script_handler nHandler numArgs stack fs =
     (case fn_mapping fs nHandler of
        Function f \<Rightarrow>
          if numArgs \<le> length stack then Inr (Some (f, rev (take numArgs stack))) else Inl OutOfBounds
      | _ \<Rightarrow> Inr None)"

text \<open>\<open>lua_rawseti(L, -2, i)\<close> of a value into the table below it.\<close>

definition lua_rawseti :: "int \<Rightarrow> 'd lval list \<Rightarrow> 'd lval list result" where
  "lua_rawseti i stack =
     (case stack of
        v # Table es # rest \<Rightarrow> Inr (Table (rawset es (Integer i) v) # rest)
      | _ \<Rightarrow> Inl OutOfBounds)"

text \<open>\<open>lua_pushstring\<close> takes the text up to its first zero.\<close>

definition c_text :: "string \<Rightarrow> string" where
  "c_text s = takeWhile (\<lambda>c. c \<noteq> CHR 0x00) s"

section \<open>Redis\<close>

text \<open>The arguments of \<open>Redis.query\<close>: a request is made, or not.\<close>

definition lua_redis_query ::
  "'d doubles \<Rightarrow> 'd lval list \<Rightarrow> 'd fn_table \<Rightarrow> ((nat \<times> string \<times> int) option \<times> 'd fn_table) result" where
  "lua_redis_query fp args fs =
     (case tolua_touserdata args 1 of
        Inl e \<Rightarrow> Inl e
      | Inr None \<Rightarrow> Inr (None, fs)
      | Inr (Some c) \<Rightarrow>
          (case Option.bind (stack_at args 2) (lua_tolstring fp) of
             None \<Rightarrow> Inr (None, fs)
           | Some cmd \<Rightarrow>
               (let (handler, fs) = toluafix_ref_function (stack_at args 3) fs
                in Inr (if handler = 0 then None else Some (c, cmd, handler), fs))))"

datatype redis_reply =
    ReplyString string | ReplyStatus string | ReplyInteger int | ReplyNil
  | ReplyArray "redis_reply list" | ReplyError string

text \<open>\<open>push_result_to_lua\<close>, and its loop over the elements of an array.\<close>

fun push_result_to_lua :: "redis_reply \<Rightarrow> 'd lval list \<Rightarrow> 'd lval list result"
and push_elements :: "int \<Rightarrow> redis_reply list \<Rightarrow> 'd lval list \<Rightarrow> 'd lval list result" where
  "push_result_to_lua (ReplyString s) stack = Inr (Str (c_text s) # stack)"
| "push_result_to_lua (ReplyStatus s) stack = Inr (Str (c_text s) # stack)"
| "push_result_to_lua (ReplyInteger i) stack = Inr (Integer i # stack)"
| "push_result_to_lua ReplyNil stack = Inr (Nil # stack)"
| "push_result_to_lua (ReplyArray rs) stack = push_elements 1 rs (Table [] # stack)"
| "push_result_to_lua (ReplyError e) stack = Inr stack"
| "push_elements i [] stack = Inr stack"
| "push_elements i (r # rs) stack =
     rbind (push_result_to_lua r stack) (\<lambda>stack. rbind (lua_rawseti i stack) (push_elements (i + 1) rs))"

text \<open>The end of both callbacks: the call with the two values, and the release of the function.\<close>

definition answer_script ::
  "'d lval list result \<Rightarrow> int \<Rightarrow> 'd fn_table \<Rightarrow> ((nat \<times> 'd lval list) option \<times> 'd fn_table) result" where
  "answer_script pushed handler fs =
     rbind pushed (\<lambda>stack. rbind (call_script_handler handler 2 stack fs)
       (\<lambda>c. Inr (c, toluafix_remove_function handler fs)))"

definition on_redis_query_cb ::
  "string option \<Rightarrow> redis_reply option \<Rightarrow> int \<Rightarrow> 'd fn_table
    \<Rightarrow> ((nat \<times> 'd lval list) option \<times> 'd fn_table) result" where
  "on_redis_query_cb err result =
     answer_script (case err of
         Some e \<Rightarrow> Inr [Nil, Str e]
       | None \<Rightarrow> (case result of Some r \<Rightarrow> push_result_to_lua r [Nil] | None \<Rightarrow> Inr [Nil, Nil]))"

text \<open>\<open>on_open_cb\<close> of both clients.\<close>

definition on_open_cb ::
  "string option \<Rightarrow> nat \<Rightarrow> int \<Rightarrow> 'd fn_table \<Rightarrow> ((nat \<times> 'd lval list) option \<times> 'd fn_table) result" where
  "on_open_cb err context =
     answer_script (Inr (case err of Some e \<Rightarrow> [Nil, Str e] | None \<Rightarrow> [LightUserdata context, Nil]))"

section \<open>MySQL\<close>

text \<open>A row is an array of \<open>num\<close> texts or null pointers.\<close>

primrec row_loop :: "int \<Rightarrow> string option list \<Rightarrow> 'd lval list \<Rightarrow> 'd lval list result" where
  "row_loop i [] stack = Inr stack"
| "row_loop i (c # cs) stack =
     rbind (lua_rawseti i ((case c of None \<Rightarrow> Nil | Some s \<Rightarrow> Str (c_text s)) # stack)) (row_loop (i + 1) cs)"

definition push_mysql_row :: "string option list \<Rightarrow> nat \<Rightarrow> 'd lval list \<Rightarrow> 'd lval list result" where
  "push_mysql_row row num stack =
     (if num \<le> length row then row_loop 1 (take num row) (Table [] # stack) else Inl OutOfBounds)"

primrec fetch_loop :: "int \<Rightarrow> nat \<Rightarrow> string option list list \<Rightarrow> 'd lval list \<Rightarrow> 'd lval list result" where
  "fetch_loop i num [] stack = Inr stack"
| "fetch_loop i num (row # rows) stack =
     rbind (push_mysql_row row num stack) (\<lambda>stack. rbind (lua_rawseti i stack) (fetch_loop (i + 1) num rows))"

definition on_mysql_query_cb ::
  "string option \<Rightarrow> (nat \<times> string option list list) option \<Rightarrow> int \<Rightarrow> 'd fn_table
    \<Rightarrow> ((nat \<times> 'd lval list) option \<times> 'd fn_table) result" where
  "on_mysql_query_cb err result =
     answer_script (case err of
         Some e \<Rightarrow> Inr [Nil, Str e]
       | None \<Rightarrow> (case result of
             Some (num, rows) \<Rightarrow> fetch_loop 1 num rows (Table [] # [Nil])
           | None \<Rightarrow> Inr [Nil, Nil]))"

section \<open>Tables filled from 1\<close>

definition fill_from :: "nat \<Rightarrow> 'd lval list \<Rightarrow> ('d lval \<times> 'd lval) list \<Rightarrow> ('d lval \<times> 'd lval) list" where
  "fill_from k vs es = fold (\<lambda>(i, v) es. rawset es (Integer (int i + 1)) v) (enumerate k vs) es"

lemma fill_from_simps [simp]:
  "fill_from k [] es = es"
  "fill_from k (v # vs) es = fill_from (Suc k) vs (rawset es (Integer (int k + 1)) v)"
  by (simp_all add: fill_from_def)

lemma fill_from_below: "i < int k + 1 \<Longrightarrow> rawget (fill_from k vs es) (Integer i) = rawget es (Integer i)"
  by (induction vs arbitrary: k es) auto

lemma fill_from_get: "i < length vs \<Longrightarrow> rawget (fill_from k vs es) (Integer (int (k + i) + 1)) = vs ! i"
proof (induction vs arbitrary: k es i)
  case (Cons v vs)
  show ?case
  proof (cases i)
    case 0
    then show ?thesis by (simp add: fill_from_below)
  next
    case (Suc j)
    with Cons.IH [of j "Suc k"] Cons.prems show ?thesis by simp
  qed
qed simp

section \<open>Answers as values\<close>

fun error_free :: "redis_reply \<Rightarrow> bool" where
  "error_free (ReplyArray rs) = list_all error_free rs"
| "error_free (ReplyError e) = False"
| "error_free r = True"

fun reply_value :: "redis_reply \<Rightarrow> 'd lval" where
  "reply_value (ReplyString s) = Str (c_text s)"
| "reply_value (ReplyStatus s) = Str (c_text s)"
| "reply_value (ReplyInteger i) = Integer i"
| "reply_value ReplyNil = Nil"
| "reply_value (ReplyArray rs) = Table (fill_from 0 (map reply_value rs) [])"
| "reply_value (ReplyError e) = Nil"

lemma push_elements_values:
  fixes stack :: "'d lval list"
  assumes "\<And>r (stack :: 'd lval list). r \<in> set rs \<Longrightarrow> push_result_to_lua r stack = Inr (reply_value r # stack)"
  shows "push_elements (int k + 1) rs (Table es # stack) = Inr (Table (fill_from k (map reply_value rs) es) # stack)"
  using assms
proof (induction rs arbitrary: k es)
  case (Cons r rs)
  have "push_elements (int (Suc k) + 1) rs (Table (rawset es (Integer (int k + 1)) (reply_value r)) # stack) =
      Inr (Table (fill_from (Suc k) (map reply_value rs) (rawset es (Integer (int k + 1)) (reply_value r))) # stack)"
    by (rule Cons.IH) (use Cons.prems in simp)
  moreover have "push_result_to_lua r (Table es # stack) = Inr (reply_value r # Table es # stack)"
    by (rule Cons.prems) simp
  ultimately show ?case by (simp add: lua_rawseti_def add.commute)
qed simp

lemma push_result_value: "error_free r \<Longrightarrow> push_result_to_lua r stack = Inr (reply_value r # stack)"
proof (induction r arbitrary: stack)
  case (ReplyArray rs)
  then have "push_result_to_lua r stack = Inr (reply_value r # stack)" if "r \<in> set rs" for r and stack :: "'a lval list"
    using that by (simp add: list_all_iff)
  from push_elements_values [OF this, of rs 0] show ?case by simp
qed simp_all

text \<open>
  C25: The answer to a query reaches the script: the function it left is called with nil and the
  answer's value, and is released. An array is a table with its elements from 1 on.
\<close>

theorem redis_answer_reaches_script:
  assumes "fn_mapping fs h = Function f" "error_free r"
  shows "on_redis_query_cb None (Some r) h fs =
       Inr (Some (f, [Nil, reply_value r]), fs\<lparr>fn_mapping := (fn_mapping fs)(h := Nil)\<rparr>) \<and>
     (\<forall>rs. r = ReplyArray rs \<longrightarrow> (\<exists>t. reply_value r = Table t \<and>
        (\<forall>i < length rs. rawget t (Integer (int i + 1)) = reply_value (rs ! i))))"
  using assms fill_from_get [of _ "map reply_value _" 0]
  by (auto simp: on_redis_query_cb_def answer_script_def push_result_value call_script_handler_def
      toluafix_remove_function_def)

definition demo_fns :: "int fn_table" where
  "demo_fns = snd (toluafix_ref_function (Some (Function 7)) \<lparr>s_fn_ref_id = 4, fn_mapping = (\<lambda>_. Nil)\<rparr>)"

theorem redis_answer_reaches_script_witness:
  "\<exists>t. on_redis_query_cb None (Some (ReplyArray [ReplyString ''ulevel'', ReplyInteger 3])) 5 demo_fns =
       Inr (Some (7, [Nil, Table t]), demo_fns\<lparr>fn_mapping := (fn_mapping demo_fns)(5 := Nil)\<rparr>) \<and>
     rawget t (Integer 1) = Str ''ulevel'' \<and> rawget t (Integer 2) = Integer 3"
proof -
  let ?r = "ReplyArray [ReplyString ''ulevel'', ReplyInteger 3]"
  have "fn_mapping demo_fns 5 = Function 7" by (simp add: demo_fns_def toluafix_ref_function_def Let_def)
  from redis_answer_reaches_script [OF this, of ?r, THEN conjunct1]
  have "on_redis_query_cb None (Some ?r) 5 demo_fns =
      Inr (Some (7, [Nil, reply_value ?r]), demo_fns\<lparr>fn_mapping := (fn_mapping demo_fns)(5 := Nil)\<rparr>)" by simp
  then show ?thesis
    by (intro exI [of _ "fill_from 0 [Str ''ulevel'', Integer 3] []"]) (simp add: c_text_def)
qed

text \<open>
  An error among the elements of an array, as the answer to a transaction has them, pushes
  nothing: the entry is then made in whatever lies below the array's table.
\<close>

lemma redis_error_element:
  fixes fs :: "'d fn_table"
  assumes "list_all error_free rs"
  shows "on_redis_query_cb None (Some (ReplyArray (rs @ ReplyError e # rs'))) h fs = Inl OutOfBounds"
proof -
  have append: "push_elements i (rs @ rs') st = rbind (push_elements i rs st) (push_elements (i + int (length rs)) rs')"
    for i rs rs' and st :: "'d lval list"
  proof (induction rs arbitrary: i st)
    case (Cons r rs)
    then show ?case
      by (cases "push_result_to_lua r st") (auto simp: rbind_def add.assoc split: sum.splits)
  qed simp
  have "push_elements (int 0 + 1) rs (Table [] # [Nil :: 'd lval]) = Inr (Table (fill_from 0 (map reply_value rs) []) # [Nil])"
    by (rule push_elements_values, rule push_result_value) (use assms in \<open>simp add: list_all_iff\<close>)
  then show ?thesis
    by (simp add: on_redis_query_cb_def answer_script_def append lua_rawseti_def)
qed

definition cell :: "string option \<Rightarrow> 'd lval" where
  "cell c = (case c of None \<Rightarrow> Nil | Some s \<Rightarrow> Str (c_text s))"

lemma row_loop_cells: "row_loop (int k + 1) cs (Table es # stack) = Inr (Table (fill_from k (map cell cs) es) # stack)"
proof (induction cs arbitrary: k es)
  case (Cons c cs)
  from Cons [of "Suc k" "rawset es (Integer (int k + 1)) (cell c)"] show ?case
    by (simp add: lua_rawseti_def cell_def add.commute)
qed simp

definition row_value :: "nat \<Rightarrow> string option list \<Rightarrow> 'd lval" where
  "row_value num row = Table (fill_from 0 (map cell (take num row)) [])"

lemma fetch_loop_rows:
  assumes "\<forall>row \<in> set rows. num \<le> length row"
  shows "fetch_loop (int k + 1) num rows (Table es # stack) =
    Inr (Table (fill_from k (map (row_value num) rows) es) # stack)"
  using assms
proof (induction rows arbitrary: k es)
  case (Cons row rows)
  have "push_mysql_row row num (Table es # stack) = Inr (row_value num row # Table es # stack)"
    using Cons.prems row_loop_cells [of 0 "take num row" "[]"] by (simp add: push_mysql_row_def row_value_def)
  with Cons.IH [of "Suc k" "rawset es (Integer (int k + 1)) (row_value num row)"] Cons.prems show ?case
    by (simp add: lua_rawseti_def add.commute)
qed simp

text \<open>
  The rows of a result reach the script: entry \<open>j\<close> of entry \<open>i\<close> of the table it is given is
  column \<open>j\<close> of row \<open>i\<close>, counted from 1, and nil where the column is null.
\<close>

theorem mysql_rows_reach_script:
  fixes fs :: "'d fn_table"
  assumes "fn_mapping fs h = Function f" "\<forall>row \<in> set rows. num \<le> length row"
  shows "\<exists>t. on_mysql_query_cb None (Some (num, rows)) h fs =
       Inr (Some (f, [Nil, Table t]), fs\<lparr>fn_mapping := (fn_mapping fs)(h := Nil)\<rparr>) \<and>
     (\<forall>i < length rows. \<exists>es. rawget t (Integer (int i + 1)) = Table es \<and>
        (\<forall>j < num. rawget es (Integer (int j + 1)) = (case rows ! i ! j of None \<Rightarrow> Nil | Some s \<Rightarrow> Str (c_text s))))"
proof (intro exI conjI allI impI)
  let ?t = "fill_from 0 (map (row_value num) rows) []"
  show "on_mysql_query_cb None (Some (num, rows)) h fs =
      Inr (Some (f, [Nil, Table ?t]), fs\<lparr>fn_mapping := (fn_mapping fs)(h := Nil)\<rparr>)"
    using assms(1) fetch_loop_rows [OF assms(2), of 0 "[]" "[Nil :: 'd lval]"]
    by (simp add: on_mysql_query_cb_def answer_script_def call_script_handler_def toluafix_remove_function_def)
  fix i assume i: "i < length rows"
  show "rawget ?t (Integer (int i + 1)) = Table (fill_from 0 (map cell (take num (rows ! i))) [])"
    using fill_from_get [of i "map (row_value num) rows" 0 "[]"] i by (simp add: row_value_def)
  fix j assume j: "j < num"
  moreover from assms(2) i have "num \<le> length (rows ! i)" by simp
  ultimately show "rawget (fill_from 0 (map cell (take num (rows ! i))) []) (Integer (int j + 1)) =
      (case rows ! i ! j of None \<Rightarrow> Nil | Some s \<Rightarrow> Str (c_text s))"
    using fill_from_get [of j "map cell (take num (rows ! i))" 0 "[]"] by (simp add: cell_def)
qed

theorem mysql_rows_reach_script_witness:
  "\<exists>t. on_mysql_query_cb None (Some (2, [[Some ''7'', None], [Some ''8'', Some ''x'']])) 5 demo_fns =
       Inr (Some (7, [Nil, Table t]), demo_fns\<lparr>fn_mapping := (fn_mapping demo_fns)(5 := Nil)\<rparr>) \<and>
     (\<forall>i < length [[Some ''7'', None], [Some ''8'', Some ''x'']]. \<exists>es. rawget t (Integer (int i + 1)) = Table es \<and>
        (\<forall>j < 2. rawget es (Integer (int j + 1)) =
          (case [[Some ''7'', None], [Some ''8'', Some ''x'']] ! i ! j of None \<Rightarrow> Nil | Some s \<Rightarrow> Str (c_text s))))"
proof (rule mysql_rows_reach_script)
  show "fn_mapping demo_fns 5 = Function 7" by (simp add: demo_fns_def toluafix_ref_function_def Let_def)
qed simp

end
