(* ===== verification/Spec2Isabelle.thy ===== *)
theory Spec2Isabelle
  imports Cache_Race Netbus Http_Safe Md5 Logger Timer End_To_End Database_Runs Lua_Database
begin

text \<open>
  HYXD is the server of a multiplayer game, in C and C++: one process that listens for TCP,
  WebSocket and UDP clients, connects to other processes of its kind, dispatches the commands it
  receives to services, queries Redis and MySQL, and runs its game logic in Lua. This library
  models the server under \<open>src/\<close> that the game logic stands on, and the parts of the bundled
  third-party code that the server's own behaviour depends on. The model is a translation of the
  source: each definition is named after what it translates, records are the structs and classes,
  and undefined behaviour of C is a value (\<open>c_error\<close> of \<open>Hyxd_Base\<close>), so that every theorem
  that yields a result also says that the run reached none.

  \<^bold>\<open>How a command travels.\<close> A service calls \<open>session::send_msg\<close>; the command is encoded
  (\<open>encode_msg_to_raw\<close>), packed (\<open>tp_package\<close> or \<open>ws_package_send_data\<close>) and written. At the other
  end \<open>uv_alloc_buf\<close> gives libuv room behind the bytes that wait, \<open>after_read\<close> counts the new
  ones, on a WebSocket first answers the handshake (with the HTTP parser, SHA-1 and Base64), and
  runs \<open>on_recv_tcp_data\<close> or \<open>on_recv_ws_data\<close>, which cut complete packets off the buffer. Each is
  decoded (\<open>decode_raw_cmd\<close>, \<open>decode_cmd_msg\<close>) and given to the service of its type in
  \<open>g_service_set\<close>: a C++ class, or a \<open>lua_service\<close> that hands a script the command as a table. A
  service that returns false, or an end of the stream, closes the session, which tells every
  service. Timers and the answers of the databases reach the scripts from the same loop.
\<close>

text \<open>
  \<^bold>\<open>The theories, and the files they model.\<close>

  \<^item> \<open>Hyxd_Base\<close>: bytes, words, \<open>memmove\<close>, little-endian fields, C strings, errors.
  \<^item> \<open>Cache_Alloc\<close> (\<open>utils/catch_alloc.c\<close>, \<open>small_alloc.c\<close>): the block pool, with the free
    list in the blocks themselves. The locale \<open>block_allocator\<close> states what a client relies on;
    a client that writes and releases only what it holds never holds two blocks that overlap. \<open>Cache_Race\<close>: the same code one access at a time under two
    threads, where two allocations can return one block (the pool takes no lock, and the database
    clients call it from worker threads).
  \<^item> \<open>Tp_Protocol\<close>, \<open>Ws_Frame\<close> (\<open>netbus/tp_protocol.cc\<close>, \<open>ws_protocol.cc\<close>): the two packet
    formats, with the layout of RFC 6455 as reference; the locale \<open>codec\<close>. \<open>Framing\<close>: the
    specification of cutting a stream into packets, and the locale \<open>framing\<close> of header readers, by
    which the cut does not depend on how the bytes arrive.
  \<^item> \<open>Proto_Man\<close> (\<open>netbus/proto_man.cc\<close>): commands, both encodings, the map of command names.
  \<^item> \<open>Session\<close> (\<open>session.h\<close>, \<open>session_uv.cc\<close>, \<open>udp_session.cc\<close>, \<open>service.cc\<close>): sessions, the node
    (all state of a process: sessions, services, protocol state, pending writes, the calls made to
    libuv as events), and sending.
  \<^item> \<open>Service_Man\<close> (\<open>service_man.cc\<close>, \<open>uv_session::close\<close>): registration, dispatch, the two
    broadcasts and closing; the locale \<open>registry\<close>.
  \<^item> \<open>Recv_Loop\<close>, \<open>Netbus\<close> (\<open>netbus/netbus.cc\<close>): the receive loops refine \<open>Framing\<close> (locale
    \<open>receive_loop\<close>), and the callbacks around them refine a connection that delivers each packet
    once and in order (locale \<open>connection\<close>); accept, connect, shutdown, listeners, UDP.
  \<^item> \<open>Http_Base\<close>, \<open>Http_Url\<close>, \<open>Http_Parser\<close>, \<open>Http_Run\<close>, \<open>Http_Safe\<close>, \<open>Http_Request\<close>, \<open>Http_Listen\<close>
    (\<open>3rd/http_parser/http_parser.c\<close>): the whole parser in strict mode, one definition per group of
    states; that it never leaves the text, that its assertions (those of the callback macros and of
    \<open>http_parser_pause\<close> between two calls, too) never fail, and that it reports a well-formed
    request faithfully.
  \<^item> \<open>Base64\<close>, \<open>Sha1\<close>, \<open>Md5\<close> (\<open>3rd/crypto\<close>), \<open>Ws_Handshake\<close> (\<open>ws_protocol::ws_shake_hand\<close>): the
    codec and its round trip up to the length from which its \<open>int\<close> sizes overflow, the hashes
    against FIPS 180 and RFC 1321, and the answer to a client's handshake.
  \<^item> \<open>Timestamp\<close> (\<open>utils/timestamp.c\<close>), \<open>Timer\<close> (\<open>3rd/libuv/src/win/timer.c\<close>, \<open>utils/time_list.c\<close>,
    \<open>lua_wrapper/scheduler_export_to_lua.cc\<close>): dates, and the three layers of timers, where
    timers fire in the order of their due times and a scheduled function as often as was asked;
    the locale \<open>comparator\<close>.
  \<^item> \<open>Logger\<close> (\<open>utils/logger.cc\<close>): which file a line is appended to, and with which time.
  \<^item> \<open>Database\<close>, \<open>Database_Safe\<close>, \<open>Database_Runs\<close> (\<open>database/redis_wrapper.cc\<close>, \<open>mysql_wrapper.cc\<close>,
    \<open>3rd/libuv/src/threadpool.c\<close>): a step relation of the loop's thread and \<open>n\<close> workers, one
    access to shared memory a step. The locale \<open>db_driver\<close> is what the common proof needs of a
    client, and both clients are instances. Programs that close a connection only after its answers
    and do not use it afterwards fail only by reading a null answer of the library, which the code
    does not check, or by two threads inside the unlocked \<open>small_alloc\<close>; a run without these gets
    every answer, and a close may overtake a query.
  \<^item> \<open>Lua_Value\<close> (\<open>3rd/lua-5.3.4\<close>), \<open>Lua_Message\<close>, \<open>Lua_Service\<close> (\<open>session_export_to_lua.cc\<close>,
    \<open>service_export_to_lua.cc\<close>, \<open>proto_man_export_to_lua.cc\<close>): values and their conversions,
    messages as tables and back, services of scripts. A command handed to a script and sent on is
    the command received, where the message types nest finitely, are named without capitals and
    packages, and 64-bit integers stay below \<open>2^53\<close>. \<open>Lua_Database\<close> (\<open>redis_export_to_lua.cc\<close>,
    \<open>mysql_export_to_lua.cc\<close>, \<open>3rd/tolua/tolua_fix.cc\<close>): the databases' answers as values of Lua,
    and the functions that wait for them.
  \<^item> \<open>End_To_End\<close>: the composition, from \<open>send_msg\<close> of one process to the methods of the other.
\<close>

text \<open>
  \<^bold>\<open>Parameters.\<close> Code that is not in the repository, and what the environment decides, is an
  argument: the addresses \<open>malloc\<close> returns (\<open>malloc_fresh\<close>), the blocks of a pool with the bytes
  they held (\<open>wbuf\<close>), the protobuf library (\<open>'m protobuf\<close>; a round trip assumes that it parses
  what it serialized), libuv's answers and the pieces in which bytes arrive, the C library's time
  functions, the answers of hiredis and libmysql (null included) and what hiredis sends for a text
  that it is given as a format, the doubles of the machine (\<open>ieee\<close> says that
  53-bit integers are exact) and the border Lua takes for a table's length. The methods of
  services are programs over the operations of sessions (\<open>svc_prog\<close>), callbacks of timers and of
  the HTTP parser are functions on the state they can reach; the theorems hold for all of them, or
  name what they ask of them.

  \<^bold>\<open>Bounds.\<close> Recursion that the source does not bound has a parameter. \<open>depth\<close> is how often closing
  and the services' disconnect methods may call each other; with methods that close no session a
  depth of 1 is enough when they come to their end, and with one that closes its own session none is. The
  \<open>fuel\<close> of \<open>push_message\<close> is enough when it exceeds the depth of the message's type (\<open>push_ends\<close>),
  and none is for a type that contains itself. The receive loops are \<open>partial_function\<close>s: that they
  return is part of what is proved of them, as is the input on which the TCP loop does not (an
  announced size of zero). \<open>http_parser_execute\<close>, \<open>my_strptime\<close>, the table reader and the processing
  of due timers are total, with their termination proved. The fixed buffers of the source (4096
  bytes of \<open>recv_buf\<close>, 512 of \<open>respones\<close> and of the handshake's arrays, 1024 services) are kept
  at their sizes.

  \<^bold>\<open>Not modelled.\<close> The programs under \<open>apps/\<close> (start-up) and the Lua scripts themselves; the
  bindings that only pass arguments to modelled operations (\<open>netbus_export_to_lua.cc\<close>,
  \<open>utils_export_to_lua.cc\<close>) and the start of the interpreter (\<open>lua_wrapper.cc\<close>); the rest of the
  third-party code under \<open>3rd/\<close> (libuv's sockets, the Lua interpreter, tolua, protobuf, mjson) and
  the messages generated by the protobuf compiler. Memory that is only given back
  (\<open>cmd_msg_free\<close>, \<open>base64_decode_free\<close>) is left out, except where an access after it matters:
  sessions, timers, and the contexts of the databases.
\<close>

end
